(* ===== verification/Prelude.thy ===== *)
theory Prelude
  imports Main "HOL-Library.Word" "HOL-Library.Product_Lexorder"
begin

text \<open>
  Shared vocabulary of the development.

  \<^item> The fixed-width integers of \<^verbatim>\<open>walleve/type.h\<close> and the byte vectors the program passes
    around (\<^verbatim>\<open>std::vector<unsigned char>\<close>).
  \<^item> Little-endian byte images of unsigned integers, the memory layout that every raw read and
    write of the program relies on.
  \<^item> \<^verbatim>\<open>std::map\<close> as an association list in strictly increasing key order, so that lookup,
    assignment, erasure and the iteration order of the source are all computable.  The locale
    \<open>ordered_map\<close> states what the components use of such a map and is interpreted on the
    concrete lists here.
  \<^item> The result type of fallible code.
\<close>

named_theorems omap_simps \<open>rewrite rules for lookups in updated ordered maps\<close>
named_theorems codec_simps \<open>decoding of encoded values\<close>
named_theorems size_simps \<open>lengths of encoded values\<close>

section \<open>Machine types\<close>

type_synonym uint8 = "8 word"
type_synonym uint16 = "16 word"
type_synonym uint32 = "32 word"
type_synonym uint64 = "64 word"
type_synonym uint256 = "256 word"
type_synonym bytes = "8 word list"

abbreviation bit_and :: "'a::len word \<Rightarrow> 'a word \<Rightarrow> 'a word"
  where "bit_and \<equiv> Bit_Operations.and"

abbreviation bit_or :: "'a::len word \<Rightarrow> 'a word \<Rightarrow> 'a word"
  where "bit_or \<equiv> Bit_Operations.or"

abbreviation bit_xor :: "'a::len word \<Rightarrow> 'a word \<Rightarrow> 'a word"
  where "bit_xor \<equiv> Bit_Operations.xor"

text \<open>A value of a signed machine type is an integer; these are the ranges.\<close>

definition int32_range :: "int \<Rightarrow> bool"
  where "int32_range x \<longleftrightarrow> - (2 ^ 31) \<le> x \<and> x < 2 ^ 31"

definition int64_range :: "int \<Rightarrow> bool"
  where "int64_range x \<longleftrightarrow> - (2 ^ 63) \<le> x \<and> x < 2 ^ 63"

section \<open>Little-endian byte images\<close>

fun le_bytes :: "nat \<Rightarrow> nat \<Rightarrow> bytes" where
  "le_bytes 0 x = []"
| "le_bytes (Suc n) x = word_of_nat (x mod 256) # le_bytes n (x div 256)"

fun le_val :: "bytes \<Rightarrow> nat" where
  "le_val [] = 0"
| "le_val (b # bs) = unat b + 256 * le_val bs"

lemma pow256: "(256::nat) ^ n = 2 ^ (8 * n)"
  by (simp add: power_mult)

lemma length_le_bytes [simp, size_simps]: "length (le_bytes n x) = n"
  by (induction n arbitrary: x) auto

lemma le_val_bound: "le_val bs < 256 ^ length bs"
proof (induction bs)
  case (Cons b bs)
  have "unat b < 256" using unsigned_less [of b] by simp
  with Cons show ?case by simp
qed simp

lemma le_val_le_bytes [simp]: "le_val (le_bytes n x) = x mod 256 ^ n"
proof (induction n arbitrary: x)
  case (Suc n)
  have "unat (word_of_nat (x mod 256) :: 8 word) = x mod 256"
    by (simp add: unat_of_nat)
  then show ?case
    using Suc by (simp add: mod_mult2_eq)
qed simp

lemma le_bytes_le_val [simp]: "le_bytes (length bs) (le_val bs) = bs"
proof (induction bs)
  case (Cons b bs)
  have lt: "unat b < 256" using unsigned_less [of b] by simp
  then have "(unat b + 256 * le_val bs) mod 256 = unat b"
    and "(unat b + 256 * le_val bs) div 256 = le_val bs" by auto
  with Cons show ?case by simp
qed simp

lemma le_bytes_inj: "x < 256 ^ n \<Longrightarrow> y < 256 ^ n \<Longrightarrow> le_bytes n x = le_bytes n y \<Longrightarrow> x = y"
  by (metis le_val_le_bytes mod_less)

lemma le_val_append: "le_val (xs @ ys) = le_val xs + 256 ^ length xs * le_val ys"
  by (induction xs) (auto simp: algebra_simps)

lemma take_le_bytes: "k \<le> n \<Longrightarrow> take k (le_bytes n x) = le_bytes k x"
proof (induction n arbitrary: k x)
  case (Suc n)
  then show ?case by (cases k) auto
qed simp

section \<open>Shifted words\<close>

lemma bit_word_lt: "unat (c :: 'a::len word) < 2 ^ k \<Longrightarrow> bit c n \<Longrightarrow> n < k"
proof (rule ccontr)
  assume c: "unat c < 2 ^ k" and b: "bit c n" and "\<not> n < k"
  then have "unat c < 2 ^ n"
    by (meson le_less_trans linorder_not_less order_less_le_trans one_le_numeral power_increasing)
  moreover from b have "odd (unat c div 2 ^ n)" by (simp add: bit_unsigned_iff flip: bit_iff_odd)
  ultimately show False by simp
qed

lemma or_push_bit:
  "unat (c :: 'a::len word) < 2 ^ k \<Longrightarrow> bit_or (push_bit k v) c = push_bit k v + c"
  by (rule disjunctive_add [symmetric]) (auto simp: bit_push_bit_iff dest: bit_word_lt)

lemma unat_or_push_bit:
  assumes c: "unat (c :: 'a::len word) < 2 ^ k"
    and v: "unat v * 2 ^ k + unat c < 2 ^ LENGTH('a)"
  shows "unat (bit_or (push_bit k v) c) = unat v * 2 ^ k + unat c"
proof -
  have "push_bit k v + c = word_of_nat (unat v * 2 ^ k + unat c)"
    by (simp add: push_bit_eq_mult)
  then have "unat (push_bit k v + c) = unat v * 2 ^ k + unat c"
    using v by (simp only: unat_of_nat take_bit_eq_mod mod_less)
  then show ?thesis by (simp only: or_push_bit [OF c])
qed

section \<open>Results of fallible code\<close>

text \<open>\<open>Inl\<close> is the error or exception, \<open>Inr\<close> the normal result.\<close>

fun ebind :: "'e + 'a \<Rightarrow> ('a \<Rightarrow> 'e + 'b) \<Rightarrow> 'e + 'b" where
  "ebind (Inl e) f = Inl e"
| "ebind (Inr x) f = f x"

lemma ebind_eq_Inr: "ebind m f = Inr y \<longleftrightarrow> (\<exists>x. m = Inr x \<and> f x = Inr y)"
  by (cases m) auto

lemma ebind_cong [fundef_cong]:
  "m = m' \<Longrightarrow> (\<And>x. m' = Inr x \<Longrightarrow> f x = f' x) \<Longrightarrow> ebind m f = ebind m' f'"
  by (cases m') auto

section \<open>Ordered maps\<close>

type_synonym ('k, 'v) omap = "('k \<times> 'v) list"

abbreviation om_get :: "('k, 'v) omap \<Rightarrow> 'k \<Rightarrow> 'v option"
  where "om_get m k \<equiv> map_of m k"

definition om_has :: "('k, 'v) omap \<Rightarrow> 'k \<Rightarrow> bool"
  where "om_has m k \<longleftrightarrow> om_get m k \<noteq> None"

definition om_wf :: "('k::linorder, 'v) omap \<Rightarrow> bool"
  where "om_wf m \<longleftrightarrow> sorted_wrt (<) (map fst m)"

fun om_set :: "'k::linorder \<Rightarrow> 'v \<Rightarrow> ('k, 'v) omap \<Rightarrow> ('k, 'v) omap" where
  "om_set k v [] = [(k, v)]"
| "om_set k v (p # m) =
     (if k < fst p then (k, v) # p # m
      else if k = fst p then (k, v) # m
      else p # om_set k v m)"

definition om_del :: "'k \<Rightarrow> ('k, 'v) omap \<Rightarrow> ('k, 'v) omap"
  where "om_del k m = filter (\<lambda>p. fst p \<noteq> k) m"

text \<open>\<^verbatim>\<open>map::insert\<close> keeps the value that is already there.\<close>

definition om_ins :: "'k::linorder \<Rightarrow> 'v \<Rightarrow> ('k, 'v) omap \<Rightarrow> ('k, 'v) omap"
  where "om_ins k v m = (if om_has m k then m else om_set k v m)"

lemma om_get_set: "om_get (om_set k v m) = (om_get m)(k \<mapsto> v)"
  by (induction m) (auto simp: fun_eq_iff)

lemma om_get_del: "om_get (om_del k m) = (om_get m)(k := None)"
  by (induction m) (auto simp: om_del_def fun_eq_iff)

lemma fst_set_om_set: "fst ` set (om_set k v m) = insert k (fst ` set m)"
  by (induction m) auto

lemma om_wf_Nil [simp]: "om_wf []"
  by (simp add: om_wf_def)

lemma om_wf_Cons: "om_wf (p # m) \<longleftrightarrow> (\<forall>q \<in> set m. fst p < fst q) \<and> om_wf m"
  by (auto simp: om_wf_def)

lemma om_wf_set: "om_wf m \<Longrightarrow> om_wf (om_set k v m)"
proof (induction m)
  case (Cons p m)
  have "fst p < fst q" if "q \<in> set (om_set k v m)" "fst p < k" for q
  proof -
    have "fst q \<in> insert k (fst ` set m)" using that(1) fst_set_om_set [of k v m] by blast
    with Cons.prems that(2) show ?thesis by (auto simp: om_wf_Cons)
  qed
  with Cons show ?case by (auto simp: om_wf_Cons)
qed (simp add: om_wf_Cons)

lemma om_wf_filter: "om_wf m \<Longrightarrow> om_wf (filter P m)"
  by (induction m) (auto simp: om_wf_Cons)

lemma om_wf_del: "om_wf m \<Longrightarrow> om_wf (om_del k m)"
  by (simp add: om_del_def om_wf_filter)

lemma om_wf_distinct: "om_wf m \<Longrightarrow> distinct (map fst m)"
  by (induction m) (auto simp: om_wf_Cons)

lemma om_wf_mem: "om_wf m \<Longrightarrow> (k, v) \<in> set m \<longleftrightarrow> om_get m k = Some v"
  by (metis om_wf_distinct map_of_SomeD map_of_is_SomeI)

lemma om_wf_tail_keys: "om_wf (p # m) \<Longrightarrow> om_get m (fst p) = None"
  by (auto simp: om_wf_Cons map_of_eq_None_iff)

text \<open>Two well-formed maps with the same lookups are the same list, so comparing two maps of the
  program with \<open>=\<close> is comparing their contents.\<close>

lemma om_wf_ext: "om_wf m \<Longrightarrow> om_wf n \<Longrightarrow> om_get m = om_get n \<Longrightarrow> m = n"
proof -
  assume wf: "om_wf m" "om_wf n" and eq: "om_get m = om_get n"
  have "set m = set n"
    using om_wf_mem [OF wf(1)] om_wf_mem [OF wf(2)] eq by auto
  with wf show ?thesis
  proof (induction m arbitrary: n)
    case (Cons p m)
    then obtain q n' where n: "n = q # n'" by (cases n) auto
    have "p = q"
      using Cons.prems unfolding n om_wf_Cons
      by (metis less_asym list.set_intros(1) set_ConsD)
    moreover have "p \<notin> set m" "q \<notin> set n'"
      using Cons.prems unfolding n om_wf_Cons by auto
    ultimately have "set m = set n'"
      using Cons.prems(3) unfolding n by (metis insert_ident list.simps(15))
    then have "m = n'"
      using Cons.IH [of n'] Cons.prems(1,2) by (simp add: n om_wf_Cons)
    with \<open>p = q\<close> show ?case by (simp add: n)
  qed simp
qed

lemma om_has_iff: "om_has m k \<longleftrightarrow> k \<in> dom (om_get m)"
  by (auto simp: om_has_def)

lemma om_wf_ins: "om_wf m \<Longrightarrow> om_wf (om_ins k v m)"
  by (simp add: om_ins_def om_wf_set)

lemma om_get_ins: "om_get (om_ins k v m) = (if om_has m k then om_get m else (om_get m)(k \<mapsto> v))"
  by (auto simp: om_ins_def om_get_set fun_eq_iff)

lemma dom_om_get: "dom (om_get m) = set (map fst m)"
  by (simp add: dom_map_of_conv_image_fst)

text \<open>What a client of \<^verbatim>\<open>std::map\<close> relies on: lookups after assignment and erasure, and the
  keys being visited in increasing order.\<close>

locale ordered_map =
  fixes get :: "'m \<Rightarrow> 'k::linorder \<Rightarrow> 'v option"
    and put :: "'k \<Rightarrow> 'v \<Rightarrow> 'm \<Rightarrow> 'm"
    and del :: "'k \<Rightarrow> 'm \<Rightarrow> 'm"
    and keys :: "'m \<Rightarrow> 'k list"
    and wf :: "'m \<Rightarrow> bool"
  assumes get_put: "get (put k v m) = (get m)(k \<mapsto> v)"
    and get_del: "get (del k m) = (get m)(k := None)"
    and wf_put: "wf m \<Longrightarrow> wf (put k v m)"
    and wf_del: "wf m \<Longrightarrow> wf (del k m)"
    and keys_sorted: "wf m \<Longrightarrow> sorted_wrt (<) (keys m)"
    and keys_dom: "set (keys m) = dom (get m)"
    and ext: "wf m \<Longrightarrow> wf n \<Longrightarrow> get m = get n \<Longrightarrow> m = n"
begin

lemma wf_fold_put: "wf m \<Longrightarrow> wf (fold (\<lambda>x. put (k x) (v x)) xs m)"
  by (induction xs arbitrary: m) (auto intro: wf_put)

lemma wf_fold_del: "wf m \<Longrightarrow> wf (fold (\<lambda>x. del (k x)) xs m)"
  by (induction xs arbitrary: m) (auto intro: wf_del)

lemma get_fold_put_const:
  "get (fold (\<lambda>x. put (k x) v) xs m) y = (if y \<in> k ` set xs then Some v else get m y)"
  by (induction xs arbitrary: m) (auto simp: get_put)

lemma get_fold_del:
  "get (fold (\<lambda>x. del (k x)) xs m) y = (if y \<in> k ` set xs then None else get m y)"
  by (induction xs arbitrary: m) (auto simp: get_del)

lemma put_del_restore: "wf m \<Longrightarrow> get m k = Some v \<Longrightarrow> put k v (del k m) = m"
  by (intro ext wf_put wf_del) (auto simp: get_put get_del fun_eq_iff)

lemma del_put_fresh: "wf m \<Longrightarrow> get m k = None \<Longrightarrow> del k (put k v m) = m"
  by (intro ext wf_put wf_del) (auto simp: get_put get_del fun_eq_iff)

lemma put_commute: "wf m \<Longrightarrow> k \<noteq> l \<Longrightarrow> put k v (put l w m) = put l w (put k v m)"
  by (intro ext wf_put) (auto simp: get_put fun_eq_iff)

lemma put_same: "wf m \<Longrightarrow> get m k = Some v \<Longrightarrow> put k v m = m"
  by (intro ext wf_put) (auto simp: get_put fun_eq_iff)

end

interpretation om: ordered_map map_of om_set om_del "map fst" om_wf
proof unfold_locales
  fix k :: "'a::linorder" and v :: 'b and m n :: "('a, 'b) omap"
  show "om_get (om_set k v m) = (om_get m)(k \<mapsto> v)" by (rule om_get_set)
  show "om_get (om_del k m) = (om_get m)(k := None)" by (rule om_get_del)
  show "om_wf m \<Longrightarrow> om_wf (om_set k v m)" by (rule om_wf_set)
  show "om_wf m \<Longrightarrow> om_wf (om_del k m)" by (rule om_wf_del)
  show "om_wf m \<Longrightarrow> sorted_wrt (<) (map fst m)" by (simp add: om_wf_def)
  show "set (map fst m) = dom (om_get m)" by (simp add: dom_om_get)
  show "om_wf m \<Longrightarrow> om_wf n \<Longrightarrow> om_get m = om_get n \<Longrightarrow> m = n" by (rule om_wf_ext)
qed

lemmas om_get_simps [omap_simps] = om_get_set om_get_del om_get_ins
lemmas om_wf_intros [intro] = om_wf_set om_wf_del om_wf_ins om_wf_filter

end
