(* ===== verification/Serialize.thy ===== *)
theory Serialize
  imports Prelude "HOL-Library.Monad_Syntax"
begin

text \<open>
  The serialisation layer: \<^verbatim>\<open>walleve/stream/stream.h\<close>, \<^verbatim>\<open>stream.cpp\<close> (class
  \<^verbatim>\<open>CWalleveStream\<close>, \<^verbatim>\<open>CVarInt\<close>, \<^verbatim>\<open>CBinary\<close>, the vector, map and pair overloads) and
  \<^verbatim>\<open>datastream.h\<close> (\<^verbatim>\<open>CWalleveODataStream\<close>, \<^verbatim>\<open>CWalleveIDataStream\<close>).

  A writer is a function to bytes.  A reader of \<^verbatim>\<open>CWalleveStream\<close> takes the unread bytes and
  returns the value with what is left, or \<^const>\<open>None\<close> once a read has put the stream into its failed
  state.  A reader of \<^verbatim>\<open>CWalleveIDataStream\<close> returns a \<open>ds_error\<close> for each exception the class
  throws and for the one read it makes without a bounds check.

  The locale \<open>codec\<close> is the contract of a serialisable type: loading what was saved returns the
  value and leaves the rest of the stream untouched, and \<^verbatim>\<open>GetSerializeSize\<close> predicts the number
  of bytes written.  Every serialisable class of the program is an interpretation of it.
\<close>

type_synonym 'a loader = "bytes \<Rightarrow> ('a \<times> bytes) option"

section \<open>Streams of fundamental types\<close>

definition Stream_Read :: "nat \<Rightarrow> bytes loader" where
  "Stream_Read n s = (if n \<le> length s then Some (take n s, drop n s) else None)"

definition sizeof_uint :: "'a::len word \<Rightarrow> nat" where
  "sizeof_uint (w :: 'a::len word) = LENGTH('a) div 8"

definition Save_uint :: "'a::len word \<Rightarrow> bytes" where
  "Save_uint w = le_bytes (sizeof_uint w) (unat w)"

definition Load_uint :: "'a::len word loader" where
  "Load_uint s = do {
     (b, r) \<leftarrow> Stream_Read (sizeof_uint (0 :: 'a word)) s;
     Some (word_of_nat (le_val b), r) }"

definition Save_int :: "nat \<Rightarrow> int \<Rightarrow> bytes" where
  "Save_int n x = le_bytes n (nat (x mod 2 ^ (8 * n)))"

definition Load_int :: "nat \<Rightarrow> int loader" where
  "Load_int n s = do {
     (b, r) \<leftarrow> Stream_Read n s;
     let v = int (le_val b);
     Some (if v < 2 ^ (8 * n - 1) then v else v - 2 ^ (8 * n), r) }"

section \<open>CVarInt\<close>

definition CVarInt_Save :: "uint64 \<Rightarrow> bytes" where
  "CVarInt_Save v =
     (if v < 0xFD then take 1 (Save_uint v)
      else if v \<le> 0xFFFF then take (1 + 2) (Save_uint (bit_or (push_bit 8 v) 0xFD))
      else if v \<le> 0xFFFFFFFF then take (1 + 4) (Save_uint (bit_or (push_bit 8 v) 0xFE))
      else Save_uint (0xFF :: uint8) @ Save_uint v)"

definition CVarInt_Load :: "uint64 loader" where
  "CVarInt_Load s = do {
     (b, r) \<leftarrow> Stream_Read 1 s;
     let v = le_val b;
     if v \<ge> 0xFD then do {
       (c, r') \<leftarrow> Stream_Read (2 * 2 ^ (v - 0xFD)) r;
       Some (word_of_nat (le_val c), r') }
     else Some (word_of_nat v, r) }"

definition CVarInt_Size :: "uint64 \<Rightarrow> nat" where
  "CVarInt_Size v =
     (if v < 0xFD then 1
      else if v \<le> 0xFFFF then 1 + 2
      else if v \<le> 0xFFFFFFFF then 1 + 4
      else 1 + 8)"

section \<open>Containers\<close>

definition Save_vector :: "('a \<Rightarrow> bytes) \<Rightarrow> 'a list \<Rightarrow> bytes" where
  "Save_vector sv xs = CVarInt_Save (word_of_nat (length xs)) @ concat (map sv xs)"

fun Load_n :: "'a loader \<Rightarrow> nat \<Rightarrow> 'a list loader" where
  "Load_n ld 0 s = Some ([], s)"
| "Load_n ld (Suc n) s = do {
     (x, s1) \<leftarrow> ld s;
     (xs, s2) \<leftarrow> Load_n ld n s1;
     Some (x # xs, s2) }"

definition Load_vector :: "'a loader \<Rightarrow> 'a list loader" where
  "Load_vector ld s = do {
     (v, r) \<leftarrow> CVarInt_Load s;
     Load_n ld (unat v) r }"

definition Size_vector :: "('a \<Rightarrow> nat) \<Rightarrow> 'a list \<Rightarrow> nat" where
  "Size_vector sz xs = CVarInt_Size (word_of_nat (length xs)) + sum_list (map sz xs)"

text \<open>A vector or string of bytes is written with one \<^verbatim>\<open>Write\<close> of its whole buffer.\<close>

definition Save_vch :: "bytes \<Rightarrow> bytes" where
  "Save_vch b = CVarInt_Save (word_of_nat (length b)) @ b"

definition Load_vch :: "bytes loader" where
  "Load_vch s = do {
     (v, r) \<leftarrow> CVarInt_Load s;
     Stream_Read (unat v) r }"

definition Size_vch :: "bytes \<Rightarrow> nat" where
  "Size_vch b = CVarInt_Size (word_of_nat (length b)) + length b"

definition Save_pair :: "('a \<Rightarrow> bytes) \<Rightarrow> ('b \<Rightarrow> bytes) \<Rightarrow> 'a \<times> 'b \<Rightarrow> bytes" where
  "Save_pair sa sb p = sa (fst p) @ sb (snd p)"

definition Load_pair :: "'a loader \<Rightarrow> 'b loader \<Rightarrow> ('a \<times> 'b) loader" where
  "Load_pair la lb s = do {
     (a, s1) \<leftarrow> la s;
     (b, s2) \<leftarrow> lb s1;
     Some ((a, b), s2) }"

definition Size_pair :: "('a \<Rightarrow> nat) \<Rightarrow> ('b \<Rightarrow> nat) \<Rightarrow> 'a \<times> 'b \<Rightarrow> nat" where
  "Size_pair za zb p = za (fst p) + zb (snd p)"

definition Save_map :: "('k \<Rightarrow> bytes) \<Rightarrow> ('v \<Rightarrow> bytes) \<Rightarrow> ('k, 'v) omap \<Rightarrow> bytes" where
  "Save_map sk sv m = Save_vector (Save_pair sk sv) m"

definition Load_map :: "'k::linorder loader \<Rightarrow> 'v loader \<Rightarrow> ('k, 'v) omap loader" where
  "Load_map lk lv s = do {
     (items, r) \<leftarrow> Load_vector (Load_pair lk lv) s;
     Some (fold (\<lambda>(k, v). om_ins k v) items [], r) }"

definition Size_map :: "('k \<Rightarrow> nat) \<Rightarrow> ('v \<Rightarrow> nat) \<Rightarrow> ('k, 'v) omap \<Rightarrow> nat" where
  "Size_map zk zv m = Size_vector (Size_pair zk zv) m"

section \<open>Data streams\<close>

text \<open>\<open>OutOfRange\<close> and \<open>DataConflict\<close> are the exceptions of \<^verbatim>\<open>CWalleveIDataStream\<close>;
  \<open>OutOfBounds\<close> marks a read beyond the buffer that the class does not check for.\<close>

datatype ds_error = OutOfRange | DataConflict | OutOfBounds

type_synonym 'a ds_reader = "bytes \<Rightarrow> ds_error + ('a \<times> bytes)"

definition IDS_Pop :: "nat \<Rightarrow> bytes ds_reader" where
  "IDS_Pop n s = (if n > length s then Inl OutOfRange else Inr (take n s, drop n s))"

definition IDS_uint :: "'a::len word ds_reader" where
  "IDS_uint s = ebind (IDS_Pop (sizeof_uint (0 :: 'a word)) s) (\<lambda>(b, r). Inr (word_of_nat (le_val b), r))"

definition ODS_vch :: "bytes \<Rightarrow> bytes" where
  "ODS_vch b = Save_uint (word_of_nat (length b) :: uint64) @ b"

definition IDS_vch :: "bytes ds_reader" where
  "IDS_vch s = ebind (IDS_uint s) (\<lambda>(n :: uint64, r).
     if unat n > length r then Inl OutOfBounds else Inr (take (unat n) r, drop (unat n) r))"

definition ODS_vector :: "('a \<Rightarrow> bytes) \<Rightarrow> 'a list \<Rightarrow> bytes" where
  "ODS_vector sv xs = Save_uint (word_of_nat (length xs) :: uint64) @ concat (map sv xs)"

fun IDS_n :: "'a ds_reader \<Rightarrow> nat \<Rightarrow> 'a list ds_reader" where
  "IDS_n ld 0 s = Inr ([], s)"
| "IDS_n ld (Suc n) s = ebind (ld s) (\<lambda>(x, r). ebind (IDS_n ld n r) (\<lambda>(xs, r'). Inr (x # xs, r')))"

definition IDS_vector :: "'a ds_reader \<Rightarrow> 'a list ds_reader" where
  "IDS_vector ld s = ebind (IDS_uint s) (\<lambda>(n :: uint64, r). IDS_n ld (unat n) r)"

text \<open>A map is preceded by its size in the map's own \<^verbatim>\<open>size_type\<close>, of \<open>cw\<close> bytes.\<close>

definition ODS_map :: "nat \<Rightarrow> ('k \<Rightarrow> bytes) \<Rightarrow> ('v \<Rightarrow> bytes) \<Rightarrow> ('k, 'v) omap \<Rightarrow> bytes" where
  "ODS_map cw sk sv m = le_bytes cw (length m) @ concat (map (\<lambda>(k, v). sk k @ sv v) m)"

fun IDS_map_n :: "'k::linorder ds_reader \<Rightarrow> 'v ds_reader \<Rightarrow> nat \<Rightarrow> ('k, 'v) omap \<Rightarrow> ('k, 'v) omap ds_reader" where
  "IDS_map_n lk lv 0 m s = Inr (m, s)"
| "IDS_map_n lk lv (Suc n) m s =
     ebind (lk s) (\<lambda>(k, r). ebind (lv r) (\<lambda>(v, r').
       if om_has m k then Inl DataConflict else IDS_map_n lk lv n (om_set k v m) r'))"

definition IDS_map :: "nat \<Rightarrow> 'k::linorder ds_reader \<Rightarrow> 'v ds_reader \<Rightarrow> ('k, 'v) omap ds_reader" where
  "IDS_map cw lk lv s = ebind (IDS_Pop cw s) (\<lambda>(b, r). IDS_map_n lk lv (le_val b) [] r)"

section \<open>The contract of a serialisable type\<close>

locale codec =
  fixes sv :: "'a \<Rightarrow> bytes"
    and ld :: "'a loader"
    and sz :: "'a \<Rightarrow> nat"
    and ok :: "'a \<Rightarrow> bool"
  assumes load_save: "ok x \<Longrightarrow> ld (sv x @ r) = Some (x, r)"
    and save_size: "ok x \<Longrightarrow> length (sv x) = sz x"
begin

lemma load_save_exact: "ok x \<Longrightarrow> ld (sv x) = Some (x, [])"
  using load_save [of x "[]"] by simp

lemma prefix_free: "ok x \<Longrightarrow> ok y \<Longrightarrow> sv x @ r = sv y @ s \<Longrightarrow> x = y \<and> r = s"
  by (metis load_save option.inject prod.inject)

lemma save_inj: "ok x \<Longrightarrow> ok y \<Longrightarrow> sv x = sv y \<longleftrightarrow> x = y"
  by (metis load_save_exact option.inject prod.inject)

lemma Load_n_save:
  "\<forall>x \<in> set xs. ok x \<Longrightarrow> Load_n ld (length xs) (concat (map sv xs) @ r) = Some (xs, r)"
  by (induction xs) (auto simp: load_save)

lemma concat_save_size:
  "\<forall>x \<in> set xs. ok x \<Longrightarrow> length (concat (map sv xs)) = sum_list (map sz xs)"
  by (induction xs) (auto simp: save_size)

end

section \<open>Fundamental types satisfy it\<close>

lemma Stream_Read_append [codec_simps]: "length b = n \<Longrightarrow> Stream_Read n (b @ r) = Some (b, r)"
  by (simp add: Stream_Read_def)

lemma length_Save_uint [size_simps]: "length (Save_uint (w :: 'a::len word)) = LENGTH('a) div 8"
  by (simp add: Save_uint_def sizeof_uint_def)

lemma Load_Save_uint:
  "LENGTH('a) mod 8 = 0 \<Longrightarrow> Load_uint (Save_uint (w :: 'a::len word) @ r) = Some (w, r)"
proof -
  assume m: "LENGTH('a) mod 8 = 0"
  then have "8 * (LENGTH('a) div 8) = LENGTH('a)" by auto
  then have "(256::nat) ^ (LENGTH('a) div 8) = 2 ^ LENGTH('a)" by (simp add: pow256)
  then show ?thesis
    by (simp add: Load_uint_def Save_uint_def sizeof_uint_def codec_simps)
qed

interpretation u8: codec Save_uint "Load_uint :: uint8 loader" "\<lambda>_. 1" "\<lambda>_. True"
  by unfold_locales (simp_all add: Load_Save_uint length_Save_uint)

interpretation u16: codec Save_uint "Load_uint :: uint16 loader" "\<lambda>_. 2" "\<lambda>_. True"
  by unfold_locales (simp_all add: Load_Save_uint length_Save_uint)

interpretation u32: codec Save_uint "Load_uint :: uint32 loader" "\<lambda>_. 4" "\<lambda>_. True"
  by unfold_locales (simp_all add: Load_Save_uint length_Save_uint)

interpretation u64: codec Save_uint "Load_uint :: uint64 loader" "\<lambda>_. 8" "\<lambda>_. True"
  by unfold_locales (simp_all add: Load_Save_uint length_Save_uint)

interpretation u256: codec Save_uint "Load_uint :: uint256 loader" "\<lambda>_. 32" "\<lambda>_. True"
  by unfold_locales (simp_all add: Load_Save_uint length_Save_uint)

lemma length_Save_int [size_simps]: "length (Save_int n x) = n"
  by (simp add: Save_int_def)

lemma Load_Save_int:
  "0 < n \<Longrightarrow> - (2 ^ (8 * n - 1)) \<le> x \<Longrightarrow> x < 2 ^ (8 * n - 1) \<Longrightarrow>
   Load_int n (Save_int n x @ r) = Some (x, r)"
proof -
  assume n: "0 < n" and lo: "- (2 ^ (8 * n - 1)) \<le> x" and hi: "x < 2 ^ (8 * n - 1)"
  have two: "(2::int) ^ (8 * n) = 2 * 2 ^ (8 * n - 1)"
    using n by (cases n) (simp_all add: power_add)
  have eq: "int (nat (x mod 2 ^ (8 * n)) mod 256 ^ n) = x mod 2 ^ (8 * n)"
  proof -
    have "x mod 2 ^ (8 * n) < 2 ^ (8 * n)" by simp
    then show ?thesis by (simp add: nat_less_iff pow256)
  qed
  have "x mod 2 ^ (8 * n) = (if 0 \<le> x then x else x + 2 ^ (8 * n))"
  proof (cases "0 \<le> x")
    case True with hi two show ?thesis by simp
  next
    case False
    have "(x + 2 ^ (8 * n)) mod 2 ^ (8 * n) = x + 2 ^ (8 * n)"
      using False lo two by (intro mod_pos_pos_trivial) simp_all
    with False show ?thesis by simp
  qed
  then have "(if x mod 2 ^ (8 * n) < 2 ^ (8 * n - 1) then x mod 2 ^ (8 * n)
              else x mod 2 ^ (8 * n) - 2 ^ (8 * n)) = x"
    using lo hi two by simp
  with eq show ?thesis
    by (simp only: Load_int_def Save_int_def Stream_Read_append length_le_bytes le_val_le_bytes
        Let_def bind.bind_lunit prod.case)
qed

interpretation i32: codec "Save_int 4" "Load_int 4" "\<lambda>_. 4" int32_range
  using Load_Save_int [of 4] by unfold_locales (simp_all add: length_Save_int int32_range_def)

interpretation i64: codec "Save_int 8" "Load_int 8" "\<lambda>_. 8" int64_range
  using Load_Save_int [of 8] by unfold_locales (simp_all add: length_Save_int int64_range_def)

section \<open>CVarInt satisfies it\<close>

text \<open>The compact-size format as the comment above \<^verbatim>\<open>class CVarInt\<close> documents it.\<close>

definition compact_size :: "nat \<Rightarrow> bytes" where
  "compact_size n =
     (if n < 253 then [word_of_nat n]
      else if n \<le> 0xFFFF then 253 # le_bytes 2 n
      else if n \<le> 0xFFFFFFFF then 254 # le_bytes 4 n
      else 255 # le_bytes 8 n)"

lemma take_shifted_marker:
  assumes "unat (v :: uint64) \<le> 0xFFFFFFFF" and "unat c < 256" and "k \<le> 7"
  shows "take (1 + k) (Save_uint (bit_or (push_bit 8 v) c)) = word_of_nat (unat c) # le_bytes k (unat v)"
proof -
  have "unat (bit_or (push_bit 8 v) c) = unat v * 2 ^ 8 + unat c"
    using assms by (intro unat_or_push_bit) simp_all
  moreover have "(unat v * 256 + unat c) div 256 = unat v" and "(unat v * 256 + unat c) mod 256 = unat c"
    using assms(2) by simp_all
  ultimately show ?thesis
    using assms(3) by (simp add: Save_uint_def sizeof_uint_def take_le_bytes)
qed

lemma CVarInt_Save_compact: "CVarInt_Save v = compact_size (unat v)"
proof -
  have n: "v < 0xFD \<longleftrightarrow> unat v < 253" "v \<le> 0xFFFF \<longleftrightarrow> unat v \<le> 0xFFFF"
    "v \<le> 0xFFFFFFFF \<longleftrightarrow> unat v \<le> 0xFFFFFFFF"
    by (simp_all add: word_less_nat_alt word_le_nat_alt)
  have one: "take 1 (Save_uint v) = [word_of_nat (unat v mod 256)]"
    by (simp add: Save_uint_def sizeof_uint_def take_le_bytes)
  have mark: "unat v \<le> 0xFFFF \<Longrightarrow> take (1 + 2) (Save_uint (bit_or (push_bit 8 v) 0xFD)) = 253 # le_bytes 2 (unat v)"
    "unat v \<le> 0xFFFFFFFF \<Longrightarrow> take (1 + 4) (Save_uint (bit_or (push_bit 8 v) 0xFE)) = 254 # le_bytes 4 (unat v)"
    using take_shifted_marker [of v "0xFD" 2] take_shifted_marker [of v "0xFE" 4] by simp_all
  have last: "Save_uint (0xFF :: uint8) @ Save_uint v = 255 # le_bytes 8 (unat v)"
    by (simp add: Save_uint_def sizeof_uint_def)
  show ?thesis
    unfolding CVarInt_Save_def compact_size_def n last one using mark by simp
qed

lemma CVarInt_Load_compact:
  "n < 2 ^ 64 \<Longrightarrow> CVarInt_Load (compact_size n @ r) = Some (word_of_nat n, r)"
proof -
  assume n: "n < 2 ^ 64"
  have b: "Stream_Read (Suc 0) (b # s) = Some ([b], s)" for b s
    by (simp add: Stream_Read_def)
  have m: "n \<le> 0xFFFF \<Longrightarrow> n mod 256 ^ 2 = n" "n \<le> 0xFFFFFFFF \<Longrightarrow> n mod 256 ^ 4 = n" by simp_all
  from n have m8: "n mod 256 ^ 8 = n" by simp
  show ?thesis
    using m m8 by (auto simp: CVarInt_Load_def compact_size_def b Let_def codec_simps unat_of_nat)
qed

lemma compact_size_length: "length (compact_size (unat v)) = CVarInt_Size v"
  by (simp add: compact_size_def CVarInt_Size_def word_less_nat_alt word_le_nat_alt)

interpretation varint: codec CVarInt_Save CVarInt_Load CVarInt_Size "\<lambda>_. True"
proof unfold_locales
  fix v :: uint64 and r
  have "unat v < 2 ^ 64" using unsigned_less [of v] by simp
  then show "CVarInt_Load (CVarInt_Save v @ r) = Some (v, r)"
    by (simp add: CVarInt_Save_compact CVarInt_Load_compact)
qed (simp add: CVarInt_Save_compact compact_size_length)

section \<open>Containers satisfy it\<close>

abbreviation vec_ok :: "('a \<Rightarrow> bool) \<Rightarrow> 'a list \<Rightarrow> bool" where
  "vec_ok ok xs \<equiv> length xs < 2 ^ 64 \<and> (\<forall>x \<in> set xs. ok x)"

lemma unat_count: "n < 2 ^ 64 \<Longrightarrow> unat (word_of_nat n :: uint64) = n"
  by (simp add: unat_of_nat)

context codec
begin

lemma vector: "codec (Save_vector sv) (Load_vector ld) (Size_vector sz) (vec_ok ok)"
proof unfold_locales
  fix xs :: "'a list" and r assume ok: "vec_ok ok xs"
  then show "Load_vector ld (Save_vector sv xs @ r) = Some (xs, r)"
    by (simp add: Load_vector_def Save_vector_def varint.load_save unat_count Load_n_save)
  from ok show "length (Save_vector sv xs) = Size_vector sz xs"
    by (simp add: Save_vector_def Size_vector_def varint.save_size concat_save_size)
qed

end

interpretation vch: codec Save_vch Load_vch Size_vch "\<lambda>b. length b < 2 ^ 64"
  by unfold_locales
    (simp_all add: Load_vch_def Save_vch_def Size_vch_def varint.load_save varint.save_size unat_count
      codec_simps)

locale codec_pair = a: codec sa la za oka + b: codec sb lb zb okb
  for sa :: "'a::linorder \<Rightarrow> bytes" and la za oka
  and sb :: "'b \<Rightarrow> bytes" and lb zb okb
begin

lemma pair: "codec (Save_pair sa sb) (Load_pair la lb) (Size_pair za zb) (\<lambda>p. oka (fst p) \<and> okb (snd p))"
  by unfold_locales
    (auto simp: Save_pair_def Load_pair_def Size_pair_def a.load_save b.load_save a.save_size b.save_size)

end

lemma om_append_last:
  "\<forall>q \<in> set m. fst q < fst p \<Longrightarrow> \<not> om_has m (fst p) \<and> om_set (fst p) (snd p) m = m @ [p]"
  by (induction m) (auto simp: om_has_def)

lemma fold_om_ins_sorted:
  "om_wf (m @ xs) \<Longrightarrow> fold (\<lambda>(k, v). om_ins k v) xs m = m @ xs"
proof (induction xs arbitrary: m)
  case (Cons p xs)
  have wf: "om_wf ((m @ [p]) @ xs)" using Cons.prems by simp
  have "\<forall>q \<in> set m. fst q < fst p"
    using Cons.prems by (auto simp: om_wf_def sorted_wrt_append)
  from om_append_last [OF this] have "om_ins (fst p) (snd p) m = m @ [p]"
    by (simp add: om_ins_def)
  then show ?case using Cons.IH [OF wf] by (simp add: case_prod_beta)
qed simp

context codec_pair
begin

lemma map: "codec (Save_map sa sb) (Load_map la lb) (Size_map za zb)
    (\<lambda>m. om_wf m \<and> vec_ok (\<lambda>p. oka (fst p) \<and> okb (snd p)) m)"
proof unfold_locales
  fix m :: "('a, 'b) omap" and r
  assume ok: "om_wf m \<and> vec_ok (\<lambda>p. oka (fst p) \<and> okb (snd p)) m"
  then show "Load_map la lb (Save_map sa sb m @ r) = Some (m, r)"
    using fold_om_ins_sorted [of "[]" m] codec.load_save [OF codec.vector [OF pair], of m r]
    by (simp add: Load_map_def Save_map_def)
  from ok show "length (Save_map sa sb m) = Size_map za zb m"
    using codec.save_size [OF codec.vector [OF pair], of m] by (simp add: Save_map_def Size_map_def)
qed

end

section \<open>The contract of a data-stream type\<close>

locale ds_codec =
  fixes osv :: "'a \<Rightarrow> bytes"
    and ild :: "'a ds_reader"
    and dok :: "'a \<Rightarrow> bool"
  assumes read_write: "dok x \<Longrightarrow> ild (osv x @ r) = Inr (x, r)"
begin

lemma write_prefix_free: "dok x \<Longrightarrow> dok y \<Longrightarrow> osv x @ r = osv y @ s \<Longrightarrow> x = y \<and> r = s"
  by (metis read_write sum.inject(2) prod.inject)

lemma IDS_n_write:
  "\<forall>x \<in> set xs. dok x \<Longrightarrow> IDS_n ild (length xs) (concat (map osv xs) @ r) = Inr (xs, r)"
  by (induction xs) (auto simp: read_write)

end

lemma IDS_Pop_append [codec_simps]: "length b = n \<Longrightarrow> IDS_Pop n (b @ r) = Inr (b, r)"
  by (simp add: IDS_Pop_def)

lemma IDS_uint_Load: "IDS_uint s = (case Load_uint s of None \<Rightarrow> Inl OutOfRange | Some p \<Rightarrow> Inr p)"
  by (simp add: IDS_uint_def IDS_Pop_def Load_uint_def Stream_Read_def)

interpretation ds8: ds_codec Save_uint "IDS_uint :: uint8 ds_reader" "\<lambda>_. True"
  by unfold_locales (simp add: IDS_uint_Load u8.load_save)

interpretation ds16: ds_codec Save_uint "IDS_uint :: uint16 ds_reader" "\<lambda>_. True"
  by unfold_locales (simp add: IDS_uint_Load u16.load_save)

interpretation ds32: ds_codec Save_uint "IDS_uint :: uint32 ds_reader" "\<lambda>_. True"
  by unfold_locales (simp add: IDS_uint_Load u32.load_save)

interpretation ds64: ds_codec Save_uint "IDS_uint :: uint64 ds_reader" "\<lambda>_. True"
  by unfold_locales (simp add: IDS_uint_Load u64.load_save)

interpretation ds256: ds_codec Save_uint "IDS_uint :: uint256 ds_reader" "\<lambda>_. True"
  by unfold_locales (simp add: IDS_uint_Load u256.load_save)

interpretation dsvch: ds_codec ODS_vch IDS_vch "\<lambda>b. length b < 2 ^ 64"
  by unfold_locales (simp add: IDS_vch_def ODS_vch_def ds64.read_write unat_count)

context ds_codec
begin

lemma ds_vector: "ds_codec (ODS_vector osv) (IDS_vector ild) (vec_ok dok)"
  by unfold_locales
    (simp add: IDS_vector_def ODS_vector_def ds64.read_write unat_count IDS_n_write)

end

locale ds_codec_pair = k: ds_codec sk lk okk + v: ds_codec sv lv okv
  for sk :: "'k::linorder \<Rightarrow> bytes" and lk okk
  and sv :: "'v \<Rightarrow> bytes" and lv okv
begin

lemma IDS_map_n_write:
  "om_wf (m @ xs) \<Longrightarrow> \<forall>p \<in> set xs. okk (fst p) \<and> okv (snd p) \<Longrightarrow>
   IDS_map_n lk lv (length xs) m (concat (map (\<lambda>(k, v). sk k @ sv v) xs) @ r) = Inr (m @ xs, r)"
proof (induction xs arbitrary: m)
  case (Cons p xs)
  have "om_wf ((m @ [p]) @ xs)" using Cons.prems by simp
  moreover have "\<not> om_has m (fst p)" "om_set (fst p) (snd p) m = m @ [p]"
    using om_append_last [of m p] Cons.prems(1) by (auto simp: om_wf_def sorted_wrt_append)
  ultimately show ?case
    using Cons.IH [of "m @ [p]"] Cons.prems(2)
    by (auto simp: case_prod_beta k.read_write v.read_write)
qed simp

lemma ds_map: "ds_codec (ODS_map cw sk sv) (IDS_map cw lk lv)
    (\<lambda>m. om_wf m \<and> length m < 256 ^ cw \<and> (\<forall>p \<in> set m. okk (fst p) \<and> okv (snd p)))"
proof unfold_locales
  fix m :: "('k, 'v) omap" and r
  assume "om_wf m \<and> length m < 256 ^ cw \<and> (\<forall>p \<in> set m. okk (fst p) \<and> okv (snd p))"
  then show "IDS_map cw lk lv (ODS_map cw sk sv m @ r) = Inr (m, r)"
    using IDS_map_n_write [of "[]" m r]
    by (simp add: IDS_map_def ODS_map_def codec_simps)
qed

end

section \<open>Properties\<close>

text \<open>A \<^verbatim>\<open>CVarInt\<close> is written in the documented compact-size format, in exactly as many bytes
  as \<^verbatim>\<open>GetSerializeSize\<close> announces, and reading it back returns the value and consumes nothing else.\<close>

theorem varint_roundtrip:
  "CVarInt_Load (CVarInt_Save v @ r) = Some (v, r)
   \<and> length (CVarInt_Save v) = CVarInt_Size v \<and> CVarInt_Save v = compact_size (unat v)"
  using varint.load_save [of v r] varint.save_size [of v] by (simp add: CVarInt_Save_compact)

text \<open>A byte vector read from a \<^verbatim>\<open>CWalleveIDataStream\<close> is copied from beyond the end of the
  buffer exactly when its 8-byte length field is larger than what follows it; \<^verbatim>\<open>out of range\<close> is
  only thrown when the length field itself is cut short.\<close>

theorem IDS_vch_errors:
  "(IDS_vch s = Inl OutOfBounds \<longleftrightarrow> 8 \<le> length s \<and> le_val (take 8 s) > length s - 8)
   \<and> (IDS_vch s = Inl OutOfRange \<longleftrightarrow> length s < 8)"
proof -
  have "le_val (take 8 s) < 2 ^ 64" if "8 \<le> length s"
    using le_val_bound [of "take 8 s"] that by simp
  then show ?thesis
    by (auto simp: IDS_vch_def IDS_uint_def IDS_Pop_def sizeof_uint_def unat_count)
qed

end
