(* ===== verification/Uint256.thy ===== *)
theory Uint256
  imports Serialize
begin

text \<open>
  Multi-limb unsigned integers, \<^verbatim>\<open>src/crypto/uint256.h\<close>, and the hexadecimal helpers of
  \<^verbatim>\<open>src/walleve/walleve/util.h\<close>.

  The class template \<^verbatim>\<open>base_uint<BITS>\<close> is modelled on its array \<^verbatim>\<open>pn\<close>: a list of 32-bit words,
  least significant first, of length \<^verbatim>\<open>WIDTH\<close>.  Each operator keeps the loop of the source.
  The lemmas show that every operator computes the machine arithmetic of a word of
  \<^verbatim>\<open>32 * WIDTH\<close> bits, which is why the rest of the development uses \<^typ>\<open>uint256\<close> directly.
\<close>

type_synonym limbs = "uint32 list"

section \<open>Operators of base\_uint\<close>

definition pn_is_zero :: "limbs \<Rightarrow> bool" where
  "pn_is_zero pn \<longleftrightarrow> list_all (\<lambda>x. x = 0) pn"

definition pn_not :: "limbs \<Rightarrow> limbs" where
  "pn_not pn = map Bit_Operations.not pn"

fun pn_inc :: "limbs \<Rightarrow> limbs" where
  "pn_inc [] = []"
| "pn_inc (x # xs) = (if x + 1 = 0 then (x + 1) # pn_inc xs else (x + 1) # xs)"

fun pn_dec :: "limbs \<Rightarrow> limbs" where
  "pn_dec [] = []"
| "pn_dec (x # xs) = (if x - 1 = - 1 then (x - 1) # pn_dec xs else (x - 1) # xs)"

definition pn_neg :: "limbs \<Rightarrow> limbs" where
  "pn_neg pn = pn_inc (pn_not pn)"

definition pn_set64 :: "nat \<Rightarrow> uint64 \<Rightarrow> limbs" where
  "pn_set64 W b = ucast b # ucast (drop_bit 32 b) # replicate (W - 2) 0"

definition pn_xor :: "limbs \<Rightarrow> limbs \<Rightarrow> limbs" where
  "pn_xor a b = map2 bit_xor a b"

definition pn_and :: "limbs \<Rightarrow> limbs \<Rightarrow> limbs" where
  "pn_and a b = map2 bit_and a b"

definition pn_or :: "limbs \<Rightarrow> limbs \<Rightarrow> limbs" where
  "pn_or a b = map2 bit_or a b"

definition pn_shl_step :: "limbs \<Rightarrow> nat \<Rightarrow> nat \<Rightarrow> nat \<Rightarrow> limbs \<Rightarrow> limbs" where
  "pn_shl_step a k s i pn =
     (let W = length a;
          pn1 = (if i + k + 1 < W \<and> s \<noteq> 0
                 then pn[i + k + 1 := bit_or (pn ! (i + k + 1)) (drop_bit (32 - s) (a ! i))] else pn)
      in if i + k < W then pn1[i + k := bit_or (pn1 ! (i + k)) (push_bit s (a ! i))] else pn1)"

definition pn_shl :: "limbs \<Rightarrow> nat \<Rightarrow> limbs" where
  "pn_shl a shift =
     fold (pn_shl_step a (shift div 32) (shift mod 32)) [0..<length a] (replicate (length a) 0)"

definition pn_shr_step :: "limbs \<Rightarrow> nat \<Rightarrow> nat \<Rightarrow> nat \<Rightarrow> limbs \<Rightarrow> limbs" where
  "pn_shr_step a k s i pn =
     (let pn1 = (if k + 1 \<le> i \<and> s \<noteq> 0
                 then pn[i - k - 1 := bit_or (pn ! (i - k - 1)) (push_bit (32 - s) (a ! i))] else pn)
      in if k \<le> i then pn1[i - k := bit_or (pn1 ! (i - k)) (drop_bit s (a ! i))] else pn1)"

definition pn_shr :: "limbs \<Rightarrow> nat \<Rightarrow> limbs" where
  "pn_shr a shift =
     fold (pn_shr_step a (shift div 32) (shift mod 32)) [0..<length a] (replicate (length a) 0)"

fun pn_add_carry :: "uint64 \<Rightarrow> limbs \<Rightarrow> limbs \<Rightarrow> limbs" where
  "pn_add_carry c (x # xs) (y # ys) =
     (let n = c + ucast x + ucast y in ucast (bit_and n 0xffffffff) # pn_add_carry (drop_bit 32 n) xs ys)"
| "pn_add_carry c _ _ = []"

definition pn_add :: "limbs \<Rightarrow> limbs \<Rightarrow> limbs" where
  "pn_add a b = pn_add_carry 0 a b"

definition pn_sub :: "limbs \<Rightarrow> limbs \<Rightarrow> limbs" where
  "pn_sub a b = pn_add a (pn_neg b)"

text \<open>The comparison loops run from the most significant limb; these take the limbs in that order.\<close>

fun msb_less :: "limbs \<Rightarrow> limbs \<Rightarrow> bool" where
  "msb_less (x # xs) (y # ys) = (if x < y then True else if x > y then False else msb_less xs ys)"
| "msb_less _ _ = False"

fun msb_less_eq :: "limbs \<Rightarrow> limbs \<Rightarrow> bool" where
  "msb_less_eq (x # xs) (y # ys) = (if x < y then True else if x > y then False else msb_less_eq xs ys)"
| "msb_less_eq _ _ = True"

definition pn_less :: "limbs \<Rightarrow> limbs \<Rightarrow> bool" where
  "pn_less a b = msb_less (rev a) (rev b)"

definition pn_less_eq :: "limbs \<Rightarrow> limbs \<Rightarrow> bool" where
  "pn_less_eq a b = msb_less_eq (rev a) (rev b)"

fun pn_equal :: "limbs \<Rightarrow> limbs \<Rightarrow> bool" where
  "pn_equal (x # xs) (y # ys) = (if x \<noteq> y then False else pn_equal xs ys)"
| "pn_equal _ _ = True"

fun pn_equal64 :: "limbs \<Rightarrow> uint64 \<Rightarrow> bool" where
  "pn_equal64 (x # y # zs) b =
     (if x \<noteq> ucast b then False else if y \<noteq> ucast (drop_bit 32 b) then False else list_all (\<lambda>z. z = 0) zs)"
| "pn_equal64 _ b = False"

definition pn_Get32 :: "limbs \<Rightarrow> nat \<Rightarrow> uint32" where
  "pn_Get32 pn n = pn ! n"

definition pn_Get64 :: "limbs \<Rightarrow> nat \<Rightarrow> uint64" where
  "pn_Get64 pn n = bit_or (ucast (pn ! (2 * n))) (push_bit 32 (ucast (pn ! (2 * n + 1))))"

text \<open>\<^verbatim>\<open>uint256(const uint32 h, const base_uint224& l)\<close>, with \<^verbatim>\<open>l\<close> taken from a 256-bit value.\<close>

definition pn_high_low :: "uint32 \<Rightarrow> limbs \<Rightarrow> limbs" where
  "pn_high_low h l = take 7 l @ [h]"

section \<open>Hexadecimal text\<close>

definition hexc :: "nat \<Rightarrow> char" where
  "hexc n = ''0123456789abcdef'' ! n"

definition hex_byte :: "uint8 \<Rightarrow> string" where
  "hex_byte b = [hexc (unat (drop_bit 4 b)), hexc (unat (bit_and b 15))]"

text \<open>\<^verbatim>\<open>ToHexString\<close> assembles the text in blocks of 64 bytes.\<close>

function ToHexString :: "bytes \<Rightarrow> string" where
  "ToHexString p = (if p = [] then [] else concat (map hex_byte (take 64 p)) @ ToHexString (drop 64 p))"
  by auto
termination
  by (relation "measure length") auto

declare ToHexString.simps [simp del]

definition CharToHex :: "char \<Rightarrow> int" where
  "CharToHex c =
     (let n = of_char c in
      if 48 \<le> n \<and> n \<le> 57 then n - 48
      else if 97 \<le> n \<and> n \<le> 102 then n - 97 + 10
      else if 65 \<le> n \<and> n \<le> 70 then n - 65 + 10
      else - 1)"

text \<open>The loop over a NUL-terminated string: an odd trailing digit meets the terminator, whose
  digit value is negative, and ends the loop.\<close>

fun ParseHexString :: "string \<Rightarrow> bytes" where
  "ParseHexString [] = []"
| "ParseHexString [c] = []"
| "ParseHexString (c # d # cs) =
     (if c = CHR 0x00 then []
      else if CharToHex c < 0 \<or> CharToHex d < 0 then []
      else bit_or (push_bit 4 (word_of_int (CharToHex c))) (word_of_int (CharToHex d)) # ParseHexString cs)"

text \<open>The overload with a destination of \<open>n\<close> bytes returns how many of them it wrote.\<close>

fun ParseHexString_n :: "string \<Rightarrow> nat \<Rightarrow> nat \<times> bytes" where
  "ParseHexString_n (c # d # cs) (Suc n) =
     (if c = CHR 0x00 then (0, [])
      else if CharToHex c < 0 \<or> CharToHex d < 0 then (0, [])
      else (let (k, bs) = ParseHexString_n cs n in
            (Suc k, bit_or (push_bit 4 (word_of_int (CharToHex c))) (word_of_int (CharToHex d)) # bs)))"
| "ParseHexString_n _ _ = (0, [])"

definition phexdigit :: "char \<Rightarrow> uint8" where
  "phexdigit c = (if 0 \<le> CharToHex c then word_of_int (CharToHex c) else 0)"

definition c_isspace :: "char \<Rightarrow> bool" where
  "c_isspace c \<longleftrightarrow> (of_char c :: nat) = 32 \<or> 9 \<le> (of_char c :: nat) \<and> (of_char c :: nat) \<le> 13"

definition GetHex :: "'a::len word \<Rightarrow> string" where
  "GetHex w = concat (map hex_byte (rev (Save_uint w)))"

fun skip_0x :: "string \<Rightarrow> string" where
  "skip_0x (a # b # cs) = (if a = CHR ''0'' \<and> (b = CHR ''x'' \<or> b = CHR ''X'') then cs else a # b # cs)"
| "skip_0x cs = cs"

text \<open>The loop of \<^verbatim>\<open>SetHex\<close> that fills the bytes of \<^verbatim>\<open>pn\<close> from the last digit backwards.\<close>

fun fill_hex :: "nat \<Rightarrow> string \<Rightarrow> bytes" where
  "fill_hex 0 ds = []"
| "fill_hex (Suc n) [] = 0 # fill_hex n []"
| "fill_hex (Suc n) [c] = phexdigit c # fill_hex n []"
| "fill_hex (Suc n) (c # d # ds) = bit_or (phexdigit c) (push_bit 4 (phexdigit d)) # fill_hex n ds"

definition SetHex :: "string \<Rightarrow> nat \<times> 'a::len word" where
  "SetHex str =
     (let psz = takeWhile (\<lambda>c. c \<noteq> CHR 0x00) str;
          p1 = skip_0x (dropWhile c_isspace psz);
          ds = takeWhile (\<lambda>c. phexdigit c \<noteq> 0 \<or> c = CHR ''0'') p1;
          len = length psz - length p1 + length ds
      in (len, word_of_nat (le_val (fill_hex (sizeof_uint (0 :: 'a word)) (rev ds)))))"

section \<open>The value of a limb array\<close>

fun pn_val :: "limbs \<Rightarrow> nat" where
  "pn_val [] = 0"
| "pn_val (x # xs) = unat x + 2 ^ 32 * pn_val xs"

lemma unat32: "unat (x :: uint32) < 2 ^ 32"
  using unsigned_less [of x] by simp

lemma pn_val_bound: "pn_val pn < 2 ^ (32 * length pn)"
proof (induction pn)
  case (Cons x xs)
  then have "pn_val xs + 1 \<le> 2 ^ (32 * length xs)" by simp
  then have "2 ^ 32 * (pn_val xs + 1) \<le> (2 ^ 32 * 2 ^ (32 * length xs) :: nat)"
    by (rule mult_le_mono2)
  moreover have "2 ^ (32 * length (x # xs)) = (2 ^ 32 * 2 ^ (32 * length xs) :: nat)"
    by (simp add: power_add)
  ultimately show ?case using unat32 [of x] by simp
qed simp

lemma limb_step: "(u :: nat) < 2 ^ 32 \<Longrightarrow> (u + 2 ^ 32 * v) div 2 ^ 32 = v \<and> (u + 2 ^ 32 * v) mod 2 ^ 32 = u"
  by simp

lemma pn_val_inj: "length a = length b \<Longrightarrow> pn_val a = pn_val b \<Longrightarrow> a = b"
proof (induction a b rule: list_induct2)
  case (Cons x xs y ys)
  then have "unat x = unat y \<and> pn_val xs = pn_val ys"
    using limb_step [OF unat32 [of x], of "pn_val xs"] limb_step [OF unat32 [of y], of "pn_val ys"]
    by (metis pn_val.simps(2))
  with Cons.IH show ?case by (simp add: word_unat_eq_iff)
qed simp

lemma mod_limbs: "((u :: nat) + 2 ^ 32 * v) mod 2 ^ (32 * Suc n) = u mod 2 ^ 32 + 2 ^ 32 * ((u div 2 ^ 32 + v) mod 2 ^ (32 * n))"
proof -
  have "(2 :: nat) ^ (32 * Suc n) = 2 ^ 32 * 2 ^ (32 * n)" by (simp add: power_add)
  moreover have "(u + 2 ^ 32 * v) div 2 ^ 32 = u div 2 ^ 32 + v" "(u + 2 ^ 32 * v) mod 2 ^ 32 = u mod 2 ^ 32"
    by simp_all
  ultimately show ?thesis by (simp only: mod_mult2_eq)
qed

section \<open>Arithmetic\<close>

lemma pn_add_carry_val:
  "length a = length b \<Longrightarrow> unat c \<le> 1 \<Longrightarrow>
   pn_val (pn_add_carry c a b) = (pn_val a + pn_val b + unat c) mod 2 ^ (32 * length a)"
proof (induction a b arbitrary: c rule: list_induct2)
  case (Cons x xs y ys)
  let ?n = "c + ucast x + ucast y" and ?u = "unat c + unat x + unat y"
  have u: "?u < 2 ^ 34" using Cons.prems unat32 [of x] unat32 [of y] by simp
  have "?n = word_of_nat ?u" by (simp add: unsigned_ucast_eq)
  then have n: "unat ?n = ?u" using u by (simp only: unat_of_nat take_bit_eq_mod) simp
  have lo: "unat (ucast (bit_and ?n 0xffffffff) :: uint32) = ?u mod 2 ^ 32"
  proof -
    have "bit_and ?n 0xffffffff = take_bit 32 ?n" by (simp add: take_bit_eq_mask mask_eq_exp_minus_1)
    then show ?thesis by (simp add: unsigned_ucast_eq take_bit_eq_mod unat_mod n)
  qed
  have hi: "unat (drop_bit 32 ?n) = ?u div 2 ^ 32"
    by (simp add: drop_bit_eq_div unat_div n)
  have "unat (drop_bit 32 ?n) \<le> 1"
    unfolding hi using Cons.prems unat32 [of x] unat32 [of y] by simp
  from Cons.IH [OF this] have "pn_val (pn_add_carry c (x # xs) (y # ys)) =
      ?u mod 2 ^ 32 + 2 ^ 32 * ((?u div 2 ^ 32 + (pn_val xs + pn_val ys)) mod 2 ^ (32 * length xs))"
    using lo hi by (simp add: Let_def add.commute)
  moreover have "pn_val (x # xs) + pn_val (y # ys) + unat c = ?u + 2 ^ 32 * (pn_val xs + pn_val ys)"
    by simp
  ultimately show ?case by (simp only: mod_limbs length_Cons)
qed simp

lemma length_pn_add_carry [simp]: "length (pn_add_carry c a b) = min (length a) (length b)"
  by (induction c a b rule: pn_add_carry.induct) (auto simp: Let_def)

lemma length_pn_inc [simp]: "length (pn_inc a) = length a"
  by (induction a) auto

lemma length_pn_not [simp]: "length (pn_not a) = length a"
  by (simp add: pn_not_def)

lemma pn_inc_val: "pn_val (pn_inc a) = (pn_val a + 1) mod 2 ^ (32 * length a)"
proof (induction a)
  case (Cons x xs)
  have split: "(pn_val (x # xs) + 1) mod 2 ^ (32 * length (x # xs)) =
      (unat x + 1) mod 2 ^ 32 + 2 ^ 32 * (((unat x + 1) div 2 ^ 32 + pn_val xs) mod 2 ^ (32 * length xs))"
    using mod_limbs [of "unat x + 1" "pn_val xs" "length xs"] by (simp add: algebra_simps)
  show ?case
  proof (cases "x + 1 = 0")
    case True
    then have "unat x + 1 = 2 ^ 32"
      by (simp add: add_eq_0_iff2 unsigned_minus_1_eq_mask mask_eq_exp_minus_1)
    with True Cons split show ?thesis by simp
  next
    case False
    then have "unat (x + 1) = unat x + 1" using unatSuc [of x] by (simp add: add.commute)
    moreover have "unat (x + 1) < 2 ^ 32" by (rule unat32)
    ultimately show ?thesis
      unfolding split using False pn_val_bound [of xs] by simp
  qed
qed simp

lemma pn_not_val: "pn_val (pn_not a) = 2 ^ (32 * length a) - 1 - pn_val a"
proof (induction a)
  case (Cons x xs)
  have "unat (Bit_Operations.not x) = 2 ^ 32 - 1 - unat x"
  proof -
    have "Bit_Operations.not x = - 1 - x" by (simp add: not_eq_complement)
    then show ?thesis by (simp only: unat_sub word_order.extremum) (simp add: unsigned_minus_1_eq_mask mask_eq_exp_minus_1)
  qed
  with Cons pn_val_bound [of xs] unat32 [of x] show ?case
    by (simp add: pn_not_def power_add)
qed (simp add: pn_not_def)

lemma length_pn_neg: "length (pn_neg a) = length a"
  by (simp add: pn_neg_def)

lemma pn_neg_val: "pn_val (pn_neg a) = (2 ^ (32 * length a) - pn_val a) mod 2 ^ (32 * length a)"
  using pn_val_bound [of a] by (simp add: pn_neg_def pn_inc_val pn_not_val Suc_diff_Suc)

section \<open>Comparison\<close>

lemma pn_val_snoc: "pn_val (xs @ [x]) = pn_val xs + 2 ^ (32 * length xs) * unat x"
  by (induction xs) (simp_all add: power_add algebra_simps)

lemma high_limb_less:
  "u < B \<Longrightarrow> v < B \<Longrightarrow> (x :: nat) < y \<Longrightarrow> u + B * x < v + B * (y :: nat)"
proof -
  assume "u < B" "x < y"
  then have "u + B * x < B * (x + 1)" "B * (x + 1) \<le> B * y"
    using mult_le_mono2 [of "x + 1" y B] by simp_all
  then show ?thesis by linarith
qed

lemma msb_less_val:
  "length a = length b \<Longrightarrow>
   (msb_less a b \<longleftrightarrow> pn_val (rev a) < pn_val (rev b)) \<and> (msb_less_eq a b \<longleftrightarrow> pn_val (rev a) \<le> pn_val (rev b))"
proof (induction a b rule: list_induct2)
  case (Cons x xs y ys)
  have bx: "pn_val (rev xs) < 2 ^ (32 * length xs)" and bY: "pn_val (rev ys) < 2 ^ (32 * length xs)"
    using pn_val_bound [of "rev xs"] pn_val_bound [of "rev ys"] Cons.hyps by simp_all
  consider "x < y" | "y < x" | "x = y" by fastforce
  then show ?case
  proof cases
    case 1
    with high_limb_less [OF bx bY, of "unat x" "unat y"] Cons.hyps show ?thesis
      by (simp add: pn_val_snoc word_less_nat_alt)
  next
    case 2
    with high_limb_less [OF bY bx, of "unat y" "unat x"] Cons.hyps show ?thesis
      by (simp add: pn_val_snoc word_less_nat_alt)
  next
    case 3
    with Cons show ?thesis by (simp add: pn_val_snoc)
  qed
qed simp

lemma pn_less_val: "length a = length b \<Longrightarrow> pn_less a b \<longleftrightarrow> pn_val a < pn_val b"
  using msb_less_val [of "rev a" "rev b"] by (simp add: pn_less_def)

lemma pn_less_eq_val: "length a = length b \<Longrightarrow> pn_less_eq a b \<longleftrightarrow> pn_val a \<le> pn_val b"
  using msb_less_val [of "rev a" "rev b"] by (simp add: pn_less_eq_def)

lemma pn_equal_iff: "length a = length b \<Longrightarrow> pn_equal a b \<longleftrightarrow> a = b"
  by (induction a b rule: list_induct2) auto

section \<open>Bits\<close>

lemma bit_pn_val:
  "bit (pn_val a) m \<longleftrightarrow> m div 32 < length a \<and> bit (a ! (m div 32)) (m mod 32)"
proof (induction a arbitrary: m)
  case (Cons x xs)
  have "unat x + push_bit 32 (pn_val xs) = Bit_Operations.or (unat x) (push_bit 32 (pn_val xs))"
    by (rule disjunctive_add) (auto simp: bit_unsigned_iff bit_push_bit_iff dest: bit_imp_le_length)
  then have "pn_val (x # xs) = Bit_Operations.or (unat x) (push_bit 32 (pn_val xs))"
    by (simp add: push_bit_eq_mult)
  then have b: "bit (pn_val (x # xs)) m \<longleftrightarrow> bit x m \<or> 32 \<le> m \<and> bit (pn_val xs) (m - 32)"
    by (simp add: bit_or_iff bit_unsigned_iff bit_push_bit_iff)
  show ?case
  proof (cases "m < 32")
    case True then show ?thesis unfolding b by simp
  next
    case False
    then have "m div 32 = Suc ((m - 32) div 32)" "m mod 32 = (m - 32) mod 32"
      by (simp_all add: le_div_geq le_mod_geq)
    with False Cons.IH [of "m - 32"] show ?thesis
      unfolding b by (auto dest: bit_imp_le_length)
  qed
qed simp

lemma shl_step_nth:
  assumes "length P = length a" and "j < length a"
  shows "pn_shl_step a k s n P ! j =
    (if j = n + k then bit_or (P ! j) (push_bit s (a ! n))
     else if j = n + k + 1 \<and> s \<noteq> 0 then bit_or (P ! j) (drop_bit (32 - s) (a ! n)) else P ! j)"
  using assms by (auto simp: pn_shl_step_def Let_def nth_list_update)

lemma length_shl_fold: "length (fold (pn_shl_step a k s) is P) = length P"
  by (induction "is" arbitrary: P) (auto simp: pn_shl_step_def Let_def)

lemma shl_loop:
  "j < length a \<Longrightarrow> fold (pn_shl_step a k s) [0..<n] (replicate (length a) 0) ! j =
     bit_or (if k \<le> j \<and> j < n + k then push_bit s (a ! (j - k)) else 0)
       (if k < j \<and> j \<le> n + k \<and> s \<noteq> 0 then drop_bit (32 - s) (a ! (j - k - 1)) else 0)"
proof (induction n)
  case (Suc n)
  define P where "P = fold (pn_shl_step a k s) [0..<n] (replicate (length a) 0)"
  have len: "length P = length a" by (simp add: P_def length_shl_fold)
  have step: "fold (pn_shl_step a k s) [0..<Suc n] (replicate (length a) 0) ! j = pn_shl_step a k s n P ! j"
    by (simp add: P_def)
  note IH = Suc.IH [folded P_def]
  consider "j = n + k" | "j = n + k + 1" | "j \<noteq> n + k \<and> j \<noteq> n + k + 1" by blast
  then show ?case
  proof cases
    case 1 with Suc.prems IH show ?thesis unfolding step by (auto simp: shl_step_nth len or.commute)
  next
    case 2 with Suc.prems IH show ?thesis unfolding step by (auto simp: shl_step_nth len)
  next
    case 3
    then have "j < Suc n + k \<longleftrightarrow> j < n + k" "j \<le> Suc n + k \<longleftrightarrow> j \<le> n + k" by auto
    with 3 Suc.prems IH show ?thesis unfolding step by (simp add: shl_step_nth len)
  qed
qed auto

lemma shr_step_nth:
  assumes "length P = length a" and "j < length a" and "n < length a"
  shows "pn_shr_step a k s n P ! j =
    (if n = j + k then bit_or (P ! j) (drop_bit s (a ! n))
     else if n = j + k + 1 \<and> s \<noteq> 0 then bit_or (P ! j) (push_bit (32 - s) (a ! n)) else P ! j)"
  using assms by (auto simp: pn_shr_step_def Let_def nth_list_update)

lemma length_shr_fold: "length (fold (pn_shr_step a k s) is P) = length P"
  by (induction "is" arbitrary: P) (auto simp: pn_shr_step_def Let_def)

lemma shr_loop:
  "j < length a \<Longrightarrow> n \<le> length a \<Longrightarrow> fold (pn_shr_step a k s) [0..<n] (replicate (length a) 0) ! j =
     bit_or (if j + k < n then drop_bit s (a ! (j + k)) else 0)
       (if j + k + 1 < n \<and> s \<noteq> 0 then push_bit (32 - s) (a ! (j + k + 1)) else 0)"
proof (induction n)
  case (Suc n)
  define P where "P = fold (pn_shr_step a k s) [0..<n] (replicate (length a) 0)"
  have len: "length P = length a" by (simp add: P_def length_shr_fold)
  have step: "fold (pn_shr_step a k s) [0..<Suc n] (replicate (length a) 0) ! j = pn_shr_step a k s n P ! j"
    by (simp add: P_def)
  note IH = Suc.IH [folded P_def]
  consider "n = j + k" | "n = j + k + 1" | "n \<noteq> j + k \<and> n \<noteq> j + k + 1" by blast
  then show ?case
  proof cases
    case 1 with Suc.prems IH show ?thesis unfolding step by (auto simp: shr_step_nth len or.commute)
  next
    case 2 with Suc.prems IH show ?thesis unfolding step by (auto simp: shr_step_nth len)
  next
    case 3
    then have "j + k < Suc n \<longleftrightarrow> j + k < n" "j + k + 1 < Suc n \<longleftrightarrow> j + k + 1 < n" by auto
    with 3 Suc.prems IH show ?thesis unfolding step by (simp add: shr_step_nth len)
  qed
qed auto

lemma limb_index: "n = 32 * q + r \<Longrightarrow> r < 32 \<Longrightarrow> n div 32 = q \<and> n mod 32 = (r :: nat)"
  by simp

lemma limb_carry: "n = 32 * q + r \<Longrightarrow> \<not> r < 32 \<Longrightarrow> n = 32 * (q + 1) + (r - 32 :: nat)"
  by simp

lemma limb_borrow:
  "m = 32 * j + t \<Longrightarrow> sh = 32 * k + s \<Longrightarrow> k < j \<Longrightarrow> t < s \<Longrightarrow> s < 32 \<Longrightarrow>
   m - sh = 32 * (j - k - 1) + (32 - s + t :: nat)"
proof -
  assume a: "m = 32 * j + t" "sh = 32 * k + s" "k < j" "t < s" "s < 32"
  from less_imp_Suc_add [OF a(3)] obtain d where "j = Suc (k + d)" ..
  with a show ?thesis by simp
qed

lemma bit_pn_shl:
  "bit (pn_val (pn_shl a sh)) m \<longleftrightarrow> m div 32 < length a \<and> sh \<le> m \<and> bit (pn_val a) (m - sh)"
proof (cases "m div 32 < length a")
  case True
  let ?j = "m div 32" and ?t = "m mod 32" and ?k = "sh div 32" and ?s = "sh mod 32"
  have lt: "?t < 32" "?s < 32" by simp_all
  have dec: "m = 32 * ?j + ?t" "sh = 32 * ?k + ?s" by simp_all
  have lhs: "bit (pn_val (pn_shl a sh)) m \<longleftrightarrow>
      (?k \<le> ?j \<and> ?s \<le> ?t \<and> bit (a ! (?j - ?k)) (?t - ?s)) \<or>
      (?k < ?j \<and> ?s \<noteq> 0 \<and> bit (a ! (?j - ?k - 1)) (32 - ?s + ?t))"
    using True lt by (auto simp: bit_pn_val pn_shl_def length_shl_fold shl_loop bit_or_iff
        bit_push_bit_iff bit_drop_bit_eq)
  show ?thesis
  proof (cases "?s \<le> ?t")
    case le: True
    have "sh \<le> m \<longleftrightarrow> ?k \<le> ?j" using dec le by (metis div_le_mono add_mono mult_le_mono2)
    moreover have "?k \<le> ?j \<Longrightarrow> (m - sh) div 32 = ?j - ?k \<and> (m - sh) mod 32 = ?t - ?s"
    proof -
      assume "?k \<le> ?j"
      then have "m - sh = 32 * (?j - ?k) + (?t - ?s)" using dec le by (simp add: algebra_simps)
      moreover have "?t - ?s < 32" using lt by simp
      ultimately show ?thesis by simp
    qed
    moreover have "\<not> bit (x :: uint32) (32 - ?s + ?t)" for x
      using le lt by (auto dest: bit_imp_le_length)
    ultimately show ?thesis unfolding lhs using le True by (auto simp: bit_pn_val)
  next
    case gt: False
    have "sh \<le> m \<longleftrightarrow> ?k < ?j" using dec gt lt by linarith
    moreover have "?k < ?j \<Longrightarrow> (m - sh) div 32 = ?j - ?k - 1 \<and> (m - sh) mod 32 = 32 - ?s + ?t"
    proof -
      assume "?k < ?j"
      then have "m - sh = 32 * (?j - ?k - 1) + (32 - ?s + ?t)" by (rule limb_borrow [OF dec]) (use gt lt in simp_all)
      moreover have "32 - ?s + ?t < 32" using gt lt by simp
      ultimately show ?thesis by (rule limb_index)
    qed
    ultimately show ?thesis unfolding lhs using gt True by (auto simp: bit_pn_val)
  qed
qed (simp add: bit_pn_val pn_shl_def length_shl_fold)

lemma bit_pn_shr: "bit (pn_val (pn_shr a sh)) m \<longleftrightarrow> bit (pn_val a) (m + sh)"
proof (cases "m div 32 < length a")
  case True
  let ?j = "m div 32" and ?t = "m mod 32" and ?k = "sh div 32" and ?s = "sh mod 32"
  have lt: "?t < 32" "?s < 32" by simp_all
  have dec: "m + sh = 32 * (?j + ?k) + (?t + ?s)" by simp
  have lhs: "bit (pn_val (pn_shr a sh)) m \<longleftrightarrow>
      (?j + ?k < length a \<and> bit (a ! (?j + ?k)) (?s + ?t)) \<or>
      (?j + ?k + 1 < length a \<and> ?s \<noteq> 0 \<and> 32 - ?s \<le> ?t \<and> bit (a ! (?j + ?k + 1)) (?t - (32 - ?s)))"
    using True lt by (auto simp: bit_pn_val pn_shr_def length_shr_fold shr_loop bit_or_iff
        bit_push_bit_iff bit_drop_bit_eq)
  show ?thesis
  proof (cases "?t + ?s < 32")
    case True
    then have "(m + sh) div 32 = ?j + ?k \<and> (m + sh) mod 32 = ?t + ?s"
      by (rule limb_index [OF dec])
    moreover have "\<not> 32 - ?s \<le> ?t" using True by linarith
    ultimately show ?thesis unfolding lhs by (auto simp: bit_pn_val add.commute)
  next
    case False
    have "m + sh = 32 * (?j + ?k + 1) + (?t + ?s - 32)" by (rule limb_carry [OF dec False])
    moreover have "?t + ?s - 32 < 32" using lt by simp
    ultimately have "(m + sh) div 32 = ?j + ?k + 1 \<and> (m + sh) mod 32 = ?t + ?s - 32"
      by (rule limb_index)
    moreover have "\<not> bit (x :: uint32) (?s + ?t)" for x
      using False lt by (auto dest: bit_imp_le_length)
    moreover have "?s \<noteq> 0" "32 - ?s \<le> ?t" "?t - (32 - ?s) = ?t + ?s - 32" using False lt by auto
    ultimately show ?thesis unfolding lhs by (simp add: bit_pn_val)
  qed
next
  case False
  then have "length a \<le> (m + sh) div 32" by (meson div_le_mono le_add1 le_trans not_le)
  with False show ?thesis by (simp add: bit_pn_val pn_shr_def length_shr_fold)
qed

section \<open>Refinement to machine words\<close>

definition pn_word :: "limbs \<Rightarrow> uint256" where
  "pn_word pn = word_of_nat (pn_val pn)"

lemma unat_pn_word: "length pn = 8 \<Longrightarrow> unat (pn_word pn) = pn_val pn"
  using pn_val_bound [of pn] by (simp add: pn_word_def unat_of_nat)

lemma word_of_nat_limbs: "word_of_nat (n mod 2 ^ (32 * 8)) = (word_of_nat n :: uint256)"
  by (simp add: word_of_nat_eq_iff take_bit_eq_mod)

lemma bit_pn_word_val: "length pn = 8 \<Longrightarrow> bit (pn_word pn) m \<longleftrightarrow> bit (pn_val pn) m"
  by (metis bit_unsigned_iff unat_pn_word possible_bit_nat)

lemma bit_pn_word: "length pn = 8 \<Longrightarrow> bit (pn_word pn) m \<longleftrightarrow> m < 256 \<and> bit (pn ! (m div 32)) (m mod 32)"
  by (auto simp: bit_pn_word_val bit_pn_val)

lemma pn_word_inc: "length a = 8 \<Longrightarrow> pn_word (pn_inc a) = pn_word a + 1"
  unfolding pn_word_def pn_inc_val by (simp only: word_of_nat_limbs of_nat_add of_nat_1)

lemma pn_word_not: "length a = 8 \<Longrightarrow> pn_word (pn_not a) = Bit_Operations.not (pn_word a)"
  by (rule bit_word_eqI) (simp add: bit_pn_word bit_not_iff pn_not_def)

lemma pn_word_neg: "length a = 8 \<Longrightarrow> pn_word (pn_neg a) = - pn_word a"
  by (simp add: pn_neg_def pn_word_inc pn_word_not minus_eq_not_plus_1)

lemma pn_word_add: "length a = 8 \<Longrightarrow> length b = 8 \<Longrightarrow> pn_word (pn_add a b) = pn_word a + pn_word b"
  unfolding pn_word_def pn_add_def
  by (simp only: pn_add_carry_val unat_0 le0 word_of_nat_limbs of_nat_add of_nat_0 add_0_right)

lemma pn_word_sub: "length a = 8 \<Longrightarrow> length b = 8 \<Longrightarrow> pn_word (pn_sub a b) = pn_word a - pn_word b"
  by (simp add: pn_sub_def pn_word_add pn_word_neg length_pn_neg)

lemma pn_word_dec: "length a = 8 \<Longrightarrow> pn_word (pn_dec a) = pn_word a - 1"
proof -
  assume len: "length a = 8"
  have inv: "pn_inc (pn_dec a) = a" for a
    by (induction a) auto
  have "length (pn_dec a) = length a" for a
    by (induction a) auto
  then have "pn_word (pn_inc (pn_dec a)) = pn_word (pn_dec a) + 1"
    using len by (intro pn_word_inc) simp
  then show ?thesis by (simp add: inv)
qed

lemma pn_word_bitwise:
  assumes "length a = 8" "length b = 8"
  shows "pn_word (pn_and a b) = bit_and (pn_word a) (pn_word b)"
    and "pn_word (pn_or a b) = bit_or (pn_word a) (pn_word b)"
    and "pn_word (pn_xor a b) = bit_xor (pn_word a) (pn_word b)"
proof -
  have idx: "m < 256 \<Longrightarrow> m div 32 < (8 :: nat)" for m by simp
  show "pn_word (pn_and a b) = bit_and (pn_word a) (pn_word b)"
    using assms idx by (intro bit_word_eqI) (simp add: bit_pn_word pn_and_def bit_and_iff)
  show "pn_word (pn_or a b) = bit_or (pn_word a) (pn_word b)"
    using assms idx by (intro bit_word_eqI) (simp add: bit_pn_word pn_or_def bit_or_iff)
  show "pn_word (pn_xor a b) = bit_xor (pn_word a) (pn_word b)"
    using assms idx by (intro bit_word_eqI) (simp add: bit_pn_word pn_xor_def bit_xor_iff)
qed

lemma length_pn_shift: "length (pn_shl a n) = length a" "length (pn_shr a n) = length a"
  by (simp_all add: pn_shl_def pn_shr_def length_shl_fold length_shr_fold)

lemma pn_word_shl: "length a = 8 \<Longrightarrow> pn_word (pn_shl a n) = push_bit n (pn_word a)"
  by (rule bit_word_eqI) (auto simp: bit_pn_word_val length_pn_shift bit_pn_shl bit_push_bit_iff)

lemma pn_word_shr: "length a = 8 \<Longrightarrow> pn_word (pn_shr a n) = drop_bit n (pn_word a)"
  by (rule bit_word_eqI)
    (simp add: bit_pn_word_val length_pn_shift bit_pn_shr bit_drop_bit_eq add.commute)

lemma pn_word_compare:
  assumes "length a = 8" "length b = 8"
  shows "pn_less a b \<longleftrightarrow> pn_word a < pn_word b" and "pn_less_eq a b \<longleftrightarrow> pn_word a \<le> pn_word b"
    and "pn_equal a b \<longleftrightarrow> pn_word a = pn_word b"
  using assms by (auto simp: pn_less_val pn_less_eq_val pn_equal_iff word_less_nat_alt word_le_nat_alt
      unat_pn_word word_unat_eq_iff intro: pn_val_inj)

text \<open>The constructor from a 32-bit high part and 224 low bits, on words.\<close>

definition uint256_high_low :: "uint32 \<Rightarrow> uint256 \<Rightarrow> uint256" where
  "uint256_high_low h l = bit_or (push_bit 224 (ucast h)) (take_bit 224 l)"

lemma bit_uint256_high_low:
  "bit (uint256_high_low h l) n \<longleftrightarrow> n < 256 \<and> (if n < 224 then bit l n else bit h (n - 224))"
  by (auto simp: uint256_high_low_def bit_or_iff bit_push_bit_iff bit_take_bit_iff bit_ucast_iff)

lemma pn_word_high_low: "length l = 8 \<Longrightarrow> pn_word (pn_high_low h l) = uint256_high_low h (pn_word l)"
proof (rule bit_word_eqI)
  fix n assume l: "length l = 8" and n: "n < LENGTH(256)"
  have len: "length (pn_high_low h l) = 8" using l by (simp add: pn_high_low_def)
  show "bit (pn_word (pn_high_low h l)) n = bit (uint256_high_low h (pn_word l)) n"
  proof (cases "n < 224")
    case True
    then have "n div 32 < 7" by simp
    with True n l show ?thesis
      unfolding bit_pn_word [OF len] bit_uint256_high_low bit_pn_word [OF l]
      by (simp add: pn_high_low_def nth_append)
  next
    case False
    then have "n div 32 = 7 \<and> n mod 32 = n - 224" using n by (intro limb_index) simp_all
    with False n l show ?thesis
      unfolding bit_pn_word [OF len] bit_uint256_high_low by (simp add: pn_high_low_def nth_append)
  qed
qed

lemma high_low_parts:
  "ucast (drop_bit 224 (uint256_high_low h l)) = h" "take_bit 224 (uint256_high_low h l) = take_bit 224 l"
  by (auto intro!: bit_word_eqI simp: bit_ucast_iff bit_drop_bit_eq bit_uint256_high_low bit_take_bit_iff)

section \<open>Hexadecimal round trips\<close>

lemma nibble_cases: "n < 16 \<Longrightarrow> n \<in> {0, 1, 2, 3, 4, 5, 6, 7, 8, 9, 10, 11, 12, 13, 14, 15 :: nat}"
  by (simp, presburger)

lemma CharToHex_hexc: "n < 16 \<Longrightarrow> CharToHex (hexc n) = int n"
  by (drule nibble_cases) (elim insertE emptyE; simp add: hexc_def CharToHex_def of_char_def)

lemma hexc_digit:
  "n < 16 \<Longrightarrow> hexc n \<noteq> CHR 0x00 \<and> \<not> c_isspace (hexc n) \<and> hexc n \<noteq> CHR ''x'' \<and> hexc n \<noteq> CHR ''X''
     \<and> (phexdigit (hexc n) \<noteq> 0 \<or> hexc n = CHR ''0'')"
  by (drule nibble_cases) (elim insertE emptyE; simp add: hexc_def CharToHex_def phexdigit_def c_isspace_def of_char_def)

lemma nibbles:
  fixes b :: uint8
  shows "unat (drop_bit 4 b) < 16" and "unat (bit_and b 15) < 16"
    and "bit_or (push_bit 4 (drop_bit 4 b)) (bit_and b 15) = b"
proof -
  have "unat b < 256" using unsigned_less [of b] by simp
  then show "unat (drop_bit 4 b) < 16" by (simp add: drop_bit_eq_div unat_div)
  show "unat (bit_and b 15) < 16"
  proof -
    have "bit_and b 15 = b mod 16"
      using take_bit_eq_mask [of 4 b] by (simp add: mask_eq_exp_minus_1 take_bit_eq_mod)
    then show ?thesis by (simp add: unat_mod)
  qed
  have "bit_and b 15 = take_bit 4 b"
    using take_bit_eq_mask [of 4 b] by (simp add: mask_eq_exp_minus_1)
  then show "bit_or (push_bit 4 (drop_bit 4 b)) (bit_and b 15) = b"
    by (auto intro!: bit_word_eqI simp: bit_or_iff bit_push_bit_iff bit_drop_bit_eq bit_take_bit_iff)
qed

lemma phexdigit_hexc: "n < 16 \<Longrightarrow> phexdigit (hexc n) = word_of_nat n"
  by (simp add: phexdigit_def CharToHex_hexc)

lemma ToHexString_concat: "ToHexString p = concat (map hex_byte p)"
proof (induction p rule: ToHexString.induct)
  case (1 p)
  show ?case
  proof (cases "p = []")
    case False
    have "ToHexString p = concat (map hex_byte (take 64 p @ drop 64 p))"
      using 1 [OF False] False by (subst ToHexString.simps) (simp del: append_take_drop_id)
    then show ?thesis by simp
  qed (simp add: ToHexString.simps)
qed

lemma ParseHexString_hex_byte: "ParseHexString (hex_byte b @ cs) = b # ParseHexString cs"
  using nibbles [of b] by (simp add: hex_byte_def CharToHex_hexc hexc_digit)

lemma ParseHexString_ToHexString: "ParseHexString (ToHexString p) = p"
  unfolding ToHexString_concat by (induction p) (simp_all add: ParseHexString_hex_byte)

lemma ParseHexString_n_prefix:
  "ParseHexString_n cs n = (min n (length (ParseHexString cs)), take n (ParseHexString cs))"
  by (induction cs n rule: ParseHexString_n.induct) (auto simp: Let_def)

lemma fill_hex_rev_hex:
  "fill_hex (length bs) (rev (concat (map hex_byte (rev bs)))) = bs"
proof (induction bs)
  case (Cons b bs)
  have "rev (hex_byte b) = [hexc (unat (bit_and b 15)), hexc (unat (drop_bit 4 b))]"
    by (simp add: hex_byte_def)
  with Cons nibbles [of b] show ?case
    by (simp add: phexdigit_hexc or.commute)
qed simp

lemma hex_chars: "c \<in> set (concat (map hex_byte bs)) \<Longrightarrow> \<exists>n < 16. c = hexc n"
  using nibbles by (auto simp: hex_byte_def)

lemma skip_0x_hex: "skip_0x (concat (map hex_byte bs)) = concat (map hex_byte bs)"
proof (cases bs)
  case (Cons b bs')
  have "hexc (unat (bit_and b 15)) \<noteq> CHR ''x''" "hexc (unat (bit_and b 15)) \<noteq> CHR ''X''"
    using hexc_digit [OF nibbles(2) [of b]] by simp_all
  then show ?thesis by (simp add: Cons hex_byte_def)
qed simp

lemma SetHex_hex:
  "SetHex (concat (map hex_byte (rev bs))) =
     (2 * length bs, word_of_nat (le_val (fill_hex (sizeof_uint (0 :: 'a word)) (rev (concat (map hex_byte (rev bs)))))) :: 'a::len word)"
proof -
  let ?t = "concat (map hex_byte (rev bs))"
  have digit: "c \<noteq> CHR 0x00 \<and> \<not> c_isspace c \<and> (phexdigit c \<noteq> 0 \<or> c = CHR ''0'')" if "c \<in> set ?t" for c
  proof -
    from hex_chars [OF that] obtain n where "n < 16" "c = hexc n" by blast
    with hexc_digit [of n] show ?thesis by simp
  qed
  have "takeWhile (\<lambda>c. c \<noteq> CHR 0x00) ?t = ?t" "dropWhile c_isspace ?t = ?t"
    "takeWhile (\<lambda>c. phexdigit c \<noteq> 0 \<or> c = CHR ''0'') ?t = ?t"
    unfolding takeWhile_eq_all_conv dropWhile_eq_self_iff using digit hd_in_set [of ?t] by blast+
  moreover have "length ?t = 2 * length bs"
    by (induction bs) (simp_all add: hex_byte_def)
  ultimately show ?thesis
    unfolding SetHex_def Let_def by (simp only: skip_0x_hex diff_self_eq_0 add_0)
qed

lemma SetHex_GetHex:
  "LENGTH('a) mod 8 = 0 \<Longrightarrow> SetHex (GetHex (w :: 'a::len word)) = (LENGTH('a) div 4, w)"
proof -
  assume m: "LENGTH('a) mod 8 = 0"
  have "fill_hex (sizeof_uint w) (rev (concat (map hex_byte (rev (Save_uint w))))) = Save_uint w"
    using fill_hex_rev_hex [of "Save_uint w"] by (simp add: length_Save_uint sizeof_uint_def)
  moreover have "word_of_nat (le_val (Save_uint w)) = w"
    using Load_Save_uint [OF m, of w "[]"] by (auto simp: Load_uint_def Stream_Read_def length_Save_uint sizeof_uint_def)
  moreover have "2 * (LENGTH('a) div 8) = LENGTH('a) div 4"
    using m by presburger
  ultimately show ?thesis
    unfolding GetHex_def SetHex_hex by (simp add: length_Save_uint sizeof_uint_def)
qed

section \<open>Properties\<close>

text \<open>Property C19: on eight limbs the loops of \<^verbatim>\<open>base_uint\<close> compute the operations of 256-bit words:
  addition, subtraction, negation, increment, decrement, complement, and, or, exclusive or, both
  shifts for every distance, and the three comparisons.\<close>

theorem base_uint_refines_word:
  assumes "length a = 8" and "length b = 8"
  shows "pn_word (pn_add a b) = pn_word a + pn_word b
    \<and> pn_word (pn_sub a b) = pn_word a - pn_word b
    \<and> pn_word (pn_neg a) = - pn_word a
    \<and> pn_word (pn_inc a) = pn_word a + 1
    \<and> pn_word (pn_dec a) = pn_word a - 1
    \<and> pn_word (pn_not a) = Bit_Operations.not (pn_word a)
    \<and> pn_word (pn_and a b) = bit_and (pn_word a) (pn_word b)
    \<and> pn_word (pn_or a b) = bit_or (pn_word a) (pn_word b)
    \<and> pn_word (pn_xor a b) = bit_xor (pn_word a) (pn_word b)
    \<and> pn_word (pn_shl a n) = push_bit n (pn_word a)
    \<and> pn_word (pn_shr a n) = drop_bit n (pn_word a)
    \<and> (pn_less a b \<longleftrightarrow> pn_word a < pn_word b)
    \<and> (pn_less_eq a b \<longleftrightarrow> pn_word a \<le> pn_word b)
    \<and> (pn_equal a b \<longleftrightarrow> pn_word a = pn_word b)"
  using assms by (intro conjI) (simp_all add: pn_word_add pn_word_sub pn_word_neg pn_word_inc pn_word_dec
      pn_word_not pn_word_bitwise pn_word_shl pn_word_shr pn_word_compare)

theorem base_uint_refines_word_witness:
  "length (replicate 8 (0xFFFFFFFF :: uint32)) = 8 \<and> length (1 # replicate 7 (0 :: uint32)) = 8
   \<and> pn_word (pn_add (replicate 8 0xFFFFFFFF) (1 # replicate 7 0)) =
       pn_word (replicate 8 0xFFFFFFFF) + pn_word (1 # replicate 7 0)
   \<and> pn_word (pn_shl (1 # replicate 7 0) 200) = push_bit 200 (pn_word (1 # replicate 7 0))"
  using base_uint_refines_word [of "replicate 8 0xFFFFFFFF" "1 # replicate 7 0"]
    base_uint_refines_word [of "1 # replicate 7 0" "1 # replicate 7 0" 200]
  by simp

text \<open>The hexadecimal text of a 256-bit number has 64 digits and reads back as the number.\<close>

theorem uint256_hex_roundtrip: "SetHex (GetHex (w :: uint256)) = (64, w)"
  using SetHex_GetHex [of w] by simp

end
