(* ===== verification/Base32.thy ===== *)
theory Base32
  imports Uint256
begin

text \<open>
  Address text: the checksum \<^verbatim>\<open>crc24q\<close> (\<^verbatim>\<open>src/crypto/crc24q.cpp\<close>) and the Base32 coding of a 32-byte
  value with its checksum (\<^verbatim>\<open>src/crypto/base32.cpp\<close>).

  The checksum is modelled on 32-bit words with the table of the source.  The lemmas show that it
  is the bitwise division by the CRC-24Q generator, that it is linear, that appending it makes the
  total zero, and that it detects every error confined to three consecutive bytes.  The Base32
  coder works on \<^verbatim>\<open>int\<close> expressions, modelled as 32-bit words with arithmetic right shift.
\<close>

section \<open>crc24q\<close>

definition crc24q_table :: "uint32 list" where
  "crc24q_table = [
    0x00000000, 0x01864CFB, 0x028AD50D, 0x030C99F6, 0x0493E6E1, 0x0515AA1A, 0x061933EC, 0x079F7F17,
    0x08A18139, 0x0927CDC2, 0x0A2B5434, 0x0BAD18CF, 0x0C3267D8, 0x0DB42B23, 0x0EB8B2D5, 0x0F3EFE2E,
    0x10C54E89, 0x11430272, 0x124F9B84, 0x13C9D77F, 0x1456A868, 0x15D0E493, 0x16DC7D65, 0x175A319E,
    0x1864CFB0, 0x19E2834B, 0x1AEE1ABD, 0x1B685646, 0x1CF72951, 0x1D7165AA, 0x1E7DFC5C, 0x1FFBB0A7,
    0x200CD1E9, 0x218A9D12, 0x228604E4, 0x2300481F, 0x249F3708, 0x25197BF3, 0x2615E205, 0x2793AEFE,
    0x28AD50D0, 0x292B1C2B, 0x2A2785DD, 0x2BA1C926, 0x2C3EB631, 0x2DB8FACA, 0x2EB4633C, 0x2F322FC7,
    0x30C99F60, 0x314FD39B, 0x32434A6D, 0x33C50696, 0x345A7981, 0x35DC357A, 0x36D0AC8C, 0x3756E077,
    0x38681E59, 0x39EE52A2, 0x3AE2CB54, 0x3B6487AF, 0x3CFBF8B8, 0x3D7DB443, 0x3E712DB5, 0x3FF7614E,
    0x4019A3D2, 0x419FEF29, 0x429376DF, 0x43153A24, 0x448A4533, 0x450C09C8, 0x4600903E, 0x4786DCC5,
    0x48B822EB, 0x493E6E10, 0x4A32F7E6, 0x4BB4BB1D, 0x4C2BC40A, 0x4DAD88F1, 0x4EA11107, 0x4F275DFC,
    0x50DCED5B, 0x515AA1A0, 0x52563856, 0x53D074AD, 0x544F0BBA, 0x55C94741, 0x56C5DEB7, 0x5743924C,
    0x587D6C62, 0x59FB2099, 0x5AF7B96F, 0x5B71F594, 0x5CEE8A83, 0x5D68C678, 0x5E645F8E, 0x5FE21375,
    0x6015723B, 0x61933EC0, 0x629FA736, 0x6319EBCD, 0x648694DA, 0x6500D821, 0x660C41D7, 0x678A0D2C,
    0x68B4F302, 0x6932BFF9, 0x6A3E260F, 0x6BB86AF4, 0x6C2715E3, 0x6DA15918, 0x6EADC0EE, 0x6F2B8C15,
    0x70D03CB2, 0x71567049, 0x725AE9BF, 0x73DCA544, 0x7443DA53, 0x75C596A8, 0x76C90F5E, 0x774F43A5,
    0x7871BD8B, 0x79F7F170, 0x7AFB6886, 0x7B7D247D, 0x7CE25B6A, 0x7D641791, 0x7E688E67, 0x7FEEC29C,
    0x803347A4, 0x81B50B5F, 0x82B992A9, 0x833FDE52, 0x84A0A145, 0x8526EDBE, 0x862A7448, 0x87AC38B3,
    0x8892C69D, 0x89148A66, 0x8A181390, 0x8B9E5F6B, 0x8C01207C, 0x8D876C87, 0x8E8BF571, 0x8F0DB98A,
    0x90F6092D, 0x917045D6, 0x927CDC20, 0x93FA90DB, 0x9465EFCC, 0x95E3A337, 0x96EF3AC1, 0x9769763A,
    0x98578814, 0x99D1C4EF, 0x9ADD5D19, 0x9B5B11E2, 0x9CC46EF5, 0x9D42220E, 0x9E4EBBF8, 0x9FC8F703,
    0xA03F964D, 0xA1B9DAB6, 0xA2B54340, 0xA3330FBB, 0xA4AC70AC, 0xA52A3C57, 0xA626A5A1, 0xA7A0E95A,
    0xA89E1774, 0xA9185B8F, 0xAA14C279, 0xAB928E82, 0xAC0DF195, 0xAD8BBD6E, 0xAE872498, 0xAF016863,
    0xB0FAD8C4, 0xB17C943F, 0xB2700DC9, 0xB3F64132, 0xB4693E25, 0xB5EF72DE, 0xB6E3EB28, 0xB765A7D3,
    0xB85B59FD, 0xB9DD1506, 0xBAD18CF0, 0xBB57C00B, 0xBCC8BF1C, 0xBD4EF3E7, 0xBE426A11, 0xBFC426EA,
    0xC02AE476, 0xC1ACA88D, 0xC2A0317B, 0xC3267D80, 0xC4B90297, 0xC53F4E6C, 0xC633D79A, 0xC7B59B61,
    0xC88B654F, 0xC90D29B4, 0xCA01B042, 0xCB87FCB9, 0xCC1883AE, 0xCD9ECF55, 0xCE9256A3, 0xCF141A58,
    0xD0EFAAFF, 0xD169E604, 0xD2657FF2, 0xD3E33309, 0xD47C4C1E, 0xD5FA00E5, 0xD6F69913, 0xD770D5E8,
    0xD84E2BC6, 0xD9C8673D, 0xDAC4FECB, 0xDB42B230, 0xDCDDCD27, 0xDD5B81DC, 0xDE57182A, 0xDFD154D1,
    0xE026359F, 0xE1A07964, 0xE2ACE092, 0xE32AAC69, 0xE4B5D37E, 0xE5339F85, 0xE63F0673, 0xE7B94A88,
    0xE887B4A6, 0xE901F85D, 0xEA0D61AB, 0xEB8B2D50, 0xEC145247, 0xED921EBC, 0xEE9E874A, 0xEF18CBB1,
    0xF0E37B16, 0xF16537ED, 0xF269AE1B, 0xF3EFE2E0, 0xF4709DF7, 0xF5F6D10C, 0xF6FA48FA, 0xF77C0401,
    0xF842FA2F, 0xF9C4B6D4, 0xFAC82F22, 0xFB4E63D9, 0xFCD11CCE, 0xFD575035, 0xFE5BC9C3, 0xFFDD8538]"

definition crc24q_step :: "uint8 \<Rightarrow> uint32 \<Rightarrow> uint32" where
  "crc24q_step d crc =
     bit_xor (push_bit 8 crc)
       (crc24q_table ! unat (bit_xor (ucast d) (bit_and 0xFF (drop_bit 16 crc)) :: uint32))"

definition crc24q :: "bytes \<Rightarrow> uint32" where
  "crc24q data = bit_and (fold crc24q_step data 0) 0x00ffffff"

section \<open>Base32\<close>

definition alphabet :: string where
  "alphabet = ''0123456789abcdefghjkmnpqrstvwxyz''"

definition Base32Encode5Bytes :: "uint8 \<Rightarrow> uint8 \<Rightarrow> uint8 \<Rightarrow> uint8 \<Rightarrow> uint8 \<Rightarrow> string" where
  "Base32Encode5Bytes m0 m1 m2 m3 m4 =
     (let md0 = ucast m0 :: uint32; md1 = ucast m1 :: uint32; md2 = ucast m2 :: uint32;
          md3 = ucast m3 :: uint32; md4 = ucast m4 :: uint32
      in map (\<lambda>i. alphabet ! unat i)
        [bit_and (drop_bit 3 md0) 0x1F,
         bit_or (bit_and (push_bit 2 md0) 0x1C) (bit_and (drop_bit 6 md1) 0x03),
         bit_and (drop_bit 1 md1) 0x1F,
         bit_or (bit_and (push_bit 4 md1) 0x10) (bit_and (drop_bit 4 md2) 0x0F),
         bit_or (bit_and (push_bit 1 md2) 0x1E) (bit_and (drop_bit 7 md3) 0x01),
         bit_and (drop_bit 2 md3) 0x1F,
         bit_or (bit_and (push_bit 3 md3) 0x18) (bit_and (drop_bit 5 md4) 0x07),
         bit_and md4 0x1F])"

fun encode_blocks :: "bytes \<Rightarrow> string" where
  "encode_blocks (a # b # c # d # e # bs) = Base32Encode5Bytes a b c d e @ encode_blocks bs"
| "encode_blocks _ = []"

definition Base32Encode :: "bytes \<Rightarrow> string" where
  "Base32Encode md32 =
     (let crc = crc24q md32
      in encode_blocks (take 30 md32) @
         Base32Encode5Bytes (md32 ! 30) (md32 ! 31) (ucast (drop_bit 16 crc)) (ucast (drop_bit 8 crc)) (ucast crc))"

text \<open>The decoding table, indexed with a \<^verbatim>\<open>char\<close> that the target treats as signed: codes from 128
  on read before the table, here \<^const>\<open>None\<close>.\<close>

definition digit_table :: "int list" where
  "digit_table =
     replicate 48 (- 1) @ [0, 1, 2, 3, 4, 5, 6, 7, 8, 9] @ replicate 7 (- 1) @
     [10, 11, 12, 13, 14, 15, 16, 17, - 1, 18, 19, - 1, 20, 21, - 1, 22, 23, 24, 25, 26, - 1, 27, 28, 29, 30, 31] @
     replicate 6 (- 1) @
     [10, 11, 12, 13, 14, 15, 16, 17, - 1, 18, 19, - 1, 20, 21, - 1, 22, 23, 24, 25, 26, - 1, 27, 28, 29, 30, 31] @
     replicate 133 (- 1)"

definition base32_digit :: "char \<Rightarrow> uint32 option" where
  "base32_digit c =
     (let n = of_char c in if n < (128 :: nat) then Some (word_of_int (digit_table ! n)) else None)"

datatype base32_error = B32_Rejected | B32_OutOfBounds

fun unpack_digits :: "uint32 list \<Rightarrow> bytes" where
  "unpack_digits [i0, i1, i2, i3, i4, i5, i6, i7] =
     [ucast (bit_or (bit_and (push_bit 3 i0) 0xF8) (bit_and (signed_drop_bit 2 i1) 0x07)),
      ucast (bit_or (bit_or (bit_and (push_bit 6 i1) 0xC0) (bit_and (push_bit 1 i2) 0x3E)) (bit_and (signed_drop_bit 4 i3) 0x01)),
      ucast (bit_or (bit_and (push_bit 4 i3) 0xF0) (bit_and (signed_drop_bit 1 i4) 0x0F)),
      ucast (bit_or (bit_or (bit_and (push_bit 7 i4) 0x80) (bit_and (push_bit 2 i5) 0x7C)) (bit_and (signed_drop_bit 3 i6) 0x03)),
      ucast (bit_or (bit_and (push_bit 5 i6) 0xE0) (bit_and i7 0x1F))]"
| "unpack_digits _ = []"

definition Base32Decode5Bytes :: "string \<Rightarrow> base32_error + bytes" where
  "Base32Decode5Bytes psz =
     (case those (map base32_digit psz) of
        None \<Rightarrow> Inl B32_OutOfBounds
      | Some idx \<Rightarrow>
          let sum = fold (\<lambda>i s. bit_and s i) idx (0 :: uint32)
          in if signed_drop_bit 7 sum = 0 then Inr (unpack_digits idx) else Inl B32_Rejected)"

fun decode_blocks :: "nat \<Rightarrow> string \<Rightarrow> base32_error + bytes" where
  "decode_blocks 0 cs = Inr []"
| "decode_blocks (Suc n) cs =
     ebind (Base32Decode5Bytes (take 8 cs)) (\<lambda>b. ebind (decode_blocks n (drop 8 cs)) (\<lambda>bs. Inr (b @ bs)))"

definition Base32Decode :: "string \<Rightarrow> base32_error + bytes" where
  "Base32Decode strBase32 =
     (if length strBase32 \<noteq> 56 then Inl B32_Rejected
      else ebind (decode_blocks 7 strBase32) (\<lambda>data.
        if crc24q data \<noteq> 0 then Inl B32_Rejected else Inr (take 32 data)))"

section \<open>Bitwise reference of the checksum\<close>

text \<open>One step of long division by the generator \<^verbatim>\<open>0x1864CFB\<close> on a 24-bit remainder.\<close>

definition crc_shift :: "uint32 \<Rightarrow> uint32" where
  "crc_shift r =
     (let s = push_bit 1 r in if bit s 24 then bit_xor s 0x1864CFB else s)"

definition crc_byte :: "uint8 \<Rightarrow> uint32 \<Rightarrow> uint32" where
  "crc_byte d r = (crc_shift ^^ 8) (bit_xor r (push_bit 16 (ucast d)))"

definition crc24q_bitwise :: "bytes \<Rightarrow> uint32" where
  "crc24q_bitwise data = fold crc_byte data 0"

abbreviation low24 :: "uint32 \<Rightarrow> uint32" where
  "low24 r \<equiv> bit_and r 0xffffff"

text \<open>The table, row by row: entry \<open>2 i\<close> is the shifted entry \<open>i\<close>, entry \<open>2 i + 1\<close> adds the generator.\<close>

lemma crc24q_table_rows:
  "map low24 crc24q_table =
   concat (map (\<lambda>x. let u = crc_shift (low24 x) in [u, bit_xor u 0x864CFB]) (take 128 crc24q_table))"
  by (simp add: crc24q_table_def crc_shift_def)

lemma crc24q_table_length: "length crc24q_table = 256"
  by (simp add: crc24q_table_def)

lemma crc24q_table_0: "crc24q_table ! 0 = 0"
  by (simp add: crc24q_table_def)

lemma concat_pairs_nth:
  "k < length xs \<Longrightarrow> concat (map (\<lambda>x. [f x, g x]) xs) ! (2 * k) = f (xs ! k) \<and>
     concat (map (\<lambda>x. [f x, g x]) xs) ! (2 * k + 1) = g (xs ! k)"
proof (induction xs arbitrary: k)
  case (Cons x xs)
  then show ?case by (cases k) auto
qed simp

lemma crc24q_table_double:
  assumes "k < 128"
  shows "low24 (crc24q_table ! (2 * k)) = crc_shift (low24 (crc24q_table ! k))"
    and "low24 (crc24q_table ! (2 * k + 1)) = bit_xor (crc_shift (low24 (crc24q_table ! k))) 0x864CFB"
proof -
  have "map low24 crc24q_table ! (2 * k) = crc_shift (low24 (crc24q_table ! k)) \<and>
      map low24 crc24q_table ! (2 * k + 1) = bit_xor (crc_shift (low24 (crc24q_table ! k))) 0x864CFB"
    unfolding crc24q_table_rows Let_def
    using concat_pairs_nth [of k "take 128 crc24q_table" "\<lambda>x. crc_shift (low24 x)" "\<lambda>x. bit_xor (crc_shift (low24 x)) 0x864CFB"] assms
    by (simp add: crc24q_table_length)
  with assms show "low24 (crc24q_table ! (2 * k)) = crc_shift (low24 (crc24q_table ! k))"
    and "low24 (crc24q_table ! (2 * k + 1)) = bit_xor (crc_shift (low24 (crc24q_table ! k))) 0x864CFB"
    by (simp_all add: crc24q_table_length)
qed

section \<open>Linearity and injectivity of the division step\<close>

lemma crc_shift_xor: "crc_shift (bit_xor a b) = bit_xor (crc_shift a) (crc_shift b)"
  by (auto simp: crc_shift_def Let_def bit_xor_iff xor.assoc xor.left_commute xor.commute)

lemma crc_shift_0 [simp]: "crc_shift 0 = 0"
  by (simp add: crc_shift_def)

lemma crc_shifts_xor: "(crc_shift ^^ n) (bit_xor a b) = bit_xor ((crc_shift ^^ n) a) ((crc_shift ^^ n) b)"
  by (induction n) (simp_all add: crc_shift_xor)

lemma crc_shifts_0 [simp]: "(crc_shift ^^ n) 0 = 0"
  by (induction n) simp_all

definition in24 :: "uint32 \<Rightarrow> bool" where
  "in24 r \<longleftrightarrow> (\<forall>n \<ge> 24. \<not> bit r n)"

lemma bit_times_2: "bit (r * 2 :: uint32) n \<longleftrightarrow> 0 < n \<and> n < 32 \<and> bit r (n - 1)"
  using bit_push_bit_iff [of 1 r n] by (simp add: Suc_le_eq)

lemma generator_bits: "24 \<le> n \<Longrightarrow> bit (0x1864CFB :: uint32) n \<longleftrightarrow> n = 24"
  using bit_word_lt [of "0x1864CFB :: uint32" 25 n] by (cases "n = 24") auto

lemma in24_shift: "in24 r \<Longrightarrow> in24 (crc_shift r)"
proof -
  assume r: "in24 r"
  have "\<not> bit (crc_shift r) n" if n: "24 \<le> n" for n
  proof (cases "n = 24")
    case True
    then show ?thesis using generator_bits [of 24] by (auto simp: crc_shift_def Let_def bit_xor_iff)
  next
    case False
    with n have "\<not> bit (push_bit 1 r) n" using r by (simp add: in24_def bit_times_2)
    with False n show ?thesis using generator_bits [of n] by (simp add: crc_shift_def Let_def bit_xor_iff)
  qed
  then show ?thesis by (simp add: in24_def)
qed

lemma in24_shifts: "in24 r \<Longrightarrow> in24 ((crc_shift ^^ n) r)"
  by (induction n) (auto intro: in24_shift)

lemma crc_shift_nonzero: "in24 r \<Longrightarrow> crc_shift r = 0 \<Longrightarrow> r = 0"
proof -
  assume r: "in24 r" and z: "crc_shift r = 0"
  have "\<not> bit (push_bit 1 r) 24"
  proof
    assume "bit (push_bit 1 r) 24"
    with z have "bit_xor (push_bit 1 r) 0x1864CFB = 0" by (simp add: crc_shift_def)
    then have "bit (bit_xor (push_bit 1 r) 0x1864CFB) 0 = False" by simp
    then show False by (simp add: bit_xor_iff bit_times_2)
  qed
  with z have "push_bit 1 r = 0" by (simp add: crc_shift_def)
  then have "\<not> bit r n" for n
  proof -
    assume "push_bit 1 r = 0"
    then have "\<not> bit (push_bit 1 r) (Suc n)" by simp
    then show ?thesis using r by (cases "n < 24") (auto simp: bit_times_2 in24_def)
  qed
  then show ?thesis by (simp add: bit_eq_iff)
qed

lemma crc_shifts_nonzero: "in24 r \<Longrightarrow> (crc_shift ^^ n) r = 0 \<Longrightarrow> r = 0"
  by (induction n) (auto dest: crc_shift_nonzero [OF in24_shifts])

lemma crc_shifts_low:
  "n \<le> 24 \<Longrightarrow> \<forall>m \<ge> 24 - n. \<not> bit r m \<Longrightarrow> (crc_shift ^^ n) r = push_bit n r"
proof (induction n)
  case (Suc n)
  then have IH: "(crc_shift ^^ n) r = push_bit n r" by simp
  have "\<not> bit (push_bit 1 (push_bit n r)) 24"
    using Suc.prems by (auto simp: bit_times_2 bit_push_bit_iff)
  then have "crc_shift (push_bit n r) = push_bit 1 (push_bit n r)"
    by (simp add: crc_shift_def)
  then show ?case by (simp add: IH)
qed simp

section \<open>The table computes the division\<close>

lemma bit_low24: "bit (low24 r) n \<longleftrightarrow> n < 24 \<and> bit r n"
proof -
  have "low24 r = take_bit 24 r" unfolding take_bit_eq_mask mask_eq_exp_minus_1 by simp
  then show ?thesis by (simp only: bit_take_bit_iff)
qed

lemma bit_low8: "bit (bit_and 0xFF r :: uint32) n \<longleftrightarrow> n < 8 \<and> bit r n"
proof -
  have "bit_and 0xFF r = take_bit 8 r"
    unfolding take_bit_eq_mask mask_eq_exp_minus_1 by (simp add: and.commute)
  then show ?thesis by (simp only: bit_take_bit_iff)
qed

lemma in24_low24: "in24 (low24 r)"
  unfolding in24_def bit_low24 by simp

lemma crc24q_table_entry:
  "i < 256 \<Longrightarrow> low24 (crc24q_table ! i) = (crc_shift ^^ 8) (push_bit 16 (word_of_nat i))"
proof (induction i rule: less_induct)
  case (less i)
  show ?case
  proof (cases "i = 0")
    case True then show ?thesis by (simp add: crc24q_table_0)
  next
    case False
    define k where "k = i div 2"
    have k: "k < i" "k < 128" using False less.prems by (auto simp: k_def)
    have w: "unat (word_of_nat k :: uint32) < 2 ^ 7" using k by (simp add: unat_of_nat)
    have "\<not> bit (push_bit 1 (push_bit 16 (word_of_nat k :: uint32))) 24"
      using bit_word_lt [OF w, of 7] by (auto simp: bit_push_bit_iff)
    then have double: "push_bit 16 (word_of_nat (2 * k)) = crc_shift (push_bit 16 (word_of_nat k))"
      by (simp add: crc_shift_def push_bit_eq_mult)
    have even: "low24 (crc24q_table ! (2 * k)) = (crc_shift ^^ 8) (push_bit 16 (word_of_nat (2 * k)))"
      using less.IH [OF k(1)] k crc24q_table_double(1) [OF k(2)]
      by (simp only: double funpow_swap1)
    have one: "(crc_shift ^^ 8) (push_bit 16 1) = 0x864CFB"
      by (simp add: crc_shift_def numeral_eq_Suc)
    have "i = 2 * k \<or> i = 2 * k + 1" unfolding k_def by presburger
    then consider "i = 2 * k" | "i = 2 * k + 1" by blast
    then show ?thesis
    proof cases
      case 1 with even show ?thesis by simp
    next
      case 2
      have "word_of_nat (2 * k + 1) = bit_xor (word_of_nat (2 * k)) (1 :: uint32)"
        by (simp add: xor_one_eq)
      then show ?thesis
        using 2 even one crc24q_table_double [OF k(2)]
        by (simp add: crc_shifts_xor)
    qed
  qed
qed

lemma crc24q_step_low24: "low24 (crc24q_step d s) = crc_byte d (low24 s)"
proof -
  define i where "i = bit_xor (ucast d) (bit_and 0xFF (drop_bit 16 s))"
  have bits: "bit i n \<longleftrightarrow> n < 8 \<and> (bit d n \<noteq> bit s (16 + n))" for n
    unfolding i_def bit_xor_iff bit_low8 by (auto simp: bit_ucast_iff bit_drop_bit_eq dest: bit_imp_le_length)
  have "unat i < 2 ^ 8"
  proof -
    have "i = take_bit 8 i" by (rule bit_word_eqI) (auto simp: bit_take_bit_iff bits)
    then have "unat i = unat i mod 2 ^ 8" by (metis unsigned_take_bit_eq take_bit_eq_mod)
    then show ?thesis by (metis mod_less_divisor zero_less_numeral zero_less_power)
  qed
  then have entry: "low24 (crc24q_table ! unat i) = (crc_shift ^^ 8) (push_bit 16 i)"
    using crc24q_table_entry [of "unat i"] by simp
  have split: "bit_xor (low24 s) (push_bit 16 (ucast d)) = bit_xor (take_bit 16 s) (push_bit 16 i)"
    by (rule bit_word_eqI)
      (auto simp: bit_xor_iff bit_low24 bit_push_bit_iff bit_take_bit_iff bits bit_ucast_iff
        dest: bit_imp_le_length)
  have low: "(crc_shift ^^ 8) (take_bit 16 s) = push_bit 8 (take_bit 16 s)"
    by (rule crc_shifts_low) (auto simp: bit_take_bit_iff)
  have shifted: "low24 (push_bit 8 s) = push_bit 8 (take_bit 16 s)"
    by (rule bit_word_eqI) (auto simp: bit_low24 bit_push_bit_iff bit_take_bit_iff)
  have dist: "low24 (bit_xor x y) = bit_xor (low24 x) (low24 y)" for x y
    by (rule bit_word_eqI) (auto simp: bit_low24 bit_xor_iff)
  show ?thesis
    unfolding crc24q_step_def crc_byte_def split crc_shifts_xor low dist shifted
    by (simp only: entry [folded i_def] i_def [symmetric])
qed

lemma low24_fold: "low24 (fold crc24q_step data s) = fold crc_byte data (low24 s)"
  by (induction data arbitrary: s) (simp_all add: crc24q_step_low24)

lemma crc24q_is_bitwise: "crc24q data = crc24q_bitwise data"
  using low24_fold [of data 0] by (simp add: crc24q_def crc24q_bitwise_def)

section \<open>Checksum laws\<close>

lemma crc_byte_xor:
  "crc_byte (bit_xor d e) (bit_xor r q) = bit_xor (crc_byte d r) (crc_byte e q)"
proof -
  have "push_bit 16 (ucast (bit_xor d e) :: uint32) = bit_xor (push_bit 16 (ucast d)) (push_bit 16 (ucast e))"
    by (rule bit_word_eqI) (auto simp: bit_xor_iff bit_push_bit_iff bit_ucast_iff)
  then show ?thesis
    unfolding crc_byte_def crc_shifts_xor [symmetric] by (simp only: xor.assoc xor.left_commute xor.commute)
qed

lemma fold_crc_byte_xor:
  "length a = length b \<Longrightarrow>
   fold crc_byte (map2 bit_xor a b) (bit_xor r q) = bit_xor (fold crc_byte a r) (fold crc_byte b q)"
  by (induction a b arbitrary: r q rule: list_induct2) (simp_all add: crc_byte_xor)

lemma in24_byte: "in24 (push_bit 16 (ucast (d :: uint8)))"
  unfolding in24_def by (auto simp: bit_push_bit_iff bit_ucast_iff dest: bit_imp_le_length)

lemma in24_xor: "in24 a \<Longrightarrow> in24 b \<Longrightarrow> in24 (bit_xor a b)"
  by (auto simp: in24_def bit_xor_iff)

lemma in24_crc_byte: "in24 r \<Longrightarrow> in24 (crc_byte d r)"
  unfolding crc_byte_def by (intro in24_shifts in24_xor in24_byte)

lemma in24_fold_crc_byte: "in24 r \<Longrightarrow> in24 (fold crc_byte data r)"
  by (induction data arbitrary: r) (auto intro: in24_crc_byte)

lemma fold_crc_byte_zeros: "in24 r \<Longrightarrow> fold crc_byte (replicate n 0) r = 0 \<Longrightarrow> r = 0"
proof (induction n arbitrary: r)
  case (Suc n)
  then have "crc_byte 0 r = 0" using in24_crc_byte by simp
  then show ?case using Suc.prems(1) crc_shifts_nonzero [of r 8] by (simp add: crc_byte_def)
qed simp

text \<open>An error pattern in three consecutive bytes leaves a remainder that no following bytes
  cancel.\<close>

lemma crc_three_bytes:
  "fold crc_byte [d, e, f] 0 =
     (crc_shift ^^ 24) (bit_xor (push_bit 16 (ucast d)) (bit_xor (push_bit 8 (ucast e)) (ucast f)))"
proof -
  have split: "(crc_shift ^^ 24) x = (crc_shift ^^ 8) ((crc_shift ^^ 8) ((crc_shift ^^ 8) x))" for x
  proof -
    have "(24 :: nat) = 8 + 8 + 8" by simp
    then show ?thesis by (simp only: funpow_add comp_apply)
  qed
  have e: "(crc_shift ^^ 8) (push_bit 8 (ucast e)) = push_bit 16 (ucast e)"
    by (subst crc_shifts_low) (auto simp: bit_push_bit_iff bit_ucast_iff dest: bit_imp_le_length)
  have f: "(crc_shift ^^ 8) ((crc_shift ^^ 8) (ucast f)) = push_bit 16 (ucast f)"
  proof -
    have "\<forall>m \<ge> 24 - 16. \<not> bit (ucast f :: uint32) m"
      by (auto simp: bit_ucast_iff dest: bit_imp_le_length)
    from crc_shifts_low [OF _ this] show ?thesis using funpow_add [of 8 8 crc_shift] by simp
  qed
  show ?thesis
    unfolding split crc_shifts_xor e f
    by (simp add: crc_byte_def crc_shifts_xor xor.assoc xor.left_commute xor.commute)
qed

lemma crc_burst_nonzero:
  assumes "\<not> (d = 0 \<and> e = 0 \<and> f = 0)"
  shows "fold crc_byte ([d, e, f] @ replicate n 0) 0 \<noteq> 0"
proof
  let ?x = "bit_xor (push_bit 16 (ucast d)) (bit_xor (push_bit 8 (ucast e)) (ucast f)) :: uint32"
  assume z: "fold crc_byte ([d, e, f] @ replicate n 0) 0 = 0"
  have bit_x: "bit ?x m \<longleftrightarrow> (if m < 8 then bit f m else if m < 16 then bit e (m - 8) else m < 24 \<and> bit d (m - 16))" for m
    by (auto simp: bit_xor_iff bit_push_bit_iff bit_ucast_iff dest: bit_imp_le_length)
  have x: "in24 ?x" by (simp add: in24_def bit_x)
  have "fold crc_byte [d, e, f] 0 = 0"
    by (rule fold_crc_byte_zeros [of _ n]) (use z in24_fold_crc_byte [of 0 "[d, e, f]"] in \<open>simp_all add: in24_def\<close>)
  then have zero: "?x = 0"
    using crc_shifts_nonzero [OF x, of 24] crc_three_bytes by simp
  have "d = 0 \<and> e = 0 \<and> f = 0"
  proof (intro conjI bit_word_eqI)
    fix m assume m: "m < LENGTH(8)"
    show "bit d m \<longleftrightarrow> bit 0 m" using bit_x [of "m + 16"] m unfolding zero by simp
    show "bit e m \<longleftrightarrow> bit 0 m" using bit_x [of "m + 8"] m unfolding zero by simp
    show "bit f m \<longleftrightarrow> bit 0 m" using bit_x [of m] m unfolding zero by simp
  qed
  with assms show False by simp
qed

lemma crc24q_append_zero:
  "crc24q (m @ [ucast (drop_bit 16 (crc24q m)), ucast (drop_bit 8 (crc24q m)), ucast (crc24q m)]) = 0"
proof -
  define r where "r = crc24q m"
  define t where "t = [ucast (drop_bit 16 r), ucast (drop_bit 8 r), ucast r :: uint8]"
  have r24: "in24 r" unfolding r_def crc24q_def by (rule in24_low24)
  have "bit_xor (push_bit 16 (ucast (ucast (drop_bit 16 r) :: uint8)))
      (bit_xor (push_bit 8 (ucast (ucast (drop_bit 8 r) :: uint8))) (ucast (ucast r :: uint8)) :: uint32) = r"
  proof (rule bit_word_eqI)
    fix n assume n: "n < LENGTH(32)"
    show "bit (bit_xor (push_bit 16 (ucast (ucast (drop_bit 16 r) :: uint8)))
      (bit_xor (push_bit 8 (ucast (ucast (drop_bit 8 r) :: uint8))) (ucast (ucast r :: uint8)) :: uint32)) n \<longleftrightarrow> bit r n"
      using r24 n by (cases "n < 24")
        (auto simp: in24_def bit_xor_iff bit_push_bit_iff bit_ucast_iff bit_drop_bit_eq not_less)
  qed
  then have t: "fold crc_byte t 0 = (crc_shift ^^ 24) r"
    using crc_three_bytes [of "ucast (drop_bit 16 r)" "ucast (drop_bit 8 r)" "ucast r"] by (simp add: t_def)
  have zero: "fold crc_byte [0, 0, 0] r = (crc_shift ^^ 24) r"
  proof -
    have "(24 :: nat) = 8 + 8 + 8" by simp
    then show ?thesis by (simp only: funpow_add comp_apply) (simp add: crc_byte_def)
  qed
  have "fold crc_byte t r = bit_xor (fold crc_byte t 0) (fold crc_byte [0, 0, 0] r)"
    using fold_crc_byte_xor [of t "[0, 0, 0]" 0 r] by (simp add: t_def)
  then have "fold crc_byte t r = 0" using t zero by simp
  then have "crc24q (m @ t) = 0"
    unfolding crc24q_is_bitwise crc24q_bitwise_def fold_append comp_apply
    by (simp add: r_def crc24q_is_bitwise crc24q_bitwise_def)
  then show ?thesis by (simp only: t_def r_def)
qed

lemma xor_zero_eq: "bit_xor a b = 0 \<Longrightarrow> a = (b :: uint8)"
  by (rule bit_word_eqI) (auto simp: bit_eq_iff bit_xor_iff)

text \<open>Two messages of equal length that differ, and only within a window of three bytes, have
  different checksums.\<close>

lemma crc24q_detects_burst:
  assumes len: "length x = 3" "length y = 3" and diff: "x \<noteq> y"
  shows "crc24q (p @ x @ s) \<noteq> crc24q (p @ y @ s)"
proof
  assume eq: "crc24q (p @ x @ s) = crc24q (p @ y @ s)"
  obtain d e f where xy: "map2 bit_xor x y = [d, e, f]"
    using len by (auto simp: numeral_eq_Suc length_Suc_conv)
  have ne: "\<not> (d = 0 \<and> e = 0 \<and> f = 0)"
  proof
    assume "d = 0 \<and> e = 0 \<and> f = 0"
    with xy len have "x = y"
      by (auto simp: numeral_eq_Suc length_Suc_conv dest: xor_zero_eq)
    with diff show False ..
  qed
  have same: "map2 bit_xor zs zs = replicate (length zs) 0" for zs :: bytes
    by (induction zs) simp_all
  have "map2 bit_xor (p @ x @ s) (p @ y @ s) = replicate (length p) 0 @ [d, e, f] @ replicate (length s) 0"
    using len xy by (simp add: same)
  moreover have "fold crc_byte (replicate n 0) 0 = 0" for n
    by (induction n) (simp_all add: crc_byte_def)
  ultimately have "fold crc_byte ([d, e, f] @ replicate (length s) 0) 0 =
      bit_xor (crc24q (p @ x @ s)) (crc24q (p @ y @ s))"
    using fold_crc_byte_xor [of "p @ x @ s" "p @ y @ s" 0 0] len
    by (simp add: crc24q_is_bitwise crc24q_bitwise_def)
  with eq crc_burst_nonzero [OF ne, of "length s"] show False by simp
qed

section \<open>Base32 round trip\<close>

lemma alphabet_digits:
  "list_all (\<lambda>n. base32_digit (alphabet ! n) = Some (word_of_nat n)) [0..<32]"
  by code_simp

lemma base32_digit_alphabet: "unat i < 32 \<Longrightarrow> base32_digit (alphabet ! unat i) = Some (i :: uint32)"
  using alphabet_digits by (auto simp: list_all_iff)

lemma sum_zero: "fold (\<lambda>i s. bit_and s i) idx (0 :: uint32) = 0"
  by (induction idx) simp_all

lemma Base32Decode5Bytes_digits:
  "Base32Decode5Bytes psz =
     (case those (map base32_digit psz) of None \<Rightarrow> Inl B32_OutOfBounds | Some idx \<Rightarrow> Inr (unpack_digits idx))"
  by (simp add: Base32Decode5Bytes_def sum_zero split: option.splits)

lemma le_31: "unat (bit_and x 0x1F :: uint32) < 32"
proof -
  have "bit_and x 0x1F = take_bit 5 x" unfolding take_bit_eq_mask mask_eq_exp_minus_1 by simp
  then show ?thesis by (simp add: take_bit_eq_mod unat_mod)
qed

definition pack_digits :: "uint8 \<Rightarrow> uint8 \<Rightarrow> uint8 \<Rightarrow> uint8 \<Rightarrow> uint8 \<Rightarrow> uint32 list" where
  "pack_digits m0 m1 m2 m3 m4 =
     (let md0 = ucast m0 :: uint32; md1 = ucast m1 :: uint32; md2 = ucast m2 :: uint32;
          md3 = ucast m3 :: uint32; md4 = ucast m4 :: uint32
      in [bit_and (drop_bit 3 md0) 0x1F,
         bit_or (bit_and (push_bit 2 md0) 0x1C) (bit_and (drop_bit 6 md1) 0x03),
         bit_and (drop_bit 1 md1) 0x1F,
         bit_or (bit_and (push_bit 4 md1) 0x10) (bit_and (drop_bit 4 md2) 0x0F),
         bit_or (bit_and (push_bit 1 md2) 0x1E) (bit_and (drop_bit 7 md3) 0x01),
         bit_and (drop_bit 2 md3) 0x1F,
         bit_or (bit_and (push_bit 3 md3) 0x18) (bit_and (drop_bit 5 md4) 0x07),
         bit_and md4 0x1F])"

lemma small_bits: "(\<And>n. bit (x :: uint32) n \<Longrightarrow> n < 5) \<Longrightarrow> unat x < 32"
proof -
  assume "\<And>n. bit x n \<Longrightarrow> n < 5"
  then have "x = take_bit 5 x" by (intro bit_word_eqI) (auto simp: bit_take_bit_iff)
  then have "unat x = unat x mod 2 ^ 5" by (metis unsigned_take_bit_eq take_bit_eq_mod)
  also have "\<dots> < 32" by simp
  finally show ?thesis .
qed

lemma mask_bit_lt: "bit (bit_and x c :: uint32) n \<Longrightarrow> unat c < 32 \<Longrightarrow> n < 5"
  using bit_word_lt [of c 5 n] by (simp add: bit_and_iff)

lemma pack_digits_small: "\<forall>i \<in> set (pack_digits a b c d e). unat i < 32"
  unfolding pack_digits_def Let_def
  by (simp, intro conjI; rule small_bits) (auto simp: bit_or_iff dest!: mask_bit_lt)

lemma those_digits:
  "\<forall>i \<in> set is. unat i < 32 \<Longrightarrow> those (map (\<lambda>i. base32_digit (alphabet ! unat i)) is) = Some is"
  by (induction "is") (auto simp: base32_digit_alphabet)

lemma byte_eqI:
  assumes "bit x 0 = bit y 0" "bit x 1 = bit y 1" "bit x 2 = bit y 2" "bit x 3 = bit y 3"
    and "bit x 4 = bit y 4" "bit x 5 = bit y 5" "bit x 6 = bit y 6" "bit x 7 = bit (y :: uint8) 7"
  shows "x = y"
proof (rule bit_word_eqI)
  fix n :: nat assume "n < LENGTH(8)"
  then have "n \<in> {0, 1, 2, 3, 4, 5, 6, 7}" by auto
  with assms show "bit x n = bit y n" by blast
qed

lemmas bit_word_simps = bit_or_iff bit_and_iff bit_push_bit_iff bit_drop_bit_eq bit_ucast_iff
  bit_signed_drop_bit_iff bit_times_2

lemma unpack_pack: "unpack_digits (pack_digits a b c d e) = [a, b, c, d, e]"
proof -
  note unf = pack_digits_def Let_def unpack_digits.simps list.inject
  show ?thesis
    unfolding unf by (intro conjI refl; rule byte_eqI)
      (simp_all add: bit_word_simps, simp_all add: numeral_2_eq_2 numeral_3_eq_3)
qed

lemma Base32Decode5Bytes_Encode:
  "Base32Decode5Bytes (Base32Encode5Bytes a b c d e) = Inr [a, b, c, d, e]"
proof -
  have "Base32Encode5Bytes a b c d e = map (\<lambda>i. alphabet ! unat i) (pack_digits a b c d e)"
    by (simp add: Base32Encode5Bytes_def pack_digits_def Let_def)
  then show ?thesis
    using those_digits [OF pack_digits_small [of a b c d e]]
    by (simp add: Base32Decode5Bytes_digits comp_def unpack_pack)
qed

lemma length_Base32Encode5Bytes [simp]: "length (Base32Encode5Bytes a b c d e) = 8"
  by (simp add: Base32Encode5Bytes_def Let_def)

lemma encode_blocks_code:
  "length xs = 5 * n \<Longrightarrow> length (encode_blocks xs) = 8 * n \<and> decode_blocks n (encode_blocks xs) = Inr xs"
proof (induction n arbitrary: xs)
  case (Suc n)
  then obtain a b c d e ys where xs: "xs = a # b # c # d # e # ys" and "length ys = 5 * n"
    by (auto simp: length_Suc_conv eval_nat_numeral)
  with Suc.IH [of ys] show ?case
    by (simp add: Base32Decode5Bytes_Encode)
qed simp

lemma encode_blocks_append:
  "length xs = 5 * n \<Longrightarrow> encode_blocks (xs @ ys) = encode_blocks xs @ encode_blocks ys"
proof (induction n arbitrary: xs)
  case (Suc n)
  then obtain a b c d e zs where "xs = a # b # c # d # e # zs" and "length zs = 5 * n"
    by (auto simp: length_Suc_conv eval_nat_numeral)
  with Suc.IH [of zs] show ?case by simp
qed simp

definition crc_bytes :: "bytes \<Rightarrow> bytes" where
  "crc_bytes m = [ucast (drop_bit 16 (crc24q m)), ucast (drop_bit 8 (crc24q m)), ucast (crc24q m)]"

lemma Base32Encode_blocks:
  assumes "length md = 32"
  shows "Base32Encode md = encode_blocks (md @ crc_bytes md)"
proof -
  have "drop 30 md = [md ! 30, md ! 31]"
    using assms by (simp add: Cons_nth_drop_Suc [symmetric] eval_nat_numeral)
  then have eq: "md @ crc_bytes md = take 30 md @ [md ! 30, md ! 31] @ crc_bytes md"
    by (metis append.assoc append_take_drop_id)
  have "encode_blocks (md @ crc_bytes md) =
      encode_blocks (take 30 md) @ encode_blocks ([md ! 30, md ! 31] @ crc_bytes md)"
    using encode_blocks_append [of "take 30 md" 6] assms by (subst eq) simp
  then show ?thesis by (simp add: Base32Encode_def Let_def crc_bytes_def)
qed

lemma Base32Decode_Encode: "length md = 32 \<Longrightarrow> Base32Decode (Base32Encode md) = Inr md"
  using encode_blocks_code [of "md @ crc_bytes md" 7] crc24q_append_zero [of md]
  by (simp add: Base32Encode_blocks Base32Decode_def crc_bytes_def)

lemma length_Base32Encode: "length md = 32 \<Longrightarrow> length (Base32Encode md) = 56"
  using encode_blocks_code [of "md @ crc_bytes md" 7] by (simp add: Base32Encode_blocks crc_bytes_def)

section \<open>What the decoder accepts\<close>

lemma unpack_digits_take_bit:
  "length idx = 8 \<Longrightarrow> unpack_digits (map (take_bit 5) idx) = unpack_digits idx"
proof -
  assume "length idx = 8"
  then obtain a b c d e f g h where idx: "idx = [a, b, c, d, e, f, g, h]"
    by (auto simp: length_Suc_conv eval_nat_numeral)
  show ?thesis
    unfolding idx list.map unpack_digits.simps list.inject
    by (intro conjI refl; rule byte_eqI) (simp_all add: bit_word_simps bit_take_bit_iff)
qed

lemma digit_z_u: "base32_digit (CHR ''z'') = Some 31" "base32_digit (CHR ''u'') = Some (- 1)"
  by code_simp+

lemma those_map_take_bit:
  "(\<And>c. map_option (take_bit 5) (base32_digit (g c)) = map_option (take_bit 5) (base32_digit c)) \<Longrightarrow>
   map_option (map (take_bit 5)) (those (map (\<lambda>c. base32_digit (g c)) cs)) =
   map_option (map (take_bit 5)) (those (map base32_digit cs))"
proof (induction cs)
  case (Cons c cs)
  then have "map_option (map (take_bit 5)) (those (map (\<lambda>c. base32_digit (g c)) cs)) =
      map_option (map (take_bit 5)) (those (map base32_digit cs))" by blast
  with Cons.prems [of c] show ?case
    by (cases "base32_digit c"; cases "base32_digit (g c)"; cases "those (map base32_digit cs)";
        cases "those (map (\<lambda>c. base32_digit (g c)) cs)") auto
qed simp

lemma those_length: "those xs = Some ys \<Longrightarrow> length ys = length xs"
  by (induction xs arbitrary: ys) (auto split: option.splits)

lemma Base32Decode5Bytes_low5:
  assumes "\<And>c. map_option (take_bit 5) (base32_digit (g c)) = map_option (take_bit 5) (base32_digit c)"
    and len: "length cs = 8"
  shows "Base32Decode5Bytes (map g cs) = Base32Decode5Bytes cs"
proof -
  have eq: "map_option (map (take_bit 5)) (those (map (base32_digit \<circ> g) cs)) =
      map_option (map (take_bit 5)) (those (map base32_digit cs))"
    using those_map_take_bit [OF assms(1)] by (simp add: comp_def)
  show ?thesis
  proof (cases "those (map base32_digit cs)")
    case None
    with eq show ?thesis by (simp add: Base32Decode5Bytes_digits)
  next
    case (Some a)
    with eq obtain b where b: "those (map (base32_digit \<circ> g) cs) = Some b"
      and ab: "map (take_bit 5) b = map (take_bit 5) a" by auto
    have "length a = 8" "length b = 8" using those_length [OF Some] those_length [OF b] len by simp_all
    then have "unpack_digits b = unpack_digits a" by (metis ab unpack_digits_take_bit)
    with Some b show ?thesis by (simp add: Base32Decode5Bytes_digits)
  qed
qed

lemma decode_blocks_low5:
  assumes "\<And>c. map_option (take_bit 5) (base32_digit (g c)) = map_option (take_bit 5) (base32_digit c)"
  shows "length cs = 8 * n \<Longrightarrow> decode_blocks n (map g cs) = decode_blocks n cs"
proof (induction n arbitrary: cs)
  case (Suc n)
  then have "Base32Decode5Bytes (map g (take 8 cs)) = Base32Decode5Bytes (take 8 cs)"
    using Base32Decode5Bytes_low5 [OF assms] by simp
  with Suc.IH [of "drop 8 cs"] Suc.prems show ?case by (simp add: take_map drop_map)
qed simp

lemma Base32Decode_low5:
  assumes "\<And>c. map_option (take_bit 5) (base32_digit (g c)) = map_option (take_bit 5) (base32_digit c)"
  shows "Base32Decode (map g cs) = Base32Decode cs"
  using decode_blocks_low5 [OF assms, of cs 7] by (simp add: Base32Decode_def)

section \<open>Single-character errors\<close>

text \<open>The bytes that depend on digit \<open>j\<close> of a block lie in the three bytes from \<open>win j\<close> on.\<close>

definition win :: "nat \<Rightarrow> nat" where
  "win j = (if j < 2 then 0 else if j < 4 then 1 else 2)"

lemma nat_lt_8_cases:
  assumes "j < (8 :: nat)"
  obtains "j = 0" | "j = 1" | "j = 2" | "j = 3" | "j = 4" | "j = 5" | "j = 6" | "j = 7"
proof -
  from assms have "j = 0 \<or> j = 1 \<or> j = 2 \<or> j = 3 \<or> j = 4 \<or> j = 5 \<or> j = 6 \<or> j = 7" by auto
  then show thesis using that by blast
qed

lemma unpack_window:
  assumes "length idx = 8" and "j < 8"
  shows "length (unpack_digits idx) = 5 \<and>
    take (win j) (unpack_digits (idx[j := v])) = take (win j) (unpack_digits idx) \<and>
    drop (win j + 3) (unpack_digits (idx[j := v])) = drop (win j + 3) (unpack_digits idx)"
proof -
  obtain a b c d e f g h where idx: "idx = [a, b, c, d, e, f, g, h]"
    using assms(1) by (auto simp: length_Suc_conv eval_nat_numeral)
  show ?thesis
    using assms(2) by (cases j rule: nat_lt_8_cases) (simp_all add: idx win_def)
qed

lemma low5_eqI:
  assumes "bit x 0 = bit y 0" "bit x 1 = bit y 1" "bit x 2 = bit y 2" "bit x 3 = bit y 3"
    and "bit x 4 = bit (y :: uint32) 4"
  shows "take_bit 5 x = take_bit 5 y"
proof (rule bit_word_eqI)
  fix n :: nat
  have "n < 5 \<Longrightarrow> n = 0 \<or> n = 1 \<or> n = 2 \<or> n = 3 \<or> n = 4" by auto
  with assms show "bit (take_bit 5 x) n = bit (take_bit 5 y) n" by (auto simp: bit_take_bit_iff)
qed

lemma take_bit_5_small: "unat x < 32 \<Longrightarrow> take_bit 5 x = (x :: uint32)"
  using bit_word_lt [of x 5] by (auto intro!: bit_word_eqI simp: bit_take_bit_iff)

lemma pack_unpack:
  assumes "length idx = 8"
  shows "pack_digits (unpack_digits idx ! 0) (unpack_digits idx ! 1) (unpack_digits idx ! 2)
    (unpack_digits idx ! 3) (unpack_digits idx ! 4) = map (take_bit 5) idx" (is "?P = _")
proof -
  obtain a b c d e f g h where idx: "idx = [a, b, c, d, e, f, g, h]"
    using assms by (auto simp: length_Suc_conv eval_nat_numeral)
  have "map (take_bit 5) ?P = ?P"
    using pack_digits_small take_bit_5_small by (intro map_idI) blast
  moreover have "map (take_bit 5) ?P = map (take_bit 5) idx"
    unfolding idx pack_digits_def Let_def unpack_digits.simps list.map list.inject nth_Cons_0
    by (intro conjI refl; rule low5_eqI)
      (simp_all add: bit_word_simps nth_Cons', simp_all add: numeral_2_eq_2 numeral_3_eq_3)
  ultimately show ?thesis by simp
qed

lemma decode_blocks_split:
  "length p = 8 * k \<Longrightarrow> length b = 8 \<Longrightarrow>
   decode_blocks (k + Suc m) (p @ b @ q) =
     ebind (decode_blocks k p) (\<lambda>A. ebind (Base32Decode5Bytes b) (\<lambda>B.
       ebind (decode_blocks m q) (\<lambda>C. Inr (A @ B @ C))))"
proof (induction k arbitrary: p)
  case 0
  then show ?case by (cases "Base32Decode5Bytes b"; cases "decode_blocks m q") auto
next
  case (Suc k)
  have "decode_blocks (k + Suc m) (drop 8 p @ b @ q) =
      ebind (decode_blocks k (drop 8 p)) (\<lambda>A. ebind (Base32Decode5Bytes b) (\<lambda>B.
       ebind (decode_blocks m q) (\<lambda>C. Inr (A @ B @ C))))"
    using Suc.prems by (intro Suc.IH) simp_all
  with Suc.prems show ?case
    by (cases "Base32Decode5Bytes (take 8 p)"; cases "decode_blocks k (drop 8 p)";
        cases "Base32Decode5Bytes b"; cases "decode_blocks m q") auto
qed

lemma those_update:
  "those xs = Some ys \<Longrightarrow> j < length xs \<Longrightarrow> those (xs[j := Some v]) = Some (ys[j := v])"
proof (induction xs arbitrary: ys j)
  case (Cons x xs)
  then show ?case by (cases j) (auto split: option.splits)
qed simp

lemma those_nth: "those xs = Some ys \<Longrightarrow> j < length xs \<Longrightarrow> xs ! j = Some (ys ! j)"
proof (induction xs arbitrary: ys j)
  case (Cons x xs)
  then show ?case by (cases j) (auto split: option.splits)
qed simp

lemma block_change:
  assumes blk: "length b = 8" "Base32Decode5Bytes b = Inr B" and j: "j < 8"
    and d: "base32_digit (b ! j) = Some u" "base32_digit c = Some v" "take_bit 5 u \<noteq> take_bit 5 v"
  obtains B' P X Y S where "Base32Decode5Bytes (b[j := c]) = Inr B'" "B = P @ X @ S" "B' = P @ Y @ S"
    "length X = 3" "length Y = 3" "X \<noteq> Y"
proof -
  from blk obtain idx where idx: "those (map base32_digit b) = Some idx" and B: "B = unpack_digits idx"
    by (auto simp: Base32Decode5Bytes_digits split: option.splits)
  have len: "length idx = 8" using those_length [OF idx] blk by simp
  let ?B' = "unpack_digits (idx[j := v])"
  have dec: "Base32Decode5Bytes (b[j := c]) = Inr ?B'"
    using those_update [OF idx, of j v] j blk d(2) by (simp add: Base32Decode5Bytes_digits map_update)
  have uj: "idx ! j = u" using those_nth [OF idx, of j] j blk d(1) by simp
  have "map (take_bit 5) (idx[j := v]) ! j \<noteq> map (take_bit 5) idx ! j"
    using j len uj d(3) by simp
  then have ne: "?B' \<noteq> B"
    using pack_unpack [of idx] pack_unpack [of "idx[j := v]"] len B by auto
  have win: "take (win j) ?B' = take (win j) B" "drop (win j + 3) ?B' = drop (win j + 3) B"
    and lens: "length B = 5" "length ?B' = 5"
    using unpack_window [OF len j] unpack_window [of "idx[j := v]" j] len j B by auto
  have split: "xs = take (win j) xs @ take 3 (drop (win j) xs) @ drop (win j + 3) xs" for xs :: bytes
    by (metis append_take_drop_id drop_drop add.commute)
  have w: "win j \<le> 2" by (simp add: win_def)
  show thesis
  proof (rule that [OF dec])
    show "B = take (win j) B @ take 3 (drop (win j) B) @ drop (win j + 3) B" by (rule split)
    show "?B' = take (win j) B @ take 3 (drop (win j) ?B') @ drop (win j + 3) B"
      using split [of ?B'] win by metis
    then show "take 3 (drop (win j) B) \<noteq> take 3 (drop (win j) ?B')" using ne split [of B] by metis
  qed (use lens w in simp_all)
qed

lemma Base32Decode_detects_char:
  assumes ok: "Base32Decode s = Inr md" and i: "i < 56"
    and d: "base32_digit (s ! i) = Some u" "base32_digit c = Some v" "take_bit 5 u \<noteq> take_bit 5 v"
  shows "Base32Decode (s[i := c]) = Inl B32_Rejected"
proof -
  from ok have len: "length s = 56" by (auto simp: Base32Decode_def split: if_splits)
  define k j where "k = i div 8" and "j = i mod 8"
  have kj: "i = 8 * k + j" "j < 8" "k < 7" using i by (auto simp: k_def j_def)
  define p b q where "p = take (8 * k) s" and "b = take 8 (drop (8 * k) s)" and "q = drop (8 * k + 8) s"
  have s: "s = p @ b @ q" unfolding p_def b_def q_def
    by (metis append_take_drop_id drop_drop add.commute)
  have lens: "length p = 8 * k" "length b = 8" using len kj by (simp_all add: p_def b_def)
  obtain m where m: "7 = k + Suc m" using kj(3) less_imp_Suc_add by (metis add_Suc_right)
  have upd: "s[i := c] = p @ b[j := c] @ q"
    unfolding kj(1) s by (simp add: lens list_update_append kj(2))
  have bj: "s ! i = b ! j" unfolding kj(1) s by (simp add: lens nth_append kj(2))
  note dec = decode_blocks_split [OF lens(1), where m = m, folded m]
  from ok have "\<exists>data. decode_blocks 7 s = Inr data \<and> crc24q data = 0"
    by (auto simp: Base32Decode_def ebind_eq_Inr split: if_splits)
  then obtain A B C where A: "decode_blocks k p = Inr A" and B: "Base32Decode5Bytes b = Inr B"
    and C: "decode_blocks m q = Inr C" and crc: "crc24q (A @ B @ C) = 0"
    unfolding s dec [OF lens(2)] by (auto simp: ebind_eq_Inr)
  from block_change [OF lens(2) B kj(2) d(1) [unfolded bj] d(2,3)] obtain B' P X Y S where
    B': "Base32Decode5Bytes (b[j := c]) = Inr B'" and parts: "B = P @ X @ S" "B' = P @ Y @ S"
      "length X = 3" "length Y = 3" "X \<noteq> Y" by metis
  have "crc24q (A @ B' @ C) \<noteq> 0"
    using crc24q_detects_burst [of Y X "A @ P" "S @ C"] parts crc by auto
  moreover have "decode_blocks 7 (s[i := c]) = Inr (A @ B' @ C)"
    unfolding upd using dec [of "b[j := c]" q] lens A B' C by simp
  ultimately show ?thesis using len by (simp add: Base32Decode_def)
qed

section \<open>Properties\<close>

text \<open>Property C26: the table-driven CRC is the remainder of the division by the generator polynomial,
  computed bit by bit.\<close>

theorem crc24q_is_polynomial_division: "crc24q data = crc24q_bitwise data"
  by (rule crc24q_is_bitwise)

text \<open>32 bytes encode to 56 characters, which decode to the same bytes.\<close>

theorem base32_roundtrip:
  assumes "length md = 32"
  shows "length (Base32Encode md) = 56 \<and> Base32Decode (Base32Encode md) = Inr md"
  using assms by (simp add: length_Base32Encode Base32Decode_Encode)

theorem base32_roundtrip_witness:
  "length (replicate 32 (0xA5 :: uint8)) = 32
   \<and> length (Base32Encode (replicate 32 0xA5)) = 56
   \<and> Base32Decode (Base32Encode (replicate 32 0xA5)) = Inr (replicate 32 0xA5)"
  using base32_roundtrip [of "replicate 32 0xA5"] by simp

text \<open>Property C22: a text that decodes is rejected as soon as one of its characters is replaced by one
  that stands for another digit.\<close>

theorem base32_detects_single_error:
  assumes "Base32Decode s = Inr md" and "i < 56"
    and "base32_digit (s ! i) = Some u" and "base32_digit c = Some v" and "take_bit 5 u \<noteq> take_bit 5 v"
  shows "Base32Decode (s[i := c]) = Inl B32_Rejected"
  using assms by (rule Base32Decode_detects_char)

theorem base32_detects_single_error_witness:
  "Base32Decode (Base32Encode (replicate 32 0)) = Inr (replicate 32 0)
   \<and> base32_digit (Base32Encode (replicate 32 0) ! 0) = Some 0 \<and> base32_digit (CHR ''1'') = Some 1
   \<and> Base32Decode ((Base32Encode (replicate 32 0))[0 := CHR ''1'']) = Inl B32_Rejected"
proof -
  have d: "Base32Decode (Base32Encode (replicate 32 0)) = Inr (replicate 32 0)"
    by (simp add: Base32Decode_Encode)
  have u: "base32_digit (Base32Encode (replicate 32 0) ! 0) = Some 0"
  proof -
    have "replicate 32 0 = [0, 0, 0, 0, 0] @ replicate 27 (0 :: uint8)" by (simp add: numeral_eq_Suc)
    then have "Base32Encode (replicate 32 0) ! 0 = CHR ''0''"
      by (simp add: Base32Encode_blocks Base32Encode5Bytes_def alphabet_def)
    then show ?thesis using base32_digit_alphabet [of 0] by (simp add: alphabet_def)
  qed
  have v: "base32_digit (CHR ''1'') = Some 1"
    using base32_digit_alphabet [of 1] by (simp add: alphabet_def)
  show ?thesis using base32_detects_single_error [OF d _ u v] d u v by simp
qed

text \<open>The decoder does not notice letters outside its alphabet: every \<^verbatim>\<open>z\<close> of an address may
  be replaced by a \<^verbatim>\<open>u\<close>, a letter the alphabet leaves out, and the text still decodes to the same
  bytes.\<close>

theorem base32_accepts_foreign_letter:
  "Base32Decode (map (\<lambda>c. if c = CHR ''z'' then CHR ''u'' else c) cs) = Base32Decode cs \<and> CHR ''u'' \<notin> set alphabet"
proof
  show "Base32Decode (map (\<lambda>c. if c = CHR ''z'' then CHR ''u'' else c) cs) = Base32Decode cs"
    by (rule Base32Decode_low5) (simp add: digit_z_u mask_eq_exp_minus_1)
  show "CHR ''u'' \<notin> set alphabet" by (simp add: alphabet_def)
qed

end
