(* ===== verification/Destination.thy ===== *)
theory Destination
  imports Base32
begin

text \<open>
  Destinations: \<^verbatim>\<open>src/common/destination.h\<close>, \<^verbatim>\<open>destination.cpp\<close>, template identifiers
  (\<^verbatim>\<open>src/common/template/templateid.cpp\<close>) and the textual address of a destination
  (\<^verbatim>\<open>src/src/address.cpp\<close>).

  Methods that assign the fields before they fail return the changed object with their result, so
  that a rejected text is visible in the state it leaves behind.  Signature verification of a
  destination is in the theory \<open>Template\<close>.
\<close>

section \<open>Template identifiers\<close>

definition CTemplateId_make :: "uint16 \<Rightarrow> uint256 \<Rightarrow> uint256" where
  "CTemplateId_make type hash = bit_or (push_bit 16 hash) (ucast type)"

definition GetType :: "uint256 \<Rightarrow> uint16" where
  "GetType tid = ucast (bit_and (ucast tid :: uint32) 0xFFFF)"

section \<open>CDestination\<close>

datatype CDestination = CDestination (dest_prefix: uint8) (dest_data: uint256)

abbreviation (input) PREFIX_NULL :: uint8 where "PREFIX_NULL \<equiv> 0"
abbreviation (input) PREFIX_PUBKEY :: uint8 where "PREFIX_PUBKEY \<equiv> 1"
abbreviation (input) PREFIX_TEMPLATE :: uint8 where "PREFIX_TEMPLATE \<equiv> 2"
abbreviation (input) PREFIX_MAX :: nat where "PREFIX_MAX \<equiv> 3"
abbreviation (input) DESTINATION_SIZE :: nat where "DESTINATION_SIZE \<equiv> 33"

definition dest_null :: CDestination where
  "dest_null = CDestination PREFIX_NULL 0"

definition dest_IsNull :: "CDestination \<Rightarrow> bool" where
  "dest_IsNull d \<longleftrightarrow> dest_prefix d = PREFIX_NULL"

definition dest_IsPubKey :: "CDestination \<Rightarrow> bool" where
  "dest_IsPubKey d \<longleftrightarrow> dest_prefix d = PREFIX_PUBKEY"

definition dest_IsTemplate :: "CDestination \<Rightarrow> bool" where
  "dest_IsTemplate d \<longleftrightarrow> dest_prefix d = PREFIX_TEMPLATE"

definition dest_pubkey :: "uint256 \<Rightarrow> CDestination" where
  "dest_pubkey k = CDestination PREFIX_PUBKEY k"

definition dest_template :: "uint256 \<Rightarrow> CDestination" where
  "dest_template tid = CDestination PREFIX_TEMPLATE tid"

definition dest_GetPubKey :: "CDestination \<Rightarrow> uint256" where
  "dest_GetPubKey d = (if dest_prefix d = PREFIX_PUBKEY then dest_data d else 0)"

definition dest_GetTemplateId :: "CDestination \<Rightarrow> uint256" where
  "dest_GetTemplateId d = (if dest_prefix d = PREFIX_TEMPLATE then dest_data d else 0)"

text \<open>The order of \<^verbatim>\<open>operator<\<close>, which decides how maps and sets of destinations iterate.\<close>

instantiation CDestination :: linorder
begin

definition less_CDestination :: "CDestination \<Rightarrow> CDestination \<Rightarrow> bool" where
  "less_CDestination a b \<longleftrightarrow>
     dest_prefix a < dest_prefix b \<or> (dest_prefix a = dest_prefix b \<and> dest_data a < dest_data b)"

definition less_eq_CDestination :: "CDestination \<Rightarrow> CDestination \<Rightarrow> bool" where
  "less_eq_CDestination a b \<longleftrightarrow> a = b \<or> a < b"

instance
  by standard (auto simp: less_CDestination_def less_eq_CDestination_def intro: CDestination.expand)

end

section \<open>Text formats\<close>

definition prefix_char_ok :: "char \<Rightarrow> bool" where
  "prefix_char_ok c \<longleftrightarrow> 48 \<le> (of_char c :: nat) \<and> (of_char c :: nat) < 48 + PREFIX_MAX"

definition dest_ParseString :: "CDestination \<Rightarrow> string \<Rightarrow> bool \<times> CDestination" where
  "dest_ParseString d str =
     (if length str \<noteq> DESTINATION_SIZE * 2 - 1 \<or> \<not> prefix_char_ok (str ! 0) then (False, d)
      else let (k, bs) = ParseHexString_n (tl str) 32;
               data = word_of_nat (le_val (bs @ drop k (Save_uint (dest_data d))))
           in (k = 32, CDestination (word_of_nat (of_char (str ! 0) - 48)) data))"

definition prefix_char :: "uint8 \<Rightarrow> char" where
  "prefix_char p = char_of (48 + unat p)"

definition dest_ToString :: "CDestination \<Rightarrow> string" where
  "dest_ToString d = prefix_char (dest_prefix d) # ToHexString (Save_uint (dest_data d))"

text \<open>\<^verbatim>\<open>SetPubKey\<close> and \<^verbatim>\<open>SetTemplateId\<close> call the virtual \<^verbatim>\<open>ParseString\<close>, an argument here, and fall
  back to a plain hexadecimal number.\<close>

definition dest_SetPubKey ::
  "(CDestination \<Rightarrow> string \<Rightarrow> bool \<times> CDestination) \<Rightarrow> CDestination \<Rightarrow> string \<Rightarrow> bool \<times> CDestination" where
  "dest_SetPubKey parse d str =
     (let (ok, d1) = parse d str in
      if ok then (\<not> (dest_IsNull d1 \<or> \<not> dest_IsPubKey d1), d1)
      else let (len, v) = SetHex str in
        if len \<noteq> length str then (False, CDestination (dest_prefix d1) v)
        else (True, CDestination PREFIX_PUBKEY v))"

definition dest_SetTemplateId ::
  "(CDestination \<Rightarrow> string \<Rightarrow> bool \<times> CDestination) \<Rightarrow> CDestination \<Rightarrow> string \<Rightarrow> bool \<times> CDestination" where
  "dest_SetTemplateId parse d str =
     (let (ok, d1) = parse d str in
      if ok then (\<not> (dest_IsNull d1 \<or> \<not> dest_IsTemplate d1), d1)
      else let (len, v) = SetHex str in
        if len \<noteq> length str then (False, CDestination (dest_prefix d1) v)
        else (True, CDestination PREFIX_TEMPLATE v))"

definition ADDRESS_LEN :: nat where "ADDRESS_LEN = 57"

definition CMvAddress_ParseString :: "CDestination \<Rightarrow> string \<Rightarrow> bool \<times> CDestination" where
  "CMvAddress_ParseString d str =
     (if length str \<noteq> ADDRESS_LEN \<or> \<not> prefix_char_ok (str ! 0) then (False, d)
      else case Base32Decode (tl str) of
        Inl e \<Rightarrow> (False, d)
      | Inr md \<Rightarrow> (True, CDestination (word_of_nat (of_char (str ! 0) - 48)) (word_of_nat (le_val md))))"

definition CMvAddress_ToString :: "CDestination \<Rightarrow> string" where
  "CMvAddress_ToString d = prefix_char (dest_prefix d) # Base32Encode (Save_uint (dest_data d))"

section \<open>Serialisation\<close>

definition Save_dest :: "CDestination \<Rightarrow> bytes" where
  "Save_dest d = Save_uint (dest_prefix d) @ Save_uint (dest_data d)"

definition Load_dest :: "CDestination loader" where
  "Load_dest s = do {
     (p, s1) \<leftarrow> Load_uint s;
     (v, s2) \<leftarrow> Load_uint s1;
     Some (CDestination p v, s2) }"

definition IDS_dest :: "CDestination ds_reader" where
  "IDS_dest s = ebind (IDS_uint s) (\<lambda>(p, r). ebind (IDS_uint r) (\<lambda>(v, r'). Inr (CDestination p v, r')))"

interpretation dest: codec Save_dest Load_dest "\<lambda>_. DESTINATION_SIZE" "\<lambda>_. True"
  by unfold_locales
    (simp_all add: Save_dest_def Load_dest_def u8.load_save u256.load_save u8.save_size u256.save_size)

interpretation dsdest: ds_codec Save_dest IDS_dest "\<lambda>_. True"
  by unfold_locales (simp add: Save_dest_def IDS_dest_def ds8.read_write ds256.read_write)

section \<open>Lemmas\<close>

lemma GetType_ucast: "GetType tid = ucast tid"
proof -
  have "bit_and (ucast tid :: uint32) 0xFFFF = take_bit 16 (ucast tid)"
    unfolding take_bit_eq_mask mask_eq_exp_minus_1 by simp
  then show ?thesis
    unfolding GetType_def
    by (intro bit_word_eqI) (simp add: bit_ucast_iff bit_take_bit_iff)
qed

lemma GetType_make: "GetType (CTemplateId_make type hash) = type"
  unfolding GetType_ucast CTemplateId_make_def
  by (rule bit_word_eqI) (auto simp: bit_ucast_iff bit_or_iff bit_push_bit_iff)

lemma CTemplateId_make_eq:
  "CTemplateId_make t h = CTemplateId_make t' h' \<longleftrightarrow> t = t' \<and> take_bit 240 h = take_bit 240 h'"
proof
  assume eq: "CTemplateId_make t h = CTemplateId_make t' h'"
  have "t = t'" using eq GetType_make by metis
  moreover have "take_bit 240 h = take_bit 240 h'"
  proof (rule bit_word_eqI)
    fix n
    have bit: "bit (CTemplateId_make t h) (n + 16) \<longleftrightarrow> n < 240 \<and> bit h n" for t h
      by (auto simp: CTemplateId_make_def bit_or_iff bit_push_bit_iff bit_ucast_iff dest: bit_imp_le_length)
    show "bit (take_bit 240 h) n = bit (take_bit 240 h') n"
      using bit [of t h] bit [of t' h'] eq by (simp add: bit_take_bit_iff)
  qed
  ultimately show "t = t' \<and> take_bit 240 h = take_bit 240 h'" ..
next
  assume a: "t = t' \<and> take_bit 240 h = take_bit 240 h'"
  have "push_bit 16 h = push_bit 16 (take_bit 240 h)" for h :: uint256
    by (rule bit_word_eqI) (auto simp: bit_push_bit_iff bit_take_bit_iff)
  with a show "CTemplateId_make t h = CTemplateId_make t' h'"
    unfolding CTemplateId_make_def by metis
qed

lemma le_val_Save_uint256: "word_of_nat (le_val (Save_uint w)) = (w :: uint256)"
  using u256.load_save_exact [of w]
  by (auto simp: Load_uint_def Stream_Read_def length_Save_uint sizeof_uint_def)

lemma prefix_char_small:
  "unat p < PREFIX_MAX \<Longrightarrow> prefix_char_ok (prefix_char p) \<and> word_of_nat (of_char (prefix_char p) - 48) = p"
proof -
  assume "unat p < PREFIX_MAX"
  then have c: "of_char (prefix_char p) = (48 + unat p :: nat)"
    by (simp add: prefix_char_def)
  then show ?thesis using \<open>unat p < PREFIX_MAX\<close> by (simp add: prefix_char_ok_def)
qed

lemma ParseHexString_n_ToHexString: "ParseHexString_n (ToHexString b) (length b) = (length b, b)"
  by (simp add: ParseHexString_n_prefix ParseHexString_ToHexString)

lemma length_ToHexString: "length (ToHexString b) = 2 * length b"
  unfolding ToHexString_concat by (induction b) (simp_all add: hex_byte_def)

lemma dest_ParseString_ToString:
  assumes "unat (dest_prefix d) < PREFIX_MAX"
  shows "dest_ParseString d0 (dest_ToString d) = (True, d)"
proof -
  have len: "length (Save_uint (dest_data d)) = 32" by (simp add: length_Save_uint)
  have "ParseHexString_n (ToHexString (Save_uint (dest_data d))) 32 = (32, Save_uint (dest_data d))"
    using ParseHexString_n_ToHexString [of "Save_uint (dest_data d)"] by (simp only: len)
  then show ?thesis
    using prefix_char_small [OF assms] len
    by (simp add: dest_ParseString_def dest_ToString_def length_ToHexString length_Save_uint le_val_Save_uint256)
qed

lemma CMvAddress_ParseString_ToString:
  assumes "unat (dest_prefix d) < PREFIX_MAX"
  shows "CMvAddress_ParseString d0 (CMvAddress_ToString d) = (True, d)"
proof -
  have "length (Save_uint (dest_data d)) = 32" by (simp add: length_Save_uint)
  from Base32Decode_Encode [OF this] length_Base32Encode [OF this] show ?thesis
    using prefix_char_small [OF assms]
    by (simp add: CMvAddress_ParseString_def CMvAddress_ToString_def ADDRESS_LEN_def le_val_Save_uint256)
qed

section \<open>Properties\<close>

text \<open>Both text forms of a destination, the hexadecimal one and the checksummed address,
  parse back to the destination, whatever the object held before.\<close>

theorem destination_text_roundtrip:
  assumes "unat (dest_prefix d) < PREFIX_MAX"
  shows "dest_ParseString d0 (dest_ToString d) = (True, d)
    \<and> CMvAddress_ParseString d0 (CMvAddress_ToString d) = (True, d)"
  using assms by (simp add: dest_ParseString_ToString CMvAddress_ParseString_ToString)

theorem destination_text_roundtrip_witness:
  "unat (dest_prefix (dest_template 77)) < PREFIX_MAX
   \<and> dest_ParseString dest_null (dest_ToString (dest_template 77)) = (True, dest_template 77)
   \<and> CMvAddress_ParseString dest_null (CMvAddress_ToString (dest_template 77)) = (True, dest_template 77)"
  using destination_text_roundtrip [of "dest_template 77" dest_null] by (simp add: dest_template_def)

end
