(* ===== verification/Crypto.thy ===== *)
theory Crypto
  imports Serialize
begin

text \<open>
  The cryptographic interface of \<^verbatim>\<open>src/crypto/crypto.cpp\<close> and \<^verbatim>\<open>key.cpp\<close>.

  What the program takes from libsodium, boost and its Edwards-curve arithmetic is a parameter of
  the model, collected in the record \<open>crypto_env\<close>.  What the program itself does around these
  primitives is modelled: the length checks, the participant bitmap of a multi-signature, the
  order in which the checks are made.
\<close>

record crypto_env =
  env_hash :: "bytes \<Rightarrow> uint256"
    \<comment> \<open>\<^verbatim>\<open>crypto_generichash_blake2b\<close> with a 32-byte digest\<close>
  env_edverify :: "uint256 \<Rightarrow> bytes \<Rightarrow> bytes \<Rightarrow> bool"
    \<comment> \<open>\<^verbatim>\<open>crypto_sign_ed25519_verify_detached\<close>: public key, message, signature\<close>
  env_point :: "bytes \<Rightarrow> bool"
    \<comment> \<open>whether \<^verbatim>\<open>CEdwards25519::Unpack\<close> accepts 32 bytes\<close>
  env_multieq :: "uint256 list \<Rightarrow> uint256 list \<Rightarrow> bytes \<Rightarrow> bytes \<Rightarrow> bytes \<Rightarrow> bool"
    \<comment> \<open>the final curve equation of \<^verbatim>\<open>CryptoMultiVerify\<close>: keys, participants, X, M, (R,S)\<close>
  env_multiadd :: "uint256 list \<Rightarrow> uint256 \<Rightarrow> bytes \<Rightarrow> bytes \<Rightarrow> bytes option \<Rightarrow> bytes"
    \<comment> \<open>(R,S) after one participant added its share, \<^const>\<open>None\<close> for a fresh signature\<close>
  env_multirepack :: "bytes \<Rightarrow> bytes"
    \<comment> \<open>(R,S) unpacked and packed again\<close>
  env_mapcount :: nat
    \<comment> \<open>bytes of \<^verbatim>\<open>WeightedMap::size_type\<close>: 1 by the allocator of \<^verbatim>\<open>weighted.h\<close>, 8 where the
       library's \<^verbatim>\<open>std::map\<close> ignores the allocator's type\<close>
  env_base64dec :: "bytes \<Rightarrow> bytes option"
    \<comment> \<open>boost's \<^verbatim>\<open>binary_from_base64\<close> pipeline, \<^const>\<open>None\<close> when it throws\<close>

definition CryptoHash :: "crypto_env \<Rightarrow> bytes \<Rightarrow> uint256" where
  "CryptoHash env msg = env_hash env msg"

definition CryptoHash2 :: "crypto_env \<Rightarrow> uint256 \<Rightarrow> uint256 \<Rightarrow> uint256" where
  "CryptoHash2 env h1 h2 = env_hash env (Save_uint h1 @ Save_uint h2)"

definition CryptoVerify :: "crypto_env \<Rightarrow> uint256 \<Rightarrow> bytes \<Rightarrow> bytes \<Rightarrow> bool" where
  "CryptoVerify env pubkey md vchSig \<longleftrightarrow> length vchSig = 64 \<and> env_edverify env pubkey md vchSig"

definition CPubKey_Verify :: "crypto_env \<Rightarrow> uint256 \<Rightarrow> uint256 \<Rightarrow> bytes \<Rightarrow> bool" where
  "CPubKey_Verify env pubkey hash vchSig = CryptoVerify env pubkey (Save_uint hash) vchSig"

section \<open>Multi-signatures\<close>

text \<open>A \<^verbatim>\<open>set<uint256>\<close> is the increasing list of its elements.\<close>

definition nIndexLen :: "uint256 list \<Rightarrow> nat" where
  "nIndexLen keys = (length keys - 1) div 8 + 1"

definition index_bit :: "bytes \<Rightarrow> nat \<Rightarrow> bool" where
  "index_bit pIndex i \<longleftrightarrow> bit_and (pIndex ! (i div 8)) (push_bit (i mod 8) 1) \<noteq> 0"

fun collect_part :: "bytes \<Rightarrow> nat \<Rightarrow> uint256 list \<Rightarrow> uint256 list" where
  "collect_part pIndex i [] = []"
| "collect_part pIndex i (k # ks) =
     (if index_bit pIndex i then k # collect_part pIndex (i + 1) ks else collect_part pIndex (i + 1) ks)"

definition CryptoMultiVerify ::
  "crypto_env \<Rightarrow> uint256 list \<Rightarrow> bytes \<Rightarrow> bytes \<Rightarrow> bytes \<Rightarrow> uint256 list option" where
  "CryptoMultiVerify env keys X M vchSig =
     (if keys = [] then None
      else if vchSig = [] then Some []
      else if length vchSig \<noteq> nIndexLen keys + 64 then None
      else if \<not> env_point env (take 32 (drop (nIndexLen keys) vchSig)) then None
      else if \<not> list_all (\<lambda>k. env_point env (Save_uint k)) keys then None
      else let part = collect_part vchSig 0 keys
           in if env_multieq env keys part X M (drop (nIndexLen keys) vchSig) then Some part else None)"

definition CryptoMultiPartKey :: "uint256 list \<Rightarrow> bytes \<Rightarrow> uint256 list" where
  "CryptoMultiPartKey keys vchSig =
     (if keys = [] \<or> vchSig = [] then []
      else if length vchSig \<noteq> nIndexLen keys + 64 then []
      else collect_part vchSig 0 keys)"

fun find_index :: "uint256 \<Rightarrow> uint256 list \<Rightarrow> nat option" where
  "find_index k [] = None"
| "find_index k (x # xs) = (if x = k then Some 0 else map_option Suc (find_index k xs))"

text \<open>The result is the returned flag and the signature buffer left behind.\<close>

definition CryptoMultiSign ::
  "crypto_env \<Rightarrow> uint256 list \<Rightarrow> uint256 \<Rightarrow> bytes \<Rightarrow> bytes \<Rightarrow> bytes \<Rightarrow> bool \<times> bytes" where
  "CryptoMultiSign env keys pubkey X M vchSig =
     (if keys = [] then (False, vchSig)
      else let n = nIndexLen keys; fresh = (vchSig = []);
               buf = (if fresh then replicate (n + 64) 0 else vchSig) in
        if \<not> fresh \<and> length vchSig \<noteq> n + 64 then (False, vchSig)
        else if \<not> fresh \<and> \<not> env_point env (take 32 (drop n vchSig)) then (False, vchSig)
        else if \<not> list_all (\<lambda>k. env_point env (Save_uint k)) keys then (False, buf)
        else case find_index pubkey keys of
          None \<Rightarrow> (False, buf)
        | Some index \<Rightarrow>
            let rs = (if fresh then None else Some (drop n buf)) in
            if index_bit buf index then (True, take n buf @ env_multirepack env (drop n buf))
            else (True, (take n buf)[index div 8 := bit_or (buf ! (index div 8)) (push_bit (index mod 8) 1)]
                        @ env_multiadd env keys pubkey X M rs))"

section \<open>Lemmas\<close>

lemma index_bit_iff: "index_bit b i \<longleftrightarrow> bit (b ! (i div 8)) (i mod 8)"
  unfolding index_bit_def bit_iff_and_push_bit_not_eq_0 ..

lemma collect_part_subset: "set (collect_part b i ks) \<subseteq> set ks"
  by (induction b i ks rule: collect_part.induct) auto

lemma collect_part_mem:
  "distinct ks \<Longrightarrow> k \<in> set (collect_part b i ks) \<longleftrightarrow> (\<exists>j < length ks. ks ! j = k \<and> index_bit b (i + j))"
proof (induction b i ks rule: collect_part.induct)
  case (2 b i x xs)
  have "(\<exists>j < length (x # xs). (x # xs) ! j = k \<and> index_bit b (i + j)) \<longleftrightarrow>
      (x = k \<and> index_bit b i) \<or> (\<exists>j < length xs. xs ! j = k \<and> index_bit b (i + 1 + j))"
    by (auto simp: less_Suc_eq_0_disj)
  moreover have "set (collect_part b (i + 1) xs) \<subseteq> set xs" by (rule collect_part_subset)
  ultimately show ?case using 2 by auto
qed simp

lemma collect_part_sorted: "sorted_wrt (<) ks \<Longrightarrow> sorted_wrt (<) (collect_part b i ks)"
  by (induction b i ks rule: collect_part.induct) (auto dest: subsetD [OF collect_part_subset])

lemma find_index_Some: "find_index k ks = Some i \<Longrightarrow> i < length ks \<and> ks ! i = k"
  by (induction ks arbitrary: i) (auto split: if_splits)

lemma find_index_None: "find_index k ks = None \<longleftrightarrow> k \<notin> set ks"
  by (induction ks) auto

lemma CryptoMultiVerify_part:
  "CryptoMultiVerify env keys X M vchSig = Some part \<Longrightarrow> part = CryptoMultiPartKey keys vchSig"
  by (auto simp: CryptoMultiVerify_def CryptoMultiPartKey_def Let_def split: if_splits)

lemma CryptoMultiPartKey_subset: "set (CryptoMultiPartKey keys vchSig) \<subseteq> set keys"
  using collect_part_subset by (auto simp: CryptoMultiPartKey_def)

text \<open>Signing marks the signer as a participant and no one else.\<close>

lemma index_bit_set:
  assumes "j div 8 < n" "i div 8 < n" "n \<le> length b"
  shows "index_bit ((take n b)[j div 8 := bit_or (b ! (j div 8)) (push_bit (j mod 8) 1)] @ t) i \<longleftrightarrow>
    i = j \<or> index_bit b i"
proof (cases "i div 8 = j div 8")
  case True
  have bit1: "bit (bit_or w (push_bit m 1) :: uint8) k \<longleftrightarrow> k = m \<or> bit w k" if "m < 8" "k < 8" for w m k
    using that by (auto simp: bit_or_iff bit_exp_iff)
  have "i = j \<longleftrightarrow> i mod 8 = j mod 8" using True by (metis div_mult_mod_eq)
  with True assms show ?thesis
    by (auto simp: index_bit_iff nth_append bit1 simp del: push_bit_of_1)
next
  case False
  with assms show ?thesis by (auto simp: index_bit_iff nth_append)
qed

lemma div8_nIndexLen: "i < length keys \<Longrightarrow> i div 8 < nIndexLen keys"
  unfolding nIndexLen_def using div_le_mono [of i "length keys - 1" 8] by simp

lemma CryptoMultiSign_part:
  assumes sign: "CryptoMultiSign env keys pubkey X M vchSig = (True, sig)"
    and keys: "sorted_wrt (<) keys"
    and share: "\<And>K P X M r. length (env_multiadd env K P X M r) = 64" "\<And>r. length (env_multirepack env r) = 64"
  shows "length sig = nIndexLen keys + 64 \<and>
    set (CryptoMultiPartKey keys sig) = insert pubkey (set (CryptoMultiPartKey keys vchSig))"
proof -
  define n where "n = nIndexLen keys"
  define buf where "buf = (if vchSig = [] then replicate (n + 64) 0 else vchSig)"
  have ne: "keys \<noteq> []" using sign by (auto simp: CryptoMultiSign_def)
  have lenv: "vchSig \<noteq> [] \<Longrightarrow> length vchSig = n + 64"
    using sign by (auto simp: CryptoMultiSign_def n_def Let_def split: if_splits)
  then have lenb: "length buf = n + 64" by (simp add: buf_def)
  obtain j where j: "find_index pubkey keys = Some j"
    using sign by (auto simp: CryptoMultiSign_def Let_def split: if_splits option.splits)
  note jk = find_index_Some [OF j]
  have jn: "j div 8 < n" unfolding n_def using jk by (simp add: div8_nIndexLen)
  have sig: "sig = (if index_bit buf j then take n buf @ env_multirepack env (drop n buf)
      else (take n buf)[j div 8 := bit_or (buf ! (j div 8)) (push_bit (j mod 8) 1)]
        @ env_multiadd env keys pubkey X M (if vchSig = [] then None else Some (drop n buf)))"
    using sign j unfolding CryptoMultiSign_def Let_def n_def [symmetric] buf_def [symmetric]
    by (auto split: if_splits)
  have len: "length sig = n + 64" using lenb share by (simp add: sig)
  have bits: "index_bit sig i \<longleftrightarrow> i = j \<or> index_bit buf i" if "i < length keys" for i
  proof -
    have i: "i div 8 < n" unfolding n_def using that by (rule div8_nIndexLen)
    show ?thesis
    proof (cases "index_bit buf j")
      case True
      with i lenb show ?thesis by (auto simp: sig index_bit_def nth_append)
    next
      case False
      with index_bit_set [OF jn i] lenb show ?thesis by (simp add: sig)
    qed
  qed
  have dist: "distinct keys" using keys by (simp add: strict_sorted_iff)
  have old: "set (collect_part buf 0 keys) = set (CryptoMultiPartKey keys vchSig)"
  proof (cases "vchSig = []")
    case True
    have "\<not> index_bit buf i" if "i < length keys" for i
      using div8_nIndexLen [OF that] True by (simp add: index_bit_def buf_def n_def)
    then have "k \<notin> set (collect_part buf 0 keys)" for k
      unfolding collect_part_mem [OF dist] by simp
    then have "set (collect_part buf 0 keys) = {}" by (intro equals0I) metis
    with True show ?thesis by (simp add: CryptoMultiPartKey_def)
  next
    case False
    with lenv ne show ?thesis by (simp add: CryptoMultiPartKey_def buf_def n_def)
  qed
  have "k \<in> set (collect_part sig 0 keys) \<longleftrightarrow> k = pubkey \<or> k \<in> set (collect_part buf 0 keys)" for k
    unfolding collect_part_mem [OF dist] using bits jk by auto
  then have "set (collect_part sig 0 keys) = insert pubkey (set (collect_part buf 0 keys))" by auto
  with old len ne show ?thesis by (auto simp: CryptoMultiPartKey_def n_def)
qed

section \<open>A concrete environment\<close>

text \<open>An instance of the external primitives on which the properties are exercised: the digest keeps
  the low 256 bits of its input, and a signature is valid when it starts with the key.\<close>

definition example_env :: crypto_env where
  "example_env = \<lparr>env_hash = \<lambda>b. word_of_nat (le_val b), env_edverify = \<lambda>k _ s. take 32 s = Save_uint k,
     env_point = \<lambda>_. True, env_multieq = \<lambda>_ _ _ _ _. True,
     env_multiadd = \<lambda>_ _ _ _ _. replicate 64 2, env_multirepack = \<lambda>_. replicate 64 2,
     env_mapcount = 1, env_base64dec = Some\<rparr>"

section \<open>Properties\<close>

text \<open>Property C28: adding a share to a multi-signature marks exactly one more key of the set as a
  participant, the signer, and gives a signature of the length the verifier expects.\<close>

theorem multisign_adds_participant:
  assumes "CryptoMultiSign env keys pubkey X M vchSig = (True, sig)" and "sorted_wrt (<) keys"
    and "\<forall>K P X M r. length (env_multiadd env K P X M r) = 64" and "\<forall>r. length (env_multirepack env r) = 64"
  shows "length sig = nIndexLen keys + 64
    \<and> set (CryptoMultiPartKey keys sig) = insert pubkey (set (CryptoMultiPartKey keys vchSig))"
  using assms by (intro CryptoMultiSign_part) auto

theorem multisign_adds_participant_witness:
  "\<exists>sig. CryptoMultiSign example_env [3, 5, 9] 5 [] [] [] = (True, sig) \<and> length sig = 65
     \<and> set (CryptoMultiPartKey [3, 5, 9] sig) = {5}"
proof -
  have s: "CryptoMultiSign example_env [3, 5, 9] 5 [] [] [] = (True, 2 # replicate 64 2)"
    by (simp add: CryptoMultiSign_def example_env_def nIndexLen_def index_bit_def)
  show ?thesis
    using multisign_adds_participant [OF s] s
    by (simp add: example_env_def nIndexLen_def CryptoMultiPartKey_def)
qed

end
