(* ===== verification/Template.thy ===== *)
theory Template
  imports Destination Crypto
begin

text \<open>
  Address templates, \<^verbatim>\<open>src/common/template/\<close>: the base class \<^verbatim>\<open>CTemplate\<close>, the weighted, multisig, fork,
  proof and delegate templates, the mint interface, the categories of \<^verbatim>\<open>catagory.h\<close>, and the signature
  checks of \<^verbatim>\<open>CDestination\<close> that dispatch to them.

  A template object is the record \<open>CTemplate\<close>; the concrete class is the constructor of its
  parameters (\<^verbatim>\<open>CTemplateMultiSig\<close> inherits data and checks of \<^verbatim>\<open>CTemplateWeighted\<close> and differs in
  \<^verbatim>\<open>nType\<close>).  \<^verbatim>\<open>CDestination::VerifyTxSignature\<close> and the template checks call each other; the model
  is a pair of mutually recursive functions that terminates because every template consumes a
  non-empty prefix of the signature.
\<close>

abbreviation (input) TEMPLATE_MIN :: uint16 where "TEMPLATE_MIN \<equiv> 0"
abbreviation (input) TEMPLATE_WEIGHTED :: uint16 where "TEMPLATE_WEIGHTED \<equiv> 1"
abbreviation (input) TEMPLATE_MULTISIG :: uint16 where "TEMPLATE_MULTISIG \<equiv> 2"
abbreviation (input) TEMPLATE_FORK :: uint16 where "TEMPLATE_FORK \<equiv> 3"
abbreviation (input) TEMPLATE_PROOF :: uint16 where "TEMPLATE_PROOF \<equiv> 4"
abbreviation (input) TEMPLATE_DELEGATE :: uint16 where "TEMPLATE_DELEGATE \<equiv> 5"
abbreviation (input) TEMPLATE_MAX :: uint16 where "TEMPLATE_MAX \<equiv> 6"

abbreviation (input) MAX_KEY_NUMBER :: nat where "MAX_KEY_NUMBER \<equiv> 16"

datatype TemplateParam =
    Weighted (tp_nRequired: uint8) (tp_mapPubKeyWeight: "(uint256, uint8) omap")
  | Fork (tp_destRedeem: CDestination) (tp_hashFork: uint256)
  | Proof (tp_keyMint: uint256) (tp_destSpend: CDestination)
  | Delegate (tp_keyDelegate: uint256) (tp_destOwner: CDestination)

record CTemplate =
  tpl_nType :: uint16
  tpl_nId :: uint256
  tpl_vchData :: bytes
  tpl_param :: TemplateParam

section \<open>Types and categories\<close>

definition GetTypeInfoByType :: "uint16 \<Rightarrow> string option" where
  "GetTypeInfoByType t =
     (if t = TEMPLATE_WEIGHTED then Some ''weighted''
      else if t = TEMPLATE_MULTISIG then Some ''multisig''
      else if t = TEMPLATE_FORK then Some ''fork''
      else if t = TEMPLATE_PROOF then Some ''mint''
      else if t = TEMPLATE_DELEGATE then Some ''delegate''
      else None)"

definition IsValidType :: "uint16 \<Rightarrow> bool" where
  "IsValidType t \<longleftrightarrow> t > TEMPLATE_MIN \<and> t < TEMPLATE_MAX"

definition GetTypeName :: "uint16 \<Rightarrow> string" where
  "GetTypeName t = (case GetTypeInfoByType t of Some s \<Rightarrow> s | None \<Rightarrow> [])"

definition IsTxSpendable :: "CDestination \<Rightarrow> bool" where
  "IsTxSpendable d =
     (if dest_IsPubKey d then True
      else if dest_IsTemplate d then
        (let t = GetType (dest_GetTemplateId d) in t = TEMPLATE_WEIGHTED \<or> t = TEMPLATE_MULTISIG)
      else False)"

definition IsDestInRecorded :: "CDestination \<Rightarrow> bool" where
  "IsDestInRecorded d \<longleftrightarrow> dest_IsTemplate d \<and> GetType (dest_GetTemplateId d) = TEMPLATE_DELEGATE"

definition IsLockedCoin :: "CDestination \<Rightarrow> bool" where
  "IsLockedCoin d \<longleftrightarrow> dest_IsTemplate d \<and> GetType (dest_GetTemplateId d) = TEMPLATE_FORK"

definition RecordDestIn :: "CDestination \<Rightarrow> bytes \<Rightarrow> bytes" where
  "RecordDestIn destIn vchPreSig = Save_dest destIn @ vchPreSig"

definition ParseDestIn :: "bytes \<Rightarrow> (CDestination \<times> bytes) option" where
  "ParseDestIn vchSig =
     (case IDS_dest vchSig of Inl e \<Rightarrow> None | Inr (d, _) \<Rightarrow> Some (d, drop DESTINATION_SIZE vchSig))"

text \<open>The mortgage of a fork, halved every \<^verbatim>\<open>MORTGAGE_DECAY_CYCLE\<close> blocks.  The product of the base with
  a power of one half is exact in \<^verbatim>\<open>double\<close>, and the conversion truncates.\<close>

definition LockedCoin :: "int \<Rightarrow> int" where
  "LockedCoin nForkHeight =
     (if 0 \<le> nForkHeight then 10000000000 div 2 ^ nat (nForkHeight div 525600)
      else 10000000000 * 2 ^ nat ((- nForkHeight) div 525600))"

section \<open>Template data\<close>

definition ds_result :: "ds_error + ('a \<times> bytes) \<Rightarrow> 'a option" where
  "ds_result r = (case r of Inl e \<Rightarrow> None | Inr (x, _) \<Rightarrow> Some x)"

definition Weighted_SetTemplateData :: "crypto_env \<Rightarrow> bytes \<Rightarrow> TemplateParam option" where
  "Weighted_SetTemplateData env vch =
     ds_result (ebind (IDS_uint vch) (\<lambda>(req, r).
       ebind (IDS_map (env_mapcount env) IDS_uint IDS_uint r) (\<lambda>(m, r'). Inr (Weighted req m, r'))))"

definition Fork_SetTemplateData :: "bytes \<Rightarrow> TemplateParam option" where
  "Fork_SetTemplateData vch =
     ds_result (ebind (IDS_dest vch) (\<lambda>(d, r). ebind (IDS_uint r) (\<lambda>(h, r'). Inr (Fork d h, r'))))"

definition Proof_SetTemplateData :: "bytes \<Rightarrow> TemplateParam option" where
  "Proof_SetTemplateData vch =
     ds_result (ebind (IDS_uint vch) (\<lambda>(k, r). ebind (IDS_dest r) (\<lambda>(d, r'). Inr (Proof k d, r'))))"

definition Delegate_SetTemplateData :: "bytes \<Rightarrow> TemplateParam option" where
  "Delegate_SetTemplateData vch =
     ds_result (ebind (IDS_uint vch) (\<lambda>(k, r). ebind (IDS_dest r) (\<lambda>(d, r'). Inr (Delegate k d, r'))))"

definition SetTemplateData :: "crypto_env \<Rightarrow> uint16 \<Rightarrow> bytes \<Rightarrow> TemplateParam option" where
  "SetTemplateData env t vch =
     (if t = TEMPLATE_WEIGHTED \<or> t = TEMPLATE_MULTISIG then Weighted_SetTemplateData env vch
      else if t = TEMPLATE_FORK then Fork_SetTemplateData vch
      else if t = TEMPLATE_PROOF then Proof_SetTemplateData vch
      else if t = TEMPLATE_DELEGATE then Delegate_SetTemplateData vch
      else None)"

definition Weighted_ValidateParam :: "uint8 \<Rightarrow> (uint256, uint8) omap \<Rightarrow> bool" where
  "Weighted_ValidateParam req m =
     (if req = 0 then False
      else if length m \<le> 1 \<or> length m > MAX_KEY_NUMBER then False
      else if \<exists>p \<in> set m. snd p = 0 then False
      else \<not> sum_list (map (unat \<circ> snd) m) < unat req)"

fun ValidateParam :: "TemplateParam \<Rightarrow> bool" where
  "ValidateParam (Weighted req m) = Weighted_ValidateParam req m"
| "ValidateParam (Fork d h) = (IsTxSpendable d \<and> h \<noteq> 0)"
| "ValidateParam (Proof k d) = (k \<noteq> 0 \<and> IsTxSpendable d)"
| "ValidateParam (Delegate k d) = (k \<noteq> 0 \<and> IsTxSpendable d)"

fun BuildTemplateData :: "crypto_env \<Rightarrow> TemplateParam \<Rightarrow> bytes" where
  "BuildTemplateData env (Weighted req m) =
     Save_uint req @ ODS_map (env_mapcount env) Save_uint Save_uint m"
| "BuildTemplateData env (Fork d h) = Save_dest d @ Save_uint h"
| "BuildTemplateData env (Proof k d) = Save_uint k @ Save_dest d"
| "BuildTemplateData env (Delegate k d) = Save_uint k @ Save_dest d"

definition BuildTemplateId :: "crypto_env \<Rightarrow> uint16 \<Rightarrow> bytes \<Rightarrow> uint256" where
  "BuildTemplateId env t vchData = CTemplateId_make t (CryptoHash env vchData)"

text \<open>The common tail of the \<^verbatim>\<open>CreateTemplatePtr\<close> overloads: validate, then build data and id.\<close>

definition finish_template :: "crypto_env \<Rightarrow> uint16 \<Rightarrow> TemplateParam \<Rightarrow> CTemplate option" where
  "finish_template env t p =
     (if \<not> ValidateParam p then None
      else let vch = BuildTemplateData env p
           in Some \<lparr>tpl_nType = t, tpl_nId = BuildTemplateId env t vch, tpl_vchData = vch, tpl_param = p\<rparr>)"

definition CreateTemplatePtr :: "crypto_env \<Rightarrow> uint16 \<Rightarrow> bytes \<Rightarrow> CTemplate option" where
  "CreateTemplatePtr env t vchDataIn =
     (case GetTypeInfoByType t of
        None \<Rightarrow> None
      | Some _ \<Rightarrow> (case SetTemplateData env t vchDataIn of None \<Rightarrow> None | Some p \<Rightarrow> finish_template env t p))"

definition Import :: "crypto_env \<Rightarrow> bytes \<Rightarrow> CTemplate option" where
  "Import env v =
     (if length v < 2 then None
      else CreateTemplatePtr env (bit_or (ucast (v ! 0)) (push_bit 8 (ucast (v ! 1)))) (drop 2 v))"

definition Export :: "CTemplate \<Rightarrow> bytes" where
  "Export t = [ucast (bit_and (tpl_nType t) 0xff), ucast (drop_bit 8 (tpl_nType t))] @ tpl_vchData t"

definition VerifyTemplateData :: "CTemplate \<Rightarrow> bytes \<Rightarrow> bool" where
  "VerifyTemplateData t vchSig \<longleftrightarrow>
     length vchSig \<ge> length (tpl_vchData t) \<and> tpl_vchData t = take (length (tpl_vchData t)) vchSig"

section \<open>Signature checks\<close>

text \<open>\<^verbatim>\<open>fCompleted\<close> is passed in and returned; a check that fails leaves it as it was.\<close>

definition Weighted_VerifyTxSignature ::
  "crypto_env \<Rightarrow> uint8 \<Rightarrow> (uint256, uint8) omap \<Rightarrow> uint256 \<Rightarrow> uint256 \<Rightarrow> bytes \<Rightarrow> bool \<Rightarrow> bool \<times> bool" where
  "Weighted_VerifyTxSignature env req m hash hashAnchor vchSig fCompleted =
     (case CryptoMultiVerify env (map fst m) (Save_uint hashAnchor) (Save_uint hash) vchSig of
        None \<Rightarrow> (False, fCompleted)
      | Some part \<Rightarrow>
          let nWeight = sum_list (map (\<lambda>k. case om_get m k of Some w \<Rightarrow> unat w | None \<Rightarrow> 0) part)
          in (True, nWeight \<ge> unat req))"

lemma IDS_uint_length:
  "IDS_uint s = Inr ((w :: 'a::len word), r) \<Longrightarrow> length s = LENGTH('a) div 8 + length r"
  by (auto simp: IDS_uint_def IDS_Pop_def sizeof_uint_def split: if_splits)

lemma IDS_dest_length: "IDS_dest s = Inr (d, r) \<Longrightarrow> length s = DESTINATION_SIZE + length r"
  by (auto simp: IDS_dest_def ebind_eq_Inr dest!: IDS_uint_length)

lemma length_om_set_fresh: "\<not> om_has m k \<Longrightarrow> length (om_set k v m) = Suc (length m)"
  by (induction m) (auto simp: om_has_def split: if_splits)

lemma IDS_map_n_length:
  "IDS_map_n IDS_uint IDS_uint n m s = Inr ((m' :: (uint256, uint8) omap), r) \<Longrightarrow>
   length s = 33 * n + length r \<and> length m' = length m + n"
proof (induction n arbitrary: m s)
  case (Suc n)
  then obtain k v s1 s2 where "IDS_uint s = Inr (k, s1)" "IDS_uint s1 = Inr (v, s2)" "\<not> om_has m k"
    and "IDS_map_n IDS_uint IDS_uint n (om_set k v m) s2 = Inr (m', r)"
    by (auto simp: ebind_eq_Inr split: if_splits)
  with Suc.IH [of "om_set k v m" s2] IDS_uint_length [of s k s1] IDS_uint_length [of s1 v s2]
  show ?case by (simp add: length_om_set_fresh)
qed simp

lemma length_ODS_map:
  "length (ODS_map cw Save_uint Save_uint (m :: (uint256, uint8) omap)) = cw + 33 * length m"
proof -
  have "length (concat (map (\<lambda>(k, v). Save_uint k @ Save_uint v) (m :: (uint256, uint8) omap))) = 33 * length m"
    by (induction m) (auto simp: length_Save_uint)
  then show ?thesis by (simp add: ODS_map_def)
qed

text \<open>The readers inside \<^verbatim>\<open>SetTemplateData\<close>, with what they leave unread.\<close>

definition template_reader :: "crypto_env \<Rightarrow> uint16 \<Rightarrow> TemplateParam ds_reader" where
  "template_reader env t =
     (if t = TEMPLATE_WEIGHTED \<or> t = TEMPLATE_MULTISIG then
        (\<lambda>s. ebind (IDS_uint s) (\<lambda>(req, r). ebind (IDS_map (env_mapcount env) IDS_uint IDS_uint r) (\<lambda>(m, r'). Inr (Weighted req m, r'))))
      else if t = TEMPLATE_FORK then (\<lambda>s. ebind (IDS_dest s) (\<lambda>(d, r). ebind (IDS_uint r) (\<lambda>(h, r'). Inr (Fork d h, r'))))
      else if t = TEMPLATE_PROOF then (\<lambda>s. ebind (IDS_uint s) (\<lambda>(k, r). ebind (IDS_dest r) (\<lambda>(d, r'). Inr (Proof k d, r'))))
      else if t = TEMPLATE_DELEGATE then (\<lambda>s. ebind (IDS_uint s) (\<lambda>(k, r). ebind (IDS_dest r) (\<lambda>(d, r'). Inr (Delegate k d, r'))))
      else (\<lambda>_. Inl OutOfRange))"

lemma SetTemplateData_reader: "SetTemplateData env t s = ds_result (template_reader env t s)"
  by (simp add: SetTemplateData_def template_reader_def Weighted_SetTemplateData_def Fork_SetTemplateData_def
      Proof_SetTemplateData_def Delegate_SetTemplateData_def ds_result_def)

lemma SetTemplateData_Some: "SetTemplateData env t s = Some p \<longleftrightarrow> (\<exists>r. template_reader env t s = Inr (p, r))"
  by (auto simp: SetTemplateData_reader ds_result_def split: sum.splits)

lemma template_reader_length:
  assumes "template_reader env t s = Inr (p, r)"
  shows "length s = length (BuildTemplateData env p) + length r" "BuildTemplateData env p \<noteq> []"
proof -
  have "length s = length (BuildTemplateData env p) + length r \<and> 0 < length (BuildTemplateData env p)"
  proof (cases p)
    case (Weighted req m)
    then obtain r1 b r2 where "IDS_uint s = Inr (req, r1)" "IDS_Pop (env_mapcount env) r1 = Inr (b, r2)"
      "IDS_map_n IDS_uint IDS_uint (le_val b) [] r2 = Inr (m, r)"
      using assms by (auto simp: template_reader_def IDS_map_def ebind_eq_Inr split: if_splits)
    moreover from this(2) have "length r1 = env_mapcount env + length r2"
      by (auto simp: IDS_Pop_def split: if_splits)
    ultimately show ?thesis
      using IDS_uint_length [of s req r1] IDS_map_n_length [of "le_val b" "[]" r2 m r]
      by (simp add: Weighted length_ODS_map length_Save_uint)
  qed (use assms in \<open>auto simp: template_reader_def ebind_eq_Inr length_Save_uint dest.save_size
         dest!: IDS_uint_length IDS_dest_length split: if_splits\<close>)
  then show "length s = length (BuildTemplateData env p) + length r" "BuildTemplateData env p \<noteq> []" by auto
qed

lemma SetTemplateData_length:
  "SetTemplateData env t vch = Some p \<Longrightarrow>
   length (BuildTemplateData env p) \<le> length vch \<and> BuildTemplateData env p \<noteq> []"
  by (auto simp: SetTemplateData_Some dest: template_reader_length)

lemma CreateTemplatePtr_length:
  "CreateTemplatePtr env t vch = Some ptr \<Longrightarrow>
   length (tpl_vchData ptr) \<le> length vch \<and> tpl_vchData ptr \<noteq> []"
  by (auto simp: CreateTemplatePtr_def finish_template_def Let_def
      split: option.splits if_splits dest: SetTemplateData_length)

function dest_VerifyTxSignature ::
    "crypto_env \<Rightarrow> CDestination \<Rightarrow> uint256 \<Rightarrow> uint256 \<Rightarrow> CDestination \<Rightarrow> bytes \<Rightarrow> bool \<Rightarrow> bool \<times> bool"
  and CTemplate_VerifyTxSignature ::
    "crypto_env \<Rightarrow> uint256 \<Rightarrow> uint256 \<Rightarrow> uint256 \<Rightarrow> CDestination \<Rightarrow> bytes \<Rightarrow> bool \<Rightarrow> bool \<times> bool"
  and tpl_VerifyTxSignature ::
    "crypto_env \<Rightarrow> CTemplate \<Rightarrow> uint256 \<Rightarrow> uint256 \<Rightarrow> CDestination \<Rightarrow> bytes \<Rightarrow> bool \<Rightarrow> bool \<times> bool"
where
  "dest_VerifyTxSignature env d hash hashAnchor destTo vchSig fCompleted =
     (if dest_IsPubKey d then (let v = CPubKey_Verify env (dest_GetPubKey d) hash vchSig in (v, v))
      else if dest_IsTemplate d then
        CTemplate_VerifyTxSignature env (dest_GetTemplateId d) hash hashAnchor destTo vchSig fCompleted
      else (False, fCompleted))"
| "CTemplate_VerifyTxSignature env nIdIn hash hashAnchor destTo vchSig fCompleted =
     (case CreateTemplatePtr env (GetType nIdIn) vchSig of
        None \<Rightarrow> (False, fCompleted)
      | Some ptr \<Rightarrow>
          if tpl_nId ptr \<noteq> nIdIn then (False, fCompleted)
          else tpl_VerifyTxSignature env ptr hash hashAnchor destTo
                 (drop (length (tpl_vchData ptr)) vchSig) fCompleted)"
| "tpl_VerifyTxSignature env ptr hash hashAnchor destTo vchSig fCompleted =
     (case tpl_param ptr of
        Weighted req m \<Rightarrow> Weighted_VerifyTxSignature env req m hash hashAnchor vchSig fCompleted
      | Fork destRedeem _ \<Rightarrow> dest_VerifyTxSignature env destRedeem hash hashAnchor destTo vchSig fCompleted
      | Proof _ destSpend \<Rightarrow> dest_VerifyTxSignature env destSpend hash hashAnchor destTo vchSig fCompleted
      | Delegate keyDelegate _ \<Rightarrow>
          if dest_GetTemplateId destTo = tpl_nId ptr
          then dest_VerifyTxSignature env (dest_pubkey keyDelegate) hash hashAnchor destTo vchSig fCompleted
          else dest_VerifyTxSignature env destTo hash hashAnchor destTo vchSig fCompleted)"
  by pat_completeness auto
termination
proof (relation "measure (\<lambda>x. case x of
      Inl (_, _, _, _, _, s, _) \<Rightarrow> 3 * length s + 1
    | Inr (Inl (_, _, _, _, _, s, _)) \<Rightarrow> 3 * length s
    | Inr (Inr (_, _, _, _, _, s, _)) \<Rightarrow> 3 * length s + 2)", goal_cases)
  case (3 env nIdIn hash hashAnchor destTo vchSig fCompleted ptr)
  then have "0 < length (tpl_vchData ptr)" "length (tpl_vchData ptr) \<le> length vchSig"
    using CreateTemplatePtr_length [of env "GetType nIdIn" vchSig ptr] by simp_all
  then have "3 * (length vchSig - length (tpl_vchData ptr)) + 2 < 3 * length vchSig" by linarith
  then show ?case by simp
qed auto

declare dest_VerifyTxSignature.simps [simp del] CTemplate_VerifyTxSignature.simps [simp del]
  tpl_VerifyTxSignature.simps [simp del]

definition dest_VerifyTx ::
  "crypto_env \<Rightarrow> CDestination \<Rightarrow> uint256 \<Rightarrow> uint256 \<Rightarrow> CDestination \<Rightarrow> bytes \<Rightarrow> bool" where
  "dest_VerifyTx env d hash hashAnchor destTo vchSig =
     (let (ret, fCompleted) = dest_VerifyTxSignature env d hash hashAnchor destTo vchSig False
      in ret \<and> fCompleted)"

fun tpl_VerifyBlockSignature :: "crypto_env \<Rightarrow> TemplateParam \<Rightarrow> uint256 \<Rightarrow> bytes \<Rightarrow> bool" where
  "tpl_VerifyBlockSignature env (Proof keyMint _) hash vchSig = CPubKey_Verify env keyMint hash vchSig"
| "tpl_VerifyBlockSignature env (Delegate keyDelegate _) hash vchSig = CPubKey_Verify env keyDelegate hash vchSig"
| "tpl_VerifyBlockSignature env _ hash vchSig = False"

definition CTemplateMint_VerifyBlockSignature :: "crypto_env \<Rightarrow> uint256 \<Rightarrow> uint256 \<Rightarrow> bytes \<Rightarrow> bool" where
  "CTemplateMint_VerifyBlockSignature env nIdIn hash vchSig =
     (let nType = GetType nIdIn in
      if nType \<noteq> TEMPLATE_PROOF \<and> nType \<noteq> TEMPLATE_DELEGATE then False
      else case CreateTemplatePtr env nType vchSig of
        None \<Rightarrow> False
      | Some ptr \<Rightarrow>
          tpl_VerifyBlockSignature env (tpl_param ptr) hash (drop (length (tpl_vchData ptr)) vchSig))"

definition dest_VerifyBlockSignature :: "crypto_env \<Rightarrow> CDestination \<Rightarrow> uint256 \<Rightarrow> bytes \<Rightarrow> bool" where
  "dest_VerifyBlockSignature env d hash vchSig =
     (if dest_IsPubKey d then CPubKey_Verify env (dest_GetPubKey d) hash vchSig
      else if dest_IsTemplate d then CTemplateMint_VerifyBlockSignature env (dest_GetTemplateId d) hash vchSig
      else False)"

section \<open>Building signatures\<close>

text \<open>Results: the returned flag, the signature buffer, and \<^verbatim>\<open>fCompleted\<close>.\<close>

definition BuildTxSignature ::
  "crypto_env \<Rightarrow> CTemplate \<Rightarrow> uint256 \<Rightarrow> uint256 \<Rightarrow> CDestination \<Rightarrow> bytes \<Rightarrow> bool \<Rightarrow> bool \<times> bytes \<times> bool" where
  "BuildTxSignature env t hash hashAnchor destTo vchPreSig fCompleted =
     (let vchSig = tpl_vchData t;
          (ok, fc) = tpl_VerifyTxSignature env t hash hashAnchor destTo vchPreSig fCompleted
      in if \<not> ok then (False, vchSig, fc) else (True, vchSig @ vchPreSig, fc))"

definition BuildBlockSignature :: "crypto_env \<Rightarrow> CTemplate \<Rightarrow> uint256 \<Rightarrow> bytes \<Rightarrow> bool \<times> bytes" where
  "BuildBlockSignature env t hash vchPreSig =
     (let vchSig = tpl_vchData t
      in if \<not> tpl_VerifyBlockSignature env (tpl_param t) hash vchPreSig then (False, vchSig)
         else (True, vchSig @ vchPreSig))"

definition BuildVssSignature :: "crypto_env \<Rightarrow> CTemplate \<Rightarrow> uint256 \<Rightarrow> bytes \<Rightarrow> bytes option" where
  "BuildVssSignature env t hash vchVssSig =
     (if \<not> CPubKey_Verify env (tp_keyDelegate (tpl_param t)) hash vchVssSig then None
      else Some (Save_dest (dest_template (tpl_nId t)) @ tpl_vchData t @ vchVssSig))"

text \<open>\<^verbatim>\<open>GetSignDestination\<close>: the destinations whose signatures the template needs, as an increasing list,
  and the signature without the template data.  The delegate template refuses at its first line.\<close>

definition base_GetSignDestination :: "CTemplate \<Rightarrow> bytes \<Rightarrow> bytes \<Rightarrow> bytes option" where
  "base_GetSignDestination t vchSig vchSubSig =
     (if vchSig \<noteq> [] then
        (if length vchSig < length (tpl_vchData t) then None
         else Some (drop (length (tpl_vchData t)) vchSig))
      else Some vchSubSig)"

definition GetSignDestination :: "CTemplate \<Rightarrow> bytes \<Rightarrow> bytes \<Rightarrow> (CDestination list \<times> bytes) option" where
  "GetSignDestination t vchSig vchSubSig =
     (case tpl_param t of
        Weighted _ m \<Rightarrow> map_option (Pair (map (dest_pubkey \<circ> fst) m)) (base_GetSignDestination t vchSig vchSubSig)
      | Fork destRedeem _ \<Rightarrow> map_option (Pair [destRedeem]) (base_GetSignDestination t vchSig vchSubSig)
      | Proof _ destSpend \<Rightarrow> map_option (Pair [destSpend]) (base_GetSignDestination t vchSig vchSubSig)
      | Delegate _ _ \<Rightarrow> None)"

section \<open>Templates from requests\<close>

text \<open>The arguments are the fields of the request object and the \<^verbatim>\<open>ParseString\<close> of the destination
  instance handed in.\<close>

type_synonym dest_parser = "CDestination \<Rightarrow> string \<Rightarrow> bool \<times> CDestination"

fun insert_pubkeys ::
  "dest_parser \<Rightarrow> CDestination \<Rightarrow> (string \<times> int) list \<Rightarrow> (uint256, uint8) omap \<Rightarrow> (uint256, uint8) omap option" where
  "insert_pubkeys parse d [] m = Some m"
| "insert_pubkeys parse d ((strKey, nWeight) # ks) m =
     (let (ok, d') = dest_SetPubKey parse d strKey in
      if \<not> ok then None
      else if nWeight < 1 \<or> nWeight > 255 then None
      else insert_pubkeys parse d' ks (om_ins (dest_GetPubKey d') (word_of_int nWeight) m))"

definition Weighted_SetRequest ::
  "dest_parser \<Rightarrow> CDestination \<Rightarrow> string \<Rightarrow> int \<Rightarrow> (string \<times> int) list \<Rightarrow> TemplateParam option" where
  "Weighted_SetRequest parse d strType nRequired vecPubkeys =
     (if strType \<noteq> GetTypeName TEMPLATE_WEIGHTED then None
      else if nRequired < 1 \<or> nRequired > 255 then None
      else case insert_pubkeys parse d vecPubkeys [] of
        None \<Rightarrow> None
      | Some m \<Rightarrow> if length m \<noteq> length vecPubkeys then None else Some (Weighted (word_of_int nRequired) m))"

definition MultiSig_SetRequest ::
  "dest_parser \<Rightarrow> CDestination \<Rightarrow> string \<Rightarrow> int \<Rightarrow> string list \<Rightarrow> TemplateParam option" where
  "MultiSig_SetRequest parse d strType nRequired vecPubkeys =
     (if strType \<noteq> GetTypeName TEMPLATE_MULTISIG then None
      else if nRequired < 1 \<or> nRequired > 255 then None
      else case insert_pubkeys parse d (map (\<lambda>k. (k, 1)) vecPubkeys) [] of
        None \<Rightarrow> None
      | Some m \<Rightarrow> if length m \<noteq> length vecPubkeys then None else Some (Weighted (word_of_int nRequired) m))"

definition Fork_SetRequest :: "dest_parser \<Rightarrow> CDestination \<Rightarrow> string \<Rightarrow> string \<Rightarrow> string \<Rightarrow> TemplateParam option" where
  "Fork_SetRequest parse d strType strRedeem strFork =
     (if strType \<noteq> GetTypeName TEMPLATE_FORK then None
      else let (ok, d') = parse d strRedeem in
        if \<not> ok then None
        else let (len, h) = SetHex strFork in if len \<noteq> length strFork then None else Some (Fork d' h))"

definition Proof_SetRequest :: "dest_parser \<Rightarrow> CDestination \<Rightarrow> string \<Rightarrow> string \<Rightarrow> string \<Rightarrow> TemplateParam option" where
  "Proof_SetRequest parse d strType strMint strSpent =
     (if strType \<noteq> GetTypeName TEMPLATE_PROOF then None
      else let (ok, d1) = dest_SetPubKey parse d strMint in
        if \<not> ok then None
        else let (ok2, d2) = parse d1 strSpent in if \<not> ok2 then None else Some (Proof (dest_GetPubKey d1) d2))"

definition Delegate_SetRequest :: "dest_parser \<Rightarrow> CDestination \<Rightarrow> string \<Rightarrow> string \<Rightarrow> string \<Rightarrow> TemplateParam option" where
  "Delegate_SetRequest parse d strType strDelegate strOwner =
     (if strType \<noteq> GetTypeName TEMPLATE_DELEGATE then None
      else let (ok, d1) = dest_SetPubKey parse d strDelegate in
        if \<not> ok then None
        else let (ok2, d2) = parse d1 strOwner in if \<not> ok2 then None else Some (Delegate (dest_GetPubKey d1) d2))"

section \<open>Template data is self-delimiting\<close>

definition map_params_ok :: "crypto_env \<Rightarrow> bool" where
  "map_params_ok env \<longleftrightarrow> env_mapcount env = 1 \<or> env_mapcount env = 8"

interpretation weightkeys: ds_codec_pair Save_uint "IDS_uint :: uint256 ds_reader" "\<lambda>_. True"
  Save_uint "IDS_uint :: uint8 ds_reader" "\<lambda>_. True"
  by unfold_locales

lemma IDS_map_n_wf: "IDS_map_n lk lv n m s = Inr (m', r) \<Longrightarrow> om_wf m \<Longrightarrow> om_wf m'"
proof (induction n arbitrary: m s)
  case (Suc n)
  then show ?case by (auto simp: ebind_eq_Inr split: if_splits)
qed simp

fun param_ok :: "TemplateParam \<Rightarrow> bool" where
  "param_ok (Weighted req m) = (om_wf m \<and> length m \<le> MAX_KEY_NUMBER)"
| "param_ok _ = True"

definition param_type :: "TemplateParam \<Rightarrow> uint16 \<Rightarrow> bool" where
  "param_type p t = (case p of Weighted _ _ \<Rightarrow> t = TEMPLATE_WEIGHTED \<or> t = TEMPLATE_MULTISIG
     | Fork _ _ \<Rightarrow> t = TEMPLATE_FORK | Proof _ _ \<Rightarrow> t = TEMPLATE_PROOF | Delegate _ _ \<Rightarrow> t = TEMPLATE_DELEGATE)"

lemmas SetTemplateData_defs = SetTemplateData_def Weighted_SetTemplateData_def Fork_SetTemplateData_def
  Proof_SetTemplateData_def Delegate_SetTemplateData_def ds_result_def

lemma SetTemplateData_Build:
  assumes "param_ok p" "param_type p t" "map_params_ok env"
  shows "SetTemplateData env t (BuildTemplateData env p @ rest) = Some p"
proof (cases p)
  case (Weighted req m)
  have "IDS_map (env_mapcount env) IDS_uint IDS_uint (ODS_map (env_mapcount env) Save_uint Save_uint m @ rest) = Inr (m, rest)"
    using assms Weighted
    by (intro ds_codec.read_write [OF weightkeys.ds_map]) (auto simp: map_params_ok_def)
  then show ?thesis
    using assms(2) by (auto simp: Weighted param_type_def SetTemplateData_defs ds8.read_write)
qed (use assms(2) in \<open>simp_all add: param_type_def SetTemplateData_defs dsdest.read_write ds256.read_write\<close>)

lemma SetTemplateData_type: "SetTemplateData env t v = Some p \<Longrightarrow> param_type p t"
  by (auto simp: SetTemplateData_defs param_type_def ebind_eq_Inr split: if_splits sum.splits)

lemma SetTemplateData_wf: "SetTemplateData env t v = Some p \<Longrightarrow> ValidateParam p \<Longrightarrow> param_ok p"
  by (cases p) (auto simp: SetTemplateData_defs IDS_map_def ebind_eq_Inr Weighted_ValidateParam_def
      split: if_splits sum.splits dest: IDS_map_n_wf)

definition template_ok :: "crypto_env \<Rightarrow> CTemplate \<Rightarrow> bool" where
  "template_ok env t \<longleftrightarrow>
     param_ok (tpl_param t) \<and> param_type (tpl_param t) (tpl_nType t) \<and> ValidateParam (tpl_param t) \<and>
     tpl_vchData t = BuildTemplateData env (tpl_param t) \<and>
     tpl_nId t = BuildTemplateId env (tpl_nType t) (tpl_vchData t)"

lemma param_type_known: "param_type p t \<Longrightarrow> GetTypeInfoByType t \<noteq> None"
  by (auto simp: param_type_def GetTypeInfoByType_def split: TemplateParam.splits)

lemma CreateTemplatePtr_ok:
  "CreateTemplatePtr env t v = Some ptr \<Longrightarrow> template_ok env ptr \<and> tpl_nType ptr = t"
  by (auto simp: CreateTemplatePtr_def finish_template_def template_ok_def Let_def
      split: option.splits if_splits dest: SetTemplateData_type SetTemplateData_wf)

lemma CreateTemplatePtr_data:
  assumes "template_ok env ptr" "map_params_ok env"
  shows "CreateTemplatePtr env (tpl_nType ptr) (tpl_vchData ptr @ rest) = Some ptr"
proof -
  have "SetTemplateData env (tpl_nType ptr) (tpl_vchData ptr @ rest) = Some (tpl_param ptr)"
    using assms by (simp add: template_ok_def SetTemplateData_Build)
  then show ?thesis
    using assms(1) param_type_known [of "tpl_param ptr" "tpl_nType ptr"]
    by (auto simp: CreateTemplatePtr_def finish_template_def template_ok_def Let_def split: option.splits)
qed

lemma template_ok_GetType: "template_ok env t \<Longrightarrow> GetType (tpl_nId t) = tpl_nType t"
  by (simp add: template_ok_def BuildTemplateId_def GetType_make)

lemma BuildTxSignature_verifies:
  assumes "template_ok env t" "map_params_ok env"
    and "BuildTxSignature env t hash anchor destTo pre fc = (True, sig, fc')"
  shows "CTemplate_VerifyTxSignature env (tpl_nId t) hash anchor destTo sig fc = (True, fc')"
proof -
  have sig: "sig = tpl_vchData t @ pre"
    and member: "tpl_VerifyTxSignature env t hash anchor destTo pre fc = (True, fc')"
    using assms(3) by (auto simp: BuildTxSignature_def Let_def split: prod.splits if_splits)
  show ?thesis
    unfolding CTemplate_VerifyTxSignature.simps template_ok_GetType [OF assms(1)] sig
    by (simp add: CreateTemplatePtr_data [OF assms(1,2)] member)
qed

lemma Import_Export:
  assumes "template_ok env t" "map_params_ok env"
  shows "Import env (Export t) = Some t"
proof -
  have "bit_or (ucast (ucast (bit_and (tpl_nType t) 0xff) :: uint8)) (push_bit 8 (ucast (ucast (drop_bit 8 (tpl_nType t)) :: uint8))) = tpl_nType t"
  proof (rule bit_word_eqI)
    fix n assume n: "n < LENGTH(16)"
    have "bit_and (tpl_nType t) 0xff = take_bit 8 (tpl_nType t)"
      unfolding take_bit_eq_mask mask_eq_exp_minus_1 by simp
    with n show "bit (bit_or (ucast (ucast (bit_and (tpl_nType t) 0xff) :: uint8)) (push_bit 8 (ucast (ucast (drop_bit 8 (tpl_nType t)) :: uint8))) :: uint16) n = bit (tpl_nType t) n"
      by (auto simp: bit_or_iff bit_ucast_iff bit_take_bit_iff bit_push_bit_iff bit_drop_bit_eq)
  qed
  then show ?thesis
    using CreateTemplatePtr_data [OF assms, of "[]"] by (simp add: Import_def Export_def)
qed

section \<open>What an accepted signature proves\<close>

definition part_weight :: "(uint256, uint8) omap \<Rightarrow> uint256 list \<Rightarrow> nat" where
  "part_weight m part = sum_list (map (\<lambda>k. case om_get m k of Some w \<Rightarrow> unat w | None \<Rightarrow> 0) part)"

text \<open>A reader takes a prefix, whatever follows it.\<close>

definition ds_local :: "'a ds_reader \<Rightarrow> bool" where
  "ds_local rd \<longleftrightarrow> (\<forall>s x r. rd s = Inr (x, r) \<longrightarrow> (\<exists>q. s = q @ r \<and> (\<forall>r'. rd (q @ r') = Inr (x, r'))))"

lemma ds_localE:
  assumes "ds_local rd" and "rd s = Inr (x, r)"
  obtains q where "s = q @ r" "\<forall>r'. rd (q @ r') = Inr (x, r')"
  using assms unfolding ds_local_def by metis

lemma ds_local_bind:
  assumes "ds_local rd" and "\<And>x. ds_local (f x)"
  shows "ds_local (\<lambda>s. ebind (rd s) (\<lambda>(x, r). f x r))"
  unfolding ds_local_def
proof (intro allI impI)
  fix s y r
  assume "ebind (rd s) (\<lambda>(x, r). f x r) = Inr (y, r)"
  then obtain x r1 where 1: "rd s = Inr (x, r1)" and 2: "f x r1 = Inr (y, r)" by (auto simp: ebind_eq_Inr)
  obtain q1 where q1: "s = q1 @ r1" "\<forall>r'. rd (q1 @ r') = Inr (x, r')" using assms(1) 1 by (rule ds_localE)
  obtain q2 where q2: "r1 = q2 @ r" "\<forall>r'. f x (q2 @ r') = Inr (y, r')" using assms(2) [of x] 2 by (rule ds_localE)
  show "\<exists>q. s = q @ r \<and> (\<forall>r'. ebind (rd (q @ r')) (\<lambda>(x, r). f x r) = Inr (y, r'))"
    using q1 q2 by (intro exI [of _ "q1 @ q2"]) simp
qed

lemma ds_local_return: "ds_local (\<lambda>r. Inr (x, r))" "ds_local (\<lambda>r. Inl e)"
  by (simp_all add: ds_local_def)

lemma ds_local_Pop: "ds_local (IDS_Pop n)"
  unfolding ds_local_def
proof (intro allI impI)
  fix s x r
  assume "IDS_Pop n s = Inr (x, r)"
  then have "s = x @ r" "length x = n" by (auto simp: IDS_Pop_def split: if_splits)
  then show "\<exists>q. s = q @ r \<and> (\<forall>r'. IDS_Pop n (q @ r') = Inr (x, r'))"
    by (intro exI [of _ x]) (simp add: IDS_Pop_append)
qed

lemma ds_local_uint: "ds_local IDS_uint"
  unfolding IDS_uint_def [abs_def] by (rule ds_local_bind [OF ds_local_Pop ds_local_return(1)])

lemma ds_local_dest: "ds_local IDS_dest"
  unfolding IDS_dest_def [abs_def] by (intro ds_local_bind ds_local_uint ds_local_return)

lemma ds_local_map_n:
  assumes "ds_local lk" "ds_local lv"
  shows "ds_local (IDS_map_n lk lv n m)"
proof (induction n arbitrary: m)
  case 0
  then show ?case by (simp add: ds_local_def)
next
  case (Suc n)
  have "ds_local (\<lambda>r. if om_has m k then Inl DataConflict else IDS_map_n lk lv n (om_set k v m) r)" for k v
    using Suc.IH by (cases "om_has m k") (simp_all add: ds_local_return(2))
  then have "ds_local (\<lambda>s. ebind (lk s) (\<lambda>(k, r). ebind (lv r) (\<lambda>(v, r').
      if om_has m k then Inl DataConflict else IDS_map_n lk lv n (om_set k v m) r')))"
    by (intro ds_local_bind assms)
  then show ?case by (simp add: fun_eq_iff [symmetric])
qed

lemma ds_local_map: "ds_local lk \<Longrightarrow> ds_local lv \<Longrightarrow> ds_local (IDS_map cw lk lv)"
  unfolding IDS_map_def [abs_def] by (intro ds_local_bind ds_local_Pop ds_local_map_n)

lemma ds_local_template: "ds_local (template_reader env t)"
  unfolding template_reader_def by (simp add: ds_local_return(2)) (intro conjI impI ds_local_bind ds_local_uint ds_local_dest ds_local_map ds_local_return)

text \<open>The bytes describe a template: they have the length of its data and hold its parameters.  They need not be equal to its
  data, since the keys of a weighted template may come in any order.\<close>

definition describes :: "crypto_env \<Rightarrow> CTemplate \<Rightarrow> bytes \<Rightarrow> bool" where
  "describes env t vch \<longleftrightarrow> length vch = length (tpl_vchData t) \<and> SetTemplateData env (tpl_nType t) vch = Some (tpl_param t)"

lemma template_ok_data: "template_ok env t \<Longrightarrow> length (tpl_vchData t) = length (BuildTemplateData env (tpl_param t))"
  by (simp add: template_ok_def)

lemma CreateTemplatePtr_describes:
  assumes "CreateTemplatePtr env ty s = Some t"
  obtains vch r where "s = vch @ r" "describes env t vch" "r = drop (length (tpl_vchData t)) s"
proof -
  have ok: "template_ok env t" "tpl_nType t = ty" using CreateTemplatePtr_ok [OF assms] by auto
  have "SetTemplateData env ty s = Some (tpl_param t)"
    using assms by (auto simp: CreateTemplatePtr_def finish_template_def Let_def split: option.splits if_splits)
  then obtain r where r: "template_reader env ty s = Inr (tpl_param t, r)" by (auto simp: SetTemplateData_Some)
  then obtain vch where v: "s = vch @ r" "\<forall>r'. template_reader env ty (vch @ r') = Inr (tpl_param t, r')"
    by (rule ds_localE [OF ds_local_template])
  have "length vch = length (tpl_vchData t)" using template_reader_length(1) [OF spec [OF v(2), of "[]"]] template_ok_data [OF ok(1)] by simp
  moreover have "SetTemplateData env ty vch = Some (tpl_param t)" using spec [OF v(2), of "[]"] by (auto simp: SetTemplateData_Some)
  ultimately have "describes env t vch" "r = drop (length (tpl_vchData t)) (vch @ r)" using ok(2) by (simp_all add: describes_def)
  then show ?thesis using that [OF v(1)] unfolding v(1) by blast
qed

lemma describes_CreateTemplatePtr:
  assumes "template_ok env t" and "describes env t vch"
  shows "CreateTemplatePtr env (tpl_nType t) (vch @ s) = Some t"
proof -
  obtain r where r: "template_reader env (tpl_nType t) vch = Inr (tpl_param t, r)"
    using assms(2) by (auto simp: describes_def SetTemplateData_Some)
  have "r = []" using template_reader_length(1) [OF r] assms template_ok_data [OF assms(1)] by (simp add: describes_def)
  then have "template_reader env (tpl_nType t) (vch @ s) = Inr (tpl_param t, s)"
    using ds_localE [OF ds_local_template r] by (metis append_Nil2)
  then have "SetTemplateData env (tpl_nType t) (vch @ s) = Some (tpl_param t)" by (auto simp: SetTemplateData_Some)
  then show ?thesis
    using assms(1) param_type_known [of "tpl_param t" "tpl_nType t"]
    by (auto simp: CreateTemplatePtr_def finish_template_def template_ok_def Let_def split: option.splits)
qed

text \<open>Who may spend from an address.  The holder of a key signs the hash; an address of a template is spent from with a
  description of the template that has this very identifier, followed by what the template asks for: a
  multi-signature of its keys that reaches its required weight, what its redeem or spend address asks for, or, for
  a delegate template, a signature of the delegate's key when the coins stay at the address and what the recipient's
  address asks for otherwise.\<close>

inductive authorised :: "crypto_env \<Rightarrow> uint256 \<Rightarrow> uint256 \<Rightarrow> CDestination \<Rightarrow> CDestination \<Rightarrow> bytes \<Rightarrow> bool"
  for env hash hashAnchor destTo where
  key: "CPubKey_Verify env k hash s \<Longrightarrow> authorised env hash hashAnchor destTo (dest_pubkey k) s"
| weighted: "template_ok env t \<Longrightarrow> describes env t vch \<Longrightarrow> tpl_param t = Weighted req m \<Longrightarrow>
    CryptoMultiVerify env (map fst m) (Save_uint hashAnchor) (Save_uint hash) s = Some part \<Longrightarrow> unat req \<le> part_weight m part \<Longrightarrow>
    authorised env hash hashAnchor destTo (dest_template (tpl_nId t)) (vch @ s)"
| fork: "template_ok env t \<Longrightarrow> describes env t vch \<Longrightarrow> tpl_param t = Fork destRedeem hashFork \<Longrightarrow>
    authorised env hash hashAnchor destTo destRedeem s \<Longrightarrow> authorised env hash hashAnchor destTo (dest_template (tpl_nId t)) (vch @ s)"
| proof_of_work: "template_ok env t \<Longrightarrow> describes env t vch \<Longrightarrow> tpl_param t = Proof keyMint destSpend \<Longrightarrow>
    authorised env hash hashAnchor destTo destSpend s \<Longrightarrow> authorised env hash hashAnchor destTo (dest_template (tpl_nId t)) (vch @ s)"
| delegate_stay: "template_ok env t \<Longrightarrow> describes env t vch \<Longrightarrow> tpl_param t = Delegate keyDelegate destOwner \<Longrightarrow>
    destTo = dest_template (tpl_nId t) \<Longrightarrow> CPubKey_Verify env keyDelegate hash s \<Longrightarrow>
    authorised env hash hashAnchor destTo (dest_template (tpl_nId t)) (vch @ s)"
| delegate_leave: "template_ok env t \<Longrightarrow> describes env t vch \<Longrightarrow> tpl_param t = Delegate keyDelegate destOwner \<Longrightarrow>
    destTo \<noteq> dest_template (tpl_nId t) \<Longrightarrow> authorised env hash hashAnchor destTo destTo s \<Longrightarrow>
    authorised env hash hashAnchor destTo (dest_template (tpl_nId t)) (vch @ s)"

lemma dest_VerifyTx_iff:
  "dest_VerifyTx env d hash a destTo s \<longleftrightarrow> dest_VerifyTxSignature env d hash a destTo s False = (True, True)"
  by (auto simp: dest_VerifyTx_def)

lemma dest_VerifyTxSignature_pubkey:
  "dest_VerifyTxSignature env (dest_pubkey k) hash a destTo s fc = (CPubKey_Verify env k hash s, CPubKey_Verify env k hash s)"
  by (simp add: dest_VerifyTxSignature.simps dest_pubkey_def dest_IsPubKey_def dest_GetPubKey_def Let_def)

lemma dest_VerifyTx_described:
  assumes "template_ok env t" "describes env t vch"
  shows "dest_VerifyTx env (dest_template (tpl_nId t)) hash a destTo (vch @ s) \<longleftrightarrow>
    tpl_VerifyTxSignature env t hash a destTo s False = (True, True)"
proof -
  have "length vch = length (tpl_vchData t)" using assms(2) by (simp add: describes_def)
  then show ?thesis
    by (simp add: dest_VerifyTx_iff dest_VerifyTxSignature.simps CTemplate_VerifyTxSignature.simps
        dest_template_def dest_IsPubKey_def dest_IsTemplate_def dest_GetTemplateId_def
        template_ok_GetType [OF assms(1)] describes_CreateTemplatePtr [OF assms])
qed

lemma template_ok_nonzero:
  assumes "template_ok env t"
  shows "tpl_nId t \<noteq> 0"
proof -
  have "tpl_nType t \<noteq> 0"
    using assms by (auto simp: template_ok_def param_type_def split: TemplateParam.splits)
  then have "GetType (tpl_nId t) \<noteq> GetType 0"
    using template_ok_GetType [OF assms] by (simp add: GetType_ucast)
  then show ?thesis by auto
qed

lemma template_ok_address:
  assumes "template_ok env t"
  shows "dest_GetTemplateId d = tpl_nId t \<longleftrightarrow> d = dest_template (tpl_nId t)"
  using template_ok_nonzero [OF assms] by (cases d) (auto simp: dest_GetTemplateId_def dest_template_def)

lemma Weighted_complete:
  "Weighted_VerifyTxSignature env req m hash a s fc = (True, True) \<longleftrightarrow>
   (\<exists>part. CryptoMultiVerify env (map fst m) (Save_uint a) (Save_uint hash) s = Some part \<and> unat req \<le> part_weight m part)"
  by (auto simp: Weighted_VerifyTxSignature_def part_weight_def Let_def split: option.splits)

lemma VerifyTxSignature_authorised:
  "dest_VerifyTxSignature env d hash a destTo s fc = (True, True) \<Longrightarrow> \<not> fc \<Longrightarrow> authorised env hash a destTo d s"
  "CTemplate_VerifyTxSignature env i hash a destTo s fc = (True, True) \<Longrightarrow> \<not> fc \<Longrightarrow> authorised env hash a destTo (dest_template i) s"
  "tpl_VerifyTxSignature env ptr hash a destTo s fc = (True, True) \<Longrightarrow> \<not> fc \<Longrightarrow> template_ok env ptr \<Longrightarrow> describes env ptr vch \<Longrightarrow>
     authorised env hash a destTo (dest_template (tpl_nId ptr)) (vch @ s)"
proof (induction env d hash a destTo s fc and env i hash a destTo s fc and env ptr hash a destTo s fc arbitrary: and and vch
    rule: dest_VerifyTxSignature_CTemplate_VerifyTxSignature_tpl_VerifyTxSignature.induct)
  case (1 env d hash hashAnchor destTo vchSig fCompleted)
  have "dest_IsPubKey d \<Longrightarrow> d = dest_pubkey (dest_GetPubKey d)"
    by (cases d) (simp add: dest_IsPubKey_def dest_pubkey_def dest_GetPubKey_def)
  moreover have "dest_IsTemplate d \<Longrightarrow> d = dest_template (dest_GetTemplateId d)"
    by (cases d) (simp add: dest_IsTemplate_def dest_template_def dest_GetTemplateId_def)
  ultimately show ?case
    using 1 authorised.key [of env "dest_GetPubKey d" hash vchSig hashAnchor destTo]
    by (simp add: dest_VerifyTxSignature.simps [of env d] Let_def split: if_splits)
next
  case (2 env nIdIn hash hashAnchor destTo vchSig fCompleted)
  from 2(2,3) obtain ptr where ptr: "CreateTemplatePtr env (GetType nIdIn) vchSig = Some ptr" "\<not> tpl_nId ptr \<noteq> nIdIn"
      "tpl_VerifyTxSignature env ptr hash hashAnchor destTo (drop (length (tpl_vchData ptr)) vchSig) fCompleted = (True, True)"
    by (auto simp: CTemplate_VerifyTxSignature.simps [of env nIdIn] split: option.splits if_splits)
  obtain vch r where v: "vchSig = vch @ r" "describes env ptr vch" "r = drop (length (tpl_vchData ptr)) vchSig"
    by (rule CreateTemplatePtr_describes [OF ptr(1)])
  from 2(1) [OF ptr 2(3) _ v(2)] CreateTemplatePtr_ok [OF ptr(1)] show ?case
    using ptr(2) v(1,3) by metis
next
  case (3 env ptr hash hashAnchor destTo vchSig fCompleted)
  note ok = 3(7,8) and addr = template_ok_address [OF 3(7), of destTo]
  show ?case
  proof (cases "tpl_param ptr")
    case (Weighted req m)
    then show ?thesis
      using 3(5) authorised.weighted [OF ok Weighted] by (auto simp: tpl_VerifyTxSignature.simps [of env ptr] Weighted_complete)
  next
    case (Fork d h)
    then show ?thesis
      using 3(1) [OF Fork] 3(5,6) by (intro authorised.fork [OF ok Fork]) (simp add: tpl_VerifyTxSignature.simps [of env ptr])
  next
    case (Proof k d)
    then show ?thesis
      using 3(2) [OF Proof] 3(5,6) by (intro authorised.proof_of_work [OF ok Proof]) (simp add: tpl_VerifyTxSignature.simps [of env ptr])
  next
    case (Delegate k d)
    show ?thesis
    proof (cases "destTo = dest_template (tpl_nId ptr)")
      case True
      then show ?thesis
        using 3(5) addr Delegate
        by (intro authorised.delegate_stay [OF ok Delegate]) (simp_all add: tpl_VerifyTxSignature.simps [of env ptr] dest_VerifyTxSignature_pubkey)
    next
      case False
      then show ?thesis
        using 3(4) [OF Delegate] 3(5,6) addr Delegate
        by (intro authorised.delegate_leave [OF ok Delegate]) (simp_all add: tpl_VerifyTxSignature.simps [of env ptr])
    qed
  qed
qed

lemma authorised_VerifyTx: "authorised env hash a destTo d s \<Longrightarrow> dest_VerifyTx env d hash a destTo s"
proof (induction rule: authorised.induct)
  case (key k s)
  then show ?case by (simp add: dest_VerifyTx_iff dest_VerifyTxSignature_pubkey)
next
  case (weighted t vch req m s part)
  then show ?case by (auto simp: dest_VerifyTx_described tpl_VerifyTxSignature.simps Weighted_complete)
next
  case (delegate_stay t vch keyDelegate destOwner s)
  then show ?case
    by (simp add: dest_VerifyTx_described tpl_VerifyTxSignature.simps template_ok_address [OF delegate_stay(1)] dest_VerifyTxSignature_pubkey)
next
  case (delegate_leave t vch keyDelegate destOwner s)
  then show ?case
    unfolding dest_VerifyTx_described [OF delegate_leave(1,2)]
    by (simp add: tpl_VerifyTxSignature.simps template_ok_address [OF delegate_leave(1)] dest_VerifyTx_iff)
next
  case (fork t vch destRedeem hashFork s)
  then show ?case
    unfolding dest_VerifyTx_described [OF fork(1,2)] by (simp add: tpl_VerifyTxSignature.simps dest_VerifyTx_iff)
next
  case (proof_of_work t vch keyMint destSpend s)
  then show ?case
    unfolding dest_VerifyTx_described [OF proof_of_work(1,2)] by (simp add: tpl_VerifyTxSignature.simps dest_VerifyTx_iff)
qed

text \<open>Verification of a template address on a signature that starts with the template's own data.\<close>

lemma dest_VerifyTx_template:
  assumes "template_ok env t" "map_params_ok env"
  shows "dest_VerifyTx env (dest_template (tpl_nId t)) hash a destTo (tpl_vchData t @ s) \<longleftrightarrow>
    tpl_VerifyTxSignature env t hash a destTo s False = (True, True)"
  by (simp add: dest_VerifyTx_iff dest_VerifyTxSignature.simps CTemplate_VerifyTxSignature.simps
      dest_template_def dest_IsPubKey_def dest_IsTemplate_def dest_GetTemplateId_def
      template_ok_GetType [OF assms(1)] CreateTemplatePtr_data [OF assms])

text \<open>Who may sign a block for an address: the key itself, or the key that mints for \<^emph>\<open>some\<close> proof or delegate template of the
  kind of the address, which the signature describes.\<close>

fun mint_key :: "TemplateParam \<Rightarrow> uint256 option" where
  "mint_key (Proof keyMint _) = Some keyMint"
| "mint_key (Delegate keyDelegate _) = Some keyDelegate"
| "mint_key _ = None"

inductive block_signed :: "crypto_env \<Rightarrow> uint256 \<Rightarrow> CDestination \<Rightarrow> bytes \<Rightarrow> bool" for env hash where
  key: "CPubKey_Verify env k hash s \<Longrightarrow> block_signed env hash (dest_pubkey k) s"
| mint: "template_ok env t \<Longrightarrow> describes env t vch \<Longrightarrow> mint_key (tpl_param t) = Some k \<Longrightarrow> tpl_nType t = GetType nId \<Longrightarrow>
    CPubKey_Verify env k hash s \<Longrightarrow> block_signed env hash (dest_template nId) (vch @ s)"

lemma mint_key_type:
  assumes "template_ok env t"
  shows "mint_key (tpl_param t) \<noteq> None \<longleftrightarrow> tpl_nType t = TEMPLATE_PROOF \<or> tpl_nType t = TEMPLATE_DELEGATE"
    "tpl_VerifyBlockSignature env (tpl_param t) hash s \<longleftrightarrow> (\<exists>k. mint_key (tpl_param t) = Some k \<and> CPubKey_Verify env k hash s)"
  using assms by (cases "tpl_param t"; auto simp: template_ok_def param_type_def)+

lemma dest_VerifyBlockSignature_iff: "dest_VerifyBlockSignature env d hash s \<longleftrightarrow> block_signed env hash d s"
proof
  assume v: "dest_VerifyBlockSignature env d hash s"
  consider k where "d = dest_pubkey k" "CPubKey_Verify env k hash s"
    | nId where "d = dest_template nId" "CTemplateMint_VerifyBlockSignature env nId hash s"
    using v by (cases d) (auto simp: dest_VerifyBlockSignature_def dest_IsPubKey_def dest_IsTemplate_def dest_pubkey_def
        dest_template_def dest_GetPubKey_def dest_GetTemplateId_def split: if_splits)
  then show "block_signed env hash d s"
  proof cases
    case 1
    then show ?thesis by (simp add: block_signed.key)
  next
    case 2
    then obtain t where t: "CreateTemplatePtr env (GetType nId) s = Some t"
        "tpl_VerifyBlockSignature env (tpl_param t) hash (drop (length (tpl_vchData t)) s)"
      by (auto simp: CTemplateMint_VerifyBlockSignature_def Let_def split: if_splits option.splits)
    obtain vch r where r: "s = vch @ r" "describes env t vch" "r = drop (length (tpl_vchData t)) s"
      by (rule CreateTemplatePtr_describes [OF t(1)])
    have ok: "template_ok env t" "tpl_nType t = GetType nId" using CreateTemplatePtr_ok [OF t(1)] by auto
    obtain k where "mint_key (tpl_param t) = Some k" "CPubKey_Verify env k hash r"
      using t(2) mint_key_type(2) [OF ok(1)] unfolding r(3) [symmetric] by blast
    then show ?thesis unfolding 2(1) r(1) using block_signed.mint [OF ok(1) r(2) _ ok(2)] by blast
  qed
next
  assume "block_signed env hash d s"
  then show "dest_VerifyBlockSignature env d hash s"
  proof (induction rule: block_signed.induct)
    case (key k s)
    then show ?case by (simp add: dest_VerifyBlockSignature_def dest_IsPubKey_def dest_pubkey_def dest_GetPubKey_def)
  next
    case (mint t vch k nId s)
    have "GetType nId = TEMPLATE_PROOF \<or> GetType nId = TEMPLATE_DELEGATE" using mint_key_type(1) [OF mint(1)] mint(3,4) by simp
    moreover have "CreateTemplatePtr env (GetType nId) (vch @ s) = Some t" using describes_CreateTemplatePtr [OF mint(1,2)] mint(4) by simp
    moreover have "drop (length (tpl_vchData t)) (vch @ s) = s" using mint(2) by (simp add: describes_def)
    moreover have "tpl_VerifyBlockSignature env (tpl_param t) hash s" using mint_key_type(2) [OF mint(1)] mint(3,5) by blast
    ultimately show ?case
      by (auto simp: dest_VerifyBlockSignature_def CTemplateMint_VerifyBlockSignature_def dest_template_def dest_IsPubKey_def
          dest_IsTemplate_def dest_GetTemplateId_def)
  qed
qed

text \<open>The template that a valid parameter set determines.\<close>

definition template_of :: "crypto_env \<Rightarrow> uint16 \<Rightarrow> TemplateParam \<Rightarrow> CTemplate" where
  "template_of env t p =
     (let vch = BuildTemplateData env p
      in \<lparr>tpl_nType = t, tpl_nId = BuildTemplateId env t vch, tpl_vchData = vch, tpl_param = p\<rparr>)"

lemma template_of_param [simp]: "tpl_param (template_of env t p) = p"
  by (simp add: template_of_def Let_def)

lemma template_of_ok:
  "param_ok p \<Longrightarrow> param_type p t \<Longrightarrow> ValidateParam p \<Longrightarrow> template_ok env (template_of env t p)"
  by (simp add: template_ok_def template_of_def Let_def)

lemma example_env_hash: "CryptoHash example_env (Save_uint w @ r) = (w :: uint256)"
proof -
  have "word_of_nat (x + 256 ^ 32 * y) = (word_of_nat x :: uint256)" for x y
    unfolding word_of_nat_eq_iff take_bit_eq_mod by simp
  then show ?thesis
    by (simp only: CryptoHash_def example_env_def crypto_env.select_convs le_val_append length_Save_uint)
      (simp add: le_val_Save_uint256)
qed

section \<open>Properties\<close>

text \<open>Property C3: a transaction that spends from an address is accepted exactly when its signature authorises it for
  this address.  For a key the key itself has signed the hash.  For a template the signature begins with a description of
  a valid template whose identifier, the hash of its data, is the address; what follows is a multi-signature
  by keys of this template that reach its required weight, or authorises the redeem or spend address of this template;
  for a delegate template it is a signature of its delegate key when the coins stay at the address, and authorises
  the recipient's address when they leave it.\<close>

theorem tx_accepted_iff_authorised:
  "dest_VerifyTx env d hash hashAnchor destTo vchSig \<longleftrightarrow> authorised env hash hashAnchor destTo d vchSig"
  using VerifyTxSignature_authorised(1) [of env d hash hashAnchor destTo vchSig False]
    authorised_VerifyTx [of env hash hashAnchor destTo d vchSig] by (auto simp: dest_VerifyTx_iff)

text \<open>Property C21: a weighted (or multi-signature) address spends exactly when the participants of a valid
  multi-signature over the anchor and the hash reach the required weight.\<close>

theorem weighted_threshold:
  assumes "template_ok env t" and "map_params_ok env" and "tpl_param t = Weighted req m"
  shows "dest_VerifyTx env (dest_template (tpl_nId t)) hash hashAnchor destTo (tpl_vchData t @ vchSig) \<longleftrightarrow>
    (\<exists>part. CryptoMultiVerify env (map fst m) (Save_uint hashAnchor) (Save_uint hash) vchSig = Some part
       \<and> unat req \<le> part_weight m part)"
  unfolding dest_VerifyTx_template [OF assms(1,2)]
  by (auto simp: tpl_VerifyTxSignature.simps assms(3) Weighted_VerifyTxSignature_def part_weight_def Let_def
      split: option.splits)

definition example_weighted :: CTemplate where
  "example_weighted = template_of example_env TEMPLATE_WEIGHTED (Weighted 3 [(5, 1), (6, 2), (9, 2)])"

lemma example_weighted_ok:
  "template_ok example_env example_weighted" "tpl_param example_weighted = Weighted 3 [(5, 1), (6, 2), (9, 2)]"
  unfolding example_weighted_def
  by (auto intro!: template_of_ok simp: Weighted_ValidateParam_def param_type_def om_wf_def)

lemma example_env_map [simp]: "map_params_ok example_env"
  by (simp add: map_params_ok_def example_env_def)

theorem weighted_threshold_witness:
  "dest_VerifyTx example_env (dest_template (tpl_nId example_weighted)) 1 0 (dest_pubkey 8)
     (tpl_vchData example_weighted @ 6 # replicate 64 2)
   \<and> \<not> dest_VerifyTx example_env (dest_template (tpl_nId example_weighted)) 1 0 (dest_pubkey 8)
     (tpl_vchData example_weighted @ 2 # replicate 64 2)"
proof -
  have "CryptoMultiVerify example_env (map fst [(5, 1), (6, 2), (9, 2)]) (Save_uint (0 :: uint256)) (Save_uint (1 :: uint256))
      (6 # replicate 64 2) = Some [6, 9]"
    "CryptoMultiVerify example_env (map fst [(5, 1), (6, 2), (9, 2)]) (Save_uint (0 :: uint256)) (Save_uint (1 :: uint256))
      (2 # replicate 64 2) = Some [6]"
    by (simp_all add: CryptoMultiVerify_def example_env_def nIndexLen_def index_bit_def)
  then show ?thesis
    using weighted_threshold [OF example_weighted_ok(1) example_env_map example_weighted_ok(2), of 1 0 "dest_pubkey 8"]
    by (simp add: part_weight_def)
qed

text \<open>Property C27: what \<^verbatim>\<open>BuildTxSignature\<close> reports as signed, verification at the template's address
  accepts, with the same completion flag.\<close>

theorem built_signature_verifies:
  assumes "template_ok env t" and "map_params_ok env"
    and "BuildTxSignature env t hash hashAnchor destTo vchPreSig fc = (True, vchSig, fc')"
  shows "CTemplate_VerifyTxSignature env (tpl_nId t) hash hashAnchor destTo vchSig fc = (True, fc')"
  using assms by (rule BuildTxSignature_verifies)

theorem built_signature_verifies_witness:
  "BuildTxSignature example_env example_weighted 1 0 (dest_pubkey 8) (2 # replicate 64 2) False =
     (True, tpl_vchData example_weighted @ 2 # replicate 64 2, False)
   \<and> CTemplate_VerifyTxSignature example_env (tpl_nId example_weighted) 1 0 (dest_pubkey 8)
       (tpl_vchData example_weighted @ 2 # replicate 64 2) False = (True, False)"
proof -
  have b: "BuildTxSignature example_env example_weighted 1 0 (dest_pubkey 8) (2 # replicate 64 2) False =
     (True, tpl_vchData example_weighted @ 2 # replicate 64 2, False)"
    by (simp add: BuildTxSignature_def tpl_VerifyTxSignature.simps example_weighted_ok(2) Weighted_VerifyTxSignature_def
        CryptoMultiVerify_def example_env_def nIndexLen_def index_bit_def)
  show ?thesis using built_signature_verifies [OF example_weighted_ok(1) example_env_map b] b by simp
qed

text \<open>Exporting a template and importing the bytes gives the template back.\<close>

theorem template_import_export:
  assumes "template_ok env t" and "map_params_ok env"
  shows "Import env (Export t) = Some t"
  using assms by (rule Import_Export)

theorem template_import_export_witness:
  "template_ok example_env example_weighted \<and> Import example_env (Export example_weighted) = Some example_weighted"
  using template_import_export [OF example_weighted_ok(1) example_env_map] example_weighted_ok(1) by simp

text \<open>Property C32: coins at a delegate address that are sent to an ordinary key are released by a signature
  of the recipient; the owner of the delegate template has no part in the decision.\<close>

theorem delegate_released_by_recipient:
  assumes "template_ok env t" and "map_params_ok env" and "tpl_param t = Delegate keyDelegate destOwner"
  shows "dest_VerifyTx env (dest_template (tpl_nId t)) hash hashAnchor (dest_pubkey recipient) (tpl_vchData t @ vchSig) \<longleftrightarrow>
    CPubKey_Verify env recipient hash vchSig"
proof -
  have "tpl_nId t \<noteq> 0" by (rule template_ok_nonzero [OF assms(1)])
  then show ?thesis
    unfolding dest_VerifyTx_template [OF assms(1,2)]
    by (simp add: tpl_VerifyTxSignature.simps assms(3) dest_GetTemplateId_def dest_VerifyTxSignature_pubkey)
      (simp add: dest_pubkey_def)
qed

definition example_delegate :: CTemplate where
  "example_delegate = template_of example_env TEMPLATE_DELEGATE (Delegate 5 (dest_pubkey 6))"

lemma example_delegate_ok:
  "template_ok example_env example_delegate" "tpl_param example_delegate = Delegate 5 (dest_pubkey 6)"
  unfolding example_delegate_def
  by (auto intro!: template_of_ok simp: param_type_def IsTxSpendable_def dest_pubkey_def dest_IsPubKey_def)

theorem delegate_released_by_recipient_witness:
  "dest_VerifyTx example_env (dest_template (tpl_nId example_delegate)) 1 0 (dest_pubkey 99)
     (tpl_vchData example_delegate @ Save_uint (99 :: uint256) @ replicate 32 0)"
  using delegate_released_by_recipient [OF example_delegate_ok(1) example_env_map example_delegate_ok(2),
      of 1 0 99 "Save_uint (99 :: uint256) @ replicate 32 0"]
  by (simp add: CPubKey_Verify_def CryptoVerify_def example_env_def length_Save_uint)

text \<open>Property C33: a block minted to a proof or to a delegate address is accepted with the template data and the
  signature of anybody who has a valid template of the same kind, because the data is never compared
  with the address.\<close>

theorem mint_signature_by_anyone:
  assumes "template_ok env t" and "map_params_ok env"
    and "tpl_param t = Proof key d \<and> GetType nId = TEMPLATE_PROOF \<or> tpl_param t = Delegate key d \<and> GetType nId = TEMPLATE_DELEGATE"
    and "CPubKey_Verify env key hash vchSig"
  shows "dest_VerifyBlockSignature env (dest_template nId) hash (tpl_vchData t @ vchSig)"
proof -
  have "tpl_nType t = GetType nId" using assms(1,3) by (auto simp: template_ok_def param_type_def)
  then show ?thesis
    using assms(3,4) CreateTemplatePtr_data [OF assms(1,2), of vchSig]
    by (auto simp: dest_VerifyBlockSignature_def CTemplateMint_VerifyBlockSignature_def dest_template_def
        dest_IsPubKey_def dest_IsTemplate_def dest_GetTemplateId_def)
qed

definition example_proof :: CTemplate where
  "example_proof = template_of example_env TEMPLATE_PROOF (Proof 5 (dest_pubkey 6))"

theorem mint_signature_by_anyone_witness:
  "CTemplateId_make TEMPLATE_PROOF 0 \<noteq> tpl_nId example_proof
   \<and> dest_VerifyBlockSignature example_env (dest_template (CTemplateId_make TEMPLATE_PROOF 0)) 1
     (tpl_vchData example_proof @ Save_uint (5 :: uint256) @ replicate 32 0)
   \<and> CTemplateId_make TEMPLATE_DELEGATE 0 \<noteq> tpl_nId example_delegate
   \<and> dest_VerifyBlockSignature example_env (dest_template (CTemplateId_make TEMPLATE_DELEGATE 0)) 1
     (tpl_vchData example_delegate @ Save_uint (5 :: uint256) @ replicate 32 0)"
proof -
  have ok: "template_ok example_env example_proof" "tpl_param example_proof = Proof 5 (dest_pubkey 6)"
    unfolding example_proof_def
    by (auto intro!: template_of_ok simp: param_type_def IsTxSpendable_def dest_pubkey_def dest_IsPubKey_def)
  have "CTemplateId_make TEMPLATE_PROOF 0 \<noteq> tpl_nId example_proof" "CTemplateId_make TEMPLATE_DELEGATE 0 \<noteq> tpl_nId example_delegate"
    by (simp_all add: example_proof_def example_delegate_def template_of_def BuildTemplateId_def example_env_hash CTemplateId_make_eq)
  moreover have v: "CPubKey_Verify example_env 5 1 (Save_uint (5 :: uint256) @ replicate 32 0)"
    by (simp add: CPubKey_Verify_def CryptoVerify_def example_env_def length_Save_uint)
  ultimately show ?thesis
    using mint_signature_by_anyone [OF ok(1) example_env_map _ v, of "dest_pubkey 6" "CTemplateId_make TEMPLATE_PROOF 0"]
      mint_signature_by_anyone [OF example_delegate_ok(1) example_env_map _ v, of "dest_pubkey 6" "CTemplateId_make TEMPLATE_DELEGATE 0"]
    by (simp add: ok(2) example_delegate_ok(2) GetType_make)
qed

end
