(* ===== verification/Transaction.thy ===== *)
theory Transaction
  imports Template
begin

text \<open>
  Transactions, \<^verbatim>\<open>src/common/transaction.h\<close>: outpoints, inputs, transactions, outputs, assembled
  transactions with their inputs' owner and value, and the context of a transaction's inputs.

  The members of \<^verbatim>\<open>int64\<close> and \<^verbatim>\<open>int32\<close> type are integers; \<open>tx_ok\<close> and its relatives say that they fit
  their width, which is what the serialisation laws need.
\<close>

section \<open>Outpoints and inputs\<close>

datatype CTxOutPoint = CTxOutPoint (op_hash: uint256) (op_n: uint8)

definition op_null :: CTxOutPoint where
  "op_null = CTxOutPoint 0 (- 1)"

definition op_IsNull :: "CTxOutPoint \<Rightarrow> bool" where
  "op_IsNull p \<longleftrightarrow> op_hash p = 0 \<and> op_n p = - 1"

instantiation CTxOutPoint :: linorder
begin

definition less_CTxOutPoint :: "CTxOutPoint \<Rightarrow> CTxOutPoint \<Rightarrow> bool" where
  "less_CTxOutPoint a b \<longleftrightarrow> op_hash a < op_hash b \<or> (op_hash a = op_hash b \<and> op_n a < op_n b)"

definition less_eq_CTxOutPoint :: "CTxOutPoint \<Rightarrow> CTxOutPoint \<Rightarrow> bool" where
  "less_eq_CTxOutPoint a b \<longleftrightarrow> a = b \<or> a < b"

instance
  by standard (auto simp: less_CTxOutPoint_def less_eq_CTxOutPoint_def intro: CTxOutPoint.expand)

end

definition Save_outpoint :: "CTxOutPoint \<Rightarrow> bytes" where
  "Save_outpoint p = Save_uint (op_hash p) @ Save_uint (op_n p)"

definition Load_outpoint :: "CTxOutPoint loader" where
  "Load_outpoint s = do { (h, s1) \<leftarrow> Load_uint s; (n, s2) \<leftarrow> Load_uint s1; Some (CTxOutPoint h n, s2) }"

text \<open>\<^verbatim>\<open>CTxIn\<close> has one member, its \<^verbatim>\<open>prevout\<close>.\<close>

type_synonym CTxIn = CTxOutPoint

interpretation outpoint: codec Save_outpoint Load_outpoint "\<lambda>_. 33" "\<lambda>_. True"
  by unfold_locales
    (simp_all add: Save_outpoint_def Load_outpoint_def u256.load_save u8.load_save u256.save_size u8.save_size)

interpretation txins: codec "Save_vector Save_outpoint" "Load_vector Load_outpoint"
  "Size_vector (\<lambda>_. 33)" "vec_ok (\<lambda>_. True)"
  by (rule outpoint.vector)

section \<open>CTransaction\<close>

record CTransaction =
  tx_nVersion :: uint16
  tx_nType :: uint16
  tx_nTimeStamp :: uint32
  tx_nLockUntil :: uint32
  tx_hashAnchor :: uint256
  tx_vInput :: "CTxIn list"
  tx_sendTo :: CDestination
  tx_nAmount :: int
  tx_nTxFee :: int
  tx_vchData :: bytes
  tx_vchSig :: bytes

abbreviation (input) TX_TOKEN :: uint16 where "TX_TOKEN \<equiv> 0"
abbreviation (input) TX_CERT :: uint16 where "TX_CERT \<equiv> 0xff00"
abbreviation (input) TX_GENESIS :: uint16 where "TX_GENESIS \<equiv> 0x0100"
abbreviation (input) TX_STAKE :: uint16 where "TX_STAKE \<equiv> 0x0200"
abbreviation (input) TX_WORK :: uint16 where "TX_WORK \<equiv> 0x0300"

definition tx_null :: CTransaction where
  "tx_null = \<lparr>tx_nVersion = 1, tx_nType = 0, tx_nTimeStamp = 0, tx_nLockUntil = 0, tx_hashAnchor = 0,
     tx_vInput = [], tx_sendTo = dest_null, tx_nAmount = 0, tx_nTxFee = 0, tx_vchData = [], tx_vchSig = []\<rparr>"

definition tx_IsNull :: "CTransaction \<Rightarrow> bool" where
  "tx_IsNull tx \<longleftrightarrow> tx_vInput tx = [] \<and> dest_IsNull (tx_sendTo tx)"

definition IsMintTx :: "CTransaction \<Rightarrow> bool" where
  "IsMintTx tx \<longleftrightarrow> tx_nType tx = TX_GENESIS \<or> tx_nType tx = TX_STAKE \<or> tx_nType tx = TX_WORK"

definition GetTypeString :: "CTransaction \<Rightarrow> string" where
  "GetTypeString tx =
     (if tx_nType tx = TX_TOKEN then ''token''
      else if tx_nType tx = TX_CERT then ''certification''
      else if tx_nType tx = TX_GENESIS then ''genesis''
      else if tx_nType tx = TX_STAKE then ''stake''
      else if tx_nType tx = TX_WORK then ''work''
      else ''undefined'')"

text \<open>The fields before the signature, in stream order.\<close>

definition Save_tx_body :: "CTransaction \<Rightarrow> bytes" where
  "Save_tx_body tx =
     Save_uint (tx_nVersion tx) @ Save_uint (tx_nType tx) @ Save_uint (tx_nTimeStamp tx) @
     Save_uint (tx_nLockUntil tx) @ Save_uint (tx_hashAnchor tx) @
     Save_vector Save_outpoint (tx_vInput tx) @ Save_dest (tx_sendTo tx) @
     Save_int 8 (tx_nAmount tx) @ Save_int 8 (tx_nTxFee tx) @ Save_vch (tx_vchData tx)"

definition Save_tx :: "CTransaction \<Rightarrow> bytes" where
  "Save_tx tx = Save_tx_body tx @ Save_vch (tx_vchSig tx)"

definition Load_tx :: "CTransaction loader" where
  "Load_tx s = do {
     (nVersion, s) \<leftarrow> Load_uint s;
     (nType, s) \<leftarrow> Load_uint s;
     (nTimeStamp, s) \<leftarrow> Load_uint s;
     (nLockUntil, s) \<leftarrow> Load_uint s;
     (hashAnchor, s) \<leftarrow> Load_uint s;
     (vInput, s) \<leftarrow> Load_vector Load_outpoint s;
     (sendTo, s) \<leftarrow> Load_dest s;
     (nAmount, s) \<leftarrow> Load_int 8 s;
     (nTxFee, s) \<leftarrow> Load_int 8 s;
     (vchData, s) \<leftarrow> Load_vch s;
     (vchSig, s) \<leftarrow> Load_vch s;
     Some (\<lparr>tx_nVersion = nVersion, tx_nType = nType, tx_nTimeStamp = nTimeStamp, tx_nLockUntil = nLockUntil,
       tx_hashAnchor = hashAnchor, tx_vInput = vInput, tx_sendTo = sendTo, tx_nAmount = nAmount,
       tx_nTxFee = nTxFee, tx_vchData = vchData, tx_vchSig = vchSig\<rparr>, s) }"

definition Size_tx :: "CTransaction \<Rightarrow> nat" where
  "Size_tx tx =
     2 + 2 + 4 + 4 + 32 + Size_vector (\<lambda>_. 33) (tx_vInput tx) + DESTINATION_SIZE + 8 + 8
     + Size_vch (tx_vchData tx) + Size_vch (tx_vchSig tx)"

definition tx_ok :: "CTransaction \<Rightarrow> bool" where
  "tx_ok tx \<longleftrightarrow> length (tx_vInput tx) < 2 ^ 64 \<and> int64_range (tx_nAmount tx) \<and> int64_range (tx_nTxFee tx)
     \<and> length (tx_vchData tx) < 2 ^ 64 \<and> length (tx_vchSig tx) < 2 ^ 64"

lemmas load_save_laws = u8.load_save u16.load_save u32.load_save u64.load_save u256.load_save i32.load_save
  i64.load_save vch.load_save varint.load_save dest.load_save outpoint.load_save txins.load_save
lemmas save_size_laws = u8.save_size u16.save_size u32.save_size u64.save_size u256.save_size i32.save_size
  i64.save_size vch.save_size dest.save_size outpoint.save_size txins.save_size

interpretation tx: codec Save_tx Load_tx Size_tx tx_ok
  by unfold_locales
    (simp_all add: Save_tx_def Save_tx_body_def Load_tx_def Size_tx_def tx_ok_def load_save_laws save_size_laws)

definition tx_GetHash :: "crypto_env \<Rightarrow> CTransaction \<Rightarrow> uint256" where
  "tx_GetHash env tx = uint256_high_low (tx_nTimeStamp tx) (CryptoHash env (Save_tx tx))"

definition GetSignatureHash :: "crypto_env \<Rightarrow> CTransaction \<Rightarrow> uint256" where
  "GetSignatureHash env tx = CryptoHash env (Save_tx_body tx)"

definition tx_GetChange :: "CTransaction \<Rightarrow> int \<Rightarrow> int" where
  "tx_GetChange tx nValueIn = nValueIn - tx_nAmount tx - tx_nTxFee tx"

definition GetLockUntil :: "CTransaction \<Rightarrow> uint32 \<Rightarrow> uint32" where
  "GetLockUntil tx n =
     (if n = drop_bit 31 (tx_nLockUntil tx) then bit_and (tx_nLockUntil tx) 0x7FFFFFFF else 0)"

definition SetLockUntil :: "CTransaction \<Rightarrow> int \<Rightarrow> uint32 \<Rightarrow> bool \<times> CTransaction" where
  "SetLockUntil tx nHeight n =
     (if nHeight < 0 then (False, tx)
      else (True, tx\<lparr>tx_nLockUntil := bit_or (push_bit 31 n) (word_of_int nHeight)\<rparr>))"

section \<open>Transaction identifiers\<close>

definition CTxId_GetTxTime :: "uint256 \<Rightarrow> uint32" where
  "CTxId_GetTxTime txid = ucast (drop_bit 224 txid)"

definition CTxId_GetTxHash :: "uint256 \<Rightarrow> uint256" where
  "CTxId_GetTxHash txid = take_bit 224 txid"

section \<open>Outputs\<close>

record CTxOutput =
  out_destTo :: CDestination
  out_nAmount :: int
  out_nTxTime :: uint32
  out_nLockUntil :: uint32

definition out_null :: CTxOutput where
  "out_null = \<lparr>out_destTo = dest_null, out_nAmount = 0, out_nTxTime = 0, out_nLockUntil = 0\<rparr>"

text \<open>The output of a transaction to its recipient, and the change returned to its sender.\<close>

definition out_of_tx :: "CTransaction \<Rightarrow> CTxOutput" where
  "out_of_tx tx = \<lparr>out_destTo = tx_sendTo tx, out_nAmount = tx_nAmount tx, out_nTxTime = tx_nTimeStamp tx,
     out_nLockUntil = tx_nLockUntil tx\<rparr>"

definition out_change :: "CTransaction \<Rightarrow> CDestination \<Rightarrow> int \<Rightarrow> CTxOutput" where
  "out_change tx destTo nValueIn = \<lparr>out_destTo = destTo, out_nAmount = tx_GetChange tx nValueIn,
     out_nTxTime = tx_nTimeStamp tx, out_nLockUntil = 0\<rparr>"

definition out_IsNull :: "CTxOutput \<Rightarrow> bool" where
  "out_IsNull u \<longleftrightarrow> dest_IsNull (out_destTo u) \<or> out_nAmount u \<le> 0"

text \<open>The comparison converts the height to \<^verbatim>\<open>uint32\<close>.\<close>

definition lock_active :: "uint32 \<Rightarrow> int \<Rightarrow> bool" where
  "lock_active nLockUntil nBlockHeight \<longleftrightarrow> (word_of_int nBlockHeight :: uint32) < bit_and nLockUntil 0x7FFFFFFF"

definition out_IsLocked :: "CTxOutput \<Rightarrow> int \<Rightarrow> bool" where
  "out_IsLocked u nBlockHeight = lock_active (out_nLockUntil u) nBlockHeight"

definition Save_output :: "CTxOutput \<Rightarrow> bytes" where
  "Save_output u = Save_dest (out_destTo u) @ Save_int 8 (out_nAmount u) @ Save_uint (out_nTxTime u) @
     Save_uint (out_nLockUntil u)"

definition Load_output :: "CTxOutput loader" where
  "Load_output s = do {
     (d, s) \<leftarrow> Load_dest s; (a, s) \<leftarrow> Load_int 8 s; (t, s) \<leftarrow> Load_uint s; (l, s) \<leftarrow> Load_uint s;
     Some (\<lparr>out_destTo = d, out_nAmount = a, out_nTxTime = t, out_nLockUntil = l\<rparr>, s) }"

interpretation txout: codec Save_output Load_output "\<lambda>_. 49" "\<lambda>u. int64_range (out_nAmount u)"
  by unfold_locales
    (simp_all add: Save_output_def Load_output_def load_save_laws save_size_laws)

section \<open>Assembled transactions and input contexts\<close>

record CAssembledTx =
  atx_tx :: CTransaction
  atx_destIn :: CDestination
  atx_nValueIn :: int
  atx_nBlockHeight :: int

definition atx_GetChange :: "CAssembledTx \<Rightarrow> int" where
  "atx_GetChange a = atx_nValueIn a - tx_nAmount (atx_tx a) - tx_nTxFee (atx_tx a)"

definition GetOutput :: "CAssembledTx \<Rightarrow> int \<Rightarrow> CTxOutput" where
  "GetOutput a n =
     (if n = 0 then \<lparr>out_destTo = tx_sendTo (atx_tx a), out_nAmount = tx_nAmount (atx_tx a),
          out_nTxTime = tx_nTimeStamp (atx_tx a), out_nLockUntil = GetLockUntil (atx_tx a) 0\<rparr>
      else if n = 1 then \<lparr>out_destTo = atx_destIn a, out_nAmount = atx_GetChange a,
          out_nTxTime = tx_nTimeStamp (atx_tx a), out_nLockUntil = GetLockUntil (atx_tx a) 1\<rparr>
      else out_null)"

definition Save_atx :: "CAssembledTx \<Rightarrow> bytes" where
  "Save_atx a = Save_tx (atx_tx a) @ Save_dest (atx_destIn a) @ Save_int 8 (atx_nValueIn a) @
     Save_int 4 (atx_nBlockHeight a)"

definition Load_atx :: "CAssembledTx loader" where
  "Load_atx s = do {
     (t, s) \<leftarrow> Load_tx s; (d, s) \<leftarrow> Load_dest s; (v, s) \<leftarrow> Load_int 8 s; (h, s) \<leftarrow> Load_int 4 s;
     Some (\<lparr>atx_tx = t, atx_destIn = d, atx_nValueIn = v, atx_nBlockHeight = h\<rparr>, s) }"

definition atx_ok :: "CAssembledTx \<Rightarrow> bool" where
  "atx_ok a \<longleftrightarrow> tx_ok (atx_tx a) \<and> int64_range (atx_nValueIn a) \<and> int32_range (atx_nBlockHeight a)"

interpretation atx: codec Save_atx Load_atx "\<lambda>a. Size_tx (atx_tx a) + 45" atx_ok
  by unfold_locales
    (simp_all add: Save_atx_def Load_atx_def atx_ok_def load_save_laws save_size_laws tx.load_save tx.save_size)

record CTxInContxt =
  inc_nAmount :: int
  inc_nTxTime :: uint32
  inc_nLockUntil :: uint32

definition inc_of_output :: "CTxOutput \<Rightarrow> CTxInContxt" where
  "inc_of_output u = \<lparr>inc_nAmount = out_nAmount u, inc_nTxTime = out_nTxTime u, inc_nLockUntil = out_nLockUntil u\<rparr>"

definition inc_IsLocked :: "CTxInContxt \<Rightarrow> int \<Rightarrow> bool" where
  "inc_IsLocked i nBlockHeight = lock_active (inc_nLockUntil i) nBlockHeight"

definition Save_inc :: "CTxInContxt \<Rightarrow> bytes" where
  "Save_inc i = Save_int 8 (inc_nAmount i) @ Save_uint (inc_nTxTime i) @ Save_uint (inc_nLockUntil i)"

definition Load_inc :: "CTxInContxt loader" where
  "Load_inc s = do {
     (a, s) \<leftarrow> Load_int 8 s; (t, s) \<leftarrow> Load_uint s; (l, s) \<leftarrow> Load_uint s;
     Some (\<lparr>inc_nAmount = a, inc_nTxTime = t, inc_nLockUntil = l\<rparr>, s) }"

interpretation inc: codec Save_inc Load_inc "\<lambda>_. 16" "\<lambda>i. int64_range (inc_nAmount i)"
  by unfold_locales (simp_all add: Save_inc_def Load_inc_def load_save_laws save_size_laws)

record CTxContxt =
  ctx_destIn :: CDestination
  ctx_vin :: "CTxInContxt list"

definition ctx_null :: CTxContxt where
  "ctx_null = \<lparr>ctx_destIn = dest_null, ctx_vin = []\<rparr>"

definition GetValueIn :: "CTxContxt \<Rightarrow> int" where
  "GetValueIn c = sum_list (map inc_nAmount (ctx_vin c))"

definition Save_ctx :: "CTxContxt \<Rightarrow> bytes" where
  "Save_ctx c = Save_dest (ctx_destIn c) @ Save_vector Save_inc (ctx_vin c)"

definition Load_ctx :: "CTxContxt loader" where
  "Load_ctx s = do {
     (d, s) \<leftarrow> Load_dest s; (v, s) \<leftarrow> Load_vector Load_inc s;
     Some (\<lparr>ctx_destIn = d, ctx_vin = v\<rparr>, s) }"

interpretation ctx: codec Save_ctx Load_ctx "\<lambda>c. 33 + Size_vector (\<lambda>_. 16) (ctx_vin c)"
  "\<lambda>c. vec_ok (\<lambda>i. int64_range (inc_nAmount i)) (ctx_vin c)"
  by unfold_locales
    (simp_all add: Save_ctx_def Load_ctx_def dest.load_save dest.save_size
      codec.load_save [OF inc.vector] codec.save_size [OF inc.vector])

record CTxIndex =
  txi_nBlockHeight :: int
  txi_nFile :: uint32
  txi_nOffset :: uint32

definition txi_null :: CTxIndex where
  "txi_null = \<lparr>txi_nBlockHeight = 0, txi_nFile = 0, txi_nOffset = 0\<rparr>"

definition txi_IsNull :: "CTxIndex \<Rightarrow> bool" where
  "txi_IsNull i \<longleftrightarrow> txi_nFile i = 0"

section \<open>Lemmas\<close>

lemma CTxId_of_tx:
  "CTxId_GetTxTime (tx_GetHash env tx) = tx_nTimeStamp tx"
  "CTxId_GetTxHash (tx_GetHash env tx) = take_bit 224 (CryptoHash env (Save_tx tx))"
  by (simp_all add: CTxId_GetTxTime_def CTxId_GetTxHash_def tx_GetHash_def high_low_parts)

lemma SetLockUntil_GetLockUntil:
  assumes "SetLockUntil tx nHeight n = (True, tx')" and "int32_range nHeight" and "n < 2"
  shows "GetLockUntil tx' n = word_of_int nHeight" and "m < 2 \<Longrightarrow> m \<noteq> n \<Longrightarrow> GetLockUntil tx' m = 0"
proof -
  define w :: uint32 where "w = word_of_int nHeight"
  have h: "0 \<le> nHeight" "nHeight < 2 ^ 31" and tx': "tx_nLockUntil tx' = bit_or (push_bit 31 n) w"
    using assms by (auto simp: SetLockUntil_def int32_range_def w_def split: if_splits)
  obtain k where k: "nHeight = int k" "k < 2 ^ 31" using h by (metis nonneg_int_cases of_nat_less_numeral_power_cancel_iff)
  then have "unat w < 2 ^ 31" by (simp add: w_def unat_of_nat)
  then have wlow: "bit w i \<Longrightarrow> i < 31" for i by (rule bit_word_lt)
  have nlow: "bit n i \<Longrightarrow> i < 1" for i
    using bit_word_lt [of n 1 i] assms(3) by (simp add: word_less_nat_alt)
  have top: "drop_bit 31 (tx_nLockUntil tx') = n"
    unfolding tx' by (rule bit_word_eqI) (auto simp: bit_drop_bit_eq bit_or_iff bit_push_bit_iff dest: wlow nlow)
  have "bit_and x 0x7FFFFFFF = take_bit 31 x" for x :: uint32
    unfolding take_bit_eq_mask mask_eq_exp_minus_1 by simp
  then have low: "bit_and (tx_nLockUntil tx') 0x7FFFFFFF = w"
    unfolding tx' by (auto intro!: bit_word_eqI simp: bit_take_bit_iff bit_or_iff bit_push_bit_iff dest: wlow)
  show "GetLockUntil tx' n = word_of_int nHeight" by (simp add: GetLockUntil_def top low w_def)
  show "m < 2 \<Longrightarrow> m \<noteq> n \<Longrightarrow> GetLockUntil tx' m = 0" by (simp add: GetLockUntil_def top)
qed

section \<open>Properties\<close>

text \<open>A transaction read back from the stream it was written to is the same transaction, the
  rest of the stream is untouched, and the announced size is the number of bytes written.\<close>

theorem transaction_roundtrip:
  assumes "tx_ok tx"
  shows "Load_tx (Save_tx tx @ r) = Some (tx, r) \<and> length (Save_tx tx) = Size_tx tx"
  using assms by (simp add: tx.load_save tx.save_size)

definition example_tx :: CTransaction where
  "example_tx = tx_null\<lparr>tx_nTimeStamp := 1515745200, tx_vInput := [CTxOutPoint 77 0, CTxOutPoint 77 1],
     tx_sendTo := dest_pubkey 9, tx_nAmount := 5000000, tx_nTxFee := 100\<rparr>"

theorem transaction_roundtrip_witness:
  "tx_ok example_tx \<and> Load_tx (Save_tx example_tx) = Some (example_tx, [])"
proof -
  have ok: "tx_ok example_tx" by (simp add: tx_ok_def example_tx_def tx_null_def int64_range_def)
  show ?thesis using transaction_roundtrip [OF ok, of "[]"] ok by simp
qed

text \<open>A height stored with \<^verbatim>\<open>SetLockUntil\<close> for one of the two outputs is what
  \<^verbatim>\<open>GetLockUntil\<close> returns for that output, and the other output is unlocked.\<close>

theorem lock_until_roundtrip:
  assumes "SetLockUntil tx nHeight n = (True, tx')" and "int32_range nHeight" and "n < 2" and "m < 2"
  shows "GetLockUntil tx' m = (if m = n then word_of_int nHeight else 0)"
  using SetLockUntil_GetLockUntil [OF assms(1-3)] assms(4) by auto

theorem lock_until_roundtrip_witness:
  "\<exists>tx'. SetLockUntil example_tx 1000 1 = (True, tx') \<and> GetLockUntil tx' 1 = 1000 \<and> GetLockUntil tx' 0 = 0"
proof -
  obtain tx' where s: "SetLockUntil example_tx 1000 1 = (True, tx')" by (simp add: SetLockUntil_def)
  show ?thesis
    using lock_until_roundtrip [OF s, of 1] lock_until_roundtrip [OF s, of 0] s by (simp add: int32_range_def)
qed

text \<open>The pool and the chain see different locks on the outputs of one transaction.  The
  output built by \<^verbatim>\<open>CAssembledTx::GetOutput\<close> is locked only if the flag in the top bit selects it; the
  constructors of \<^verbatim>\<open>CTxOutput\<close> lock the payment whichever output the flag selects, and never the
  change.\<close>

theorem output_locks_differ:
  "out_IsLocked (out_of_tx tx) h = lock_active (tx_nLockUntil tx) h
   \<and> \<not> out_IsLocked (out_change tx d v) h
   \<and> out_IsLocked (GetOutput \<lparr>atx_tx = tx, atx_destIn = d, atx_nValueIn = v, atx_nBlockHeight = b\<rparr> 0) h =
       (drop_bit 31 (tx_nLockUntil tx) = 0 \<and> lock_active (tx_nLockUntil tx) h)
   \<and> out_IsLocked (GetOutput \<lparr>atx_tx = tx, atx_destIn = d, atx_nValueIn = v, atx_nBlockHeight = b\<rparr> 1) h =
       (drop_bit 31 (tx_nLockUntil tx) = 1 \<and> lock_active (tx_nLockUntil tx) h)"
  by (auto simp: out_IsLocked_def out_of_tx_def out_change_def GetOutput_def lock_active_def GetLockUntil_def and.assoc)

end
