(* ===== verification/Block.thy ===== *)
theory Block
  imports Transaction
begin

text \<open>
  Blocks, \<^verbatim>\<open>src/common/block.h\<close>, and the proofs they carry, \<^verbatim>\<open>src/common/proof.h\<close>.

  The Merkle tree is modelled with the array and the index arithmetic of the source; the lemmas
  relate it to the pairwise reduction it computes.  A block index entry refers to other entries by
  their block hash, the key under which \<^verbatim>\<open>CBlockBase\<close> stores them.
\<close>

section \<open>Proofs\<close>

datatype CProofOfSecretShare = CProofOfSecretShare (pss_nWeight: uint8) (pss_nAgreement: uint256)

definition pss_Save :: "CProofOfSecretShare \<Rightarrow> bytes" where
  "pss_Save p = Save_uint (pss_nWeight p) @ Save_uint (pss_nAgreement p)"

definition pss_Read :: "CProofOfSecretShare ds_reader" where
  "pss_Read s = ebind (IDS_uint s) (\<lambda>(w, r). ebind (IDS_uint r) (\<lambda>(a, r'). Inr (CProofOfSecretShare w a, r')))"

datatype CProofOfPiggyback = CProofOfPiggyback (pgb_share: CProofOfSecretShare) (pgb_hashRefBlock: uint256)

definition pgb_Save :: "CProofOfPiggyback \<Rightarrow> bytes" where
  "pgb_Save p = pss_Save (pgb_share p) @ Save_uint (pgb_hashRefBlock p)"

definition pgb_Read :: "CProofOfPiggyback ds_reader" where
  "pgb_Read s = ebind (pss_Read s) (\<lambda>(p, r). ebind (IDS_uint r) (\<lambda>(h, r'). Inr (CProofOfPiggyback p h, r')))"

datatype CProofOfHashWork =
  CProofOfHashWork (phw_share: CProofOfSecretShare) (phw_nAlgo: uint8) (phw_nBits: uint8) (phw_nNonce: uint256)

definition phw_Save :: "CProofOfHashWork \<Rightarrow> bytes" where
  "phw_Save p = pss_Save (phw_share p) @ Save_uint (phw_nAlgo p) @ Save_uint (phw_nBits p) @ Save_uint (phw_nNonce p)"

definition phw_Read :: "CProofOfHashWork ds_reader" where
  "phw_Read s = ebind (pss_Read s) (\<lambda>(p, r). ebind (IDS_uint r) (\<lambda>(a, r1). ebind (IDS_uint r1) (\<lambda>(b, r2).
     ebind (IDS_uint r2) (\<lambda>(n, r3). Inr (CProofOfHashWork p a b n, r3)))))"

text \<open>The compact view of the last 34 bytes of a proof.  Both methods address the bytes from the end
  of the vector without a check; \<^const>\<open>None\<close> marks a vector that is too short.\<close>

abbreviation (input) PROOFHASHWORK_SIZE :: nat where "PROOFHASHWORK_SIZE \<equiv> 34"

datatype CProofOfHashWorkCompact =
  CProofOfHashWorkCompact (phc_nAlgo: uint8) (phc_nBits: uint8) (phc_nNonce: uint256)

definition phc_Save :: "CProofOfHashWorkCompact \<Rightarrow> bytes \<Rightarrow> bytes option" where
  "phc_Save p vch =
     (if length vch < PROOFHASHWORK_SIZE then None
      else Some (take (length vch - PROOFHASHWORK_SIZE) vch @ [phc_nAlgo p, phc_nBits p] @ Save_uint (phc_nNonce p)))"

definition phc_Load :: "bytes \<Rightarrow> CProofOfHashWorkCompact option" where
  "phc_Load vch =
     (if length vch < PROOFHASHWORK_SIZE then None
      else let p = drop (length vch - PROOFHASHWORK_SIZE) vch
           in Some (CProofOfHashWorkCompact (p ! 0) (p ! 1) (word_of_nat (le_val (drop 2 p)))))"

section \<open>CBlock\<close>

record CBlock =
  blk_nVersion :: uint16
  blk_nType :: uint16
  blk_nTimeStamp :: uint32
  blk_hashPrev :: uint256
  blk_hashMerkle :: uint256
  blk_vchProof :: bytes
  blk_txMint :: CTransaction
  blk_vtx :: "CTransaction list"
  blk_vchSig :: bytes

abbreviation (input) BLOCK_GENESIS :: uint16 where "BLOCK_GENESIS \<equiv> 0xffff"
abbreviation (input) BLOCK_ORIGIN :: uint16 where "BLOCK_ORIGIN \<equiv> 0xff00"
abbreviation (input) BLOCK_PRIMARY :: uint16 where "BLOCK_PRIMARY \<equiv> 0x0001"
abbreviation (input) BLOCK_SUBSIDIARY :: uint16 where "BLOCK_SUBSIDIARY \<equiv> 0x0002"
abbreviation (input) BLOCK_EXTENDED :: uint16 where "BLOCK_EXTENDED \<equiv> 0x0004"
abbreviation (input) BLOCK_VACANT :: uint16 where "BLOCK_VACANT \<equiv> 0x0008"

definition blk_null :: CBlock where
  "blk_null = \<lparr>blk_nVersion = 1, blk_nType = 0, blk_nTimeStamp = 0, blk_hashPrev = 0, blk_hashMerkle = 0,
     blk_vchProof = [], blk_txMint = tx_null, blk_vtx = [], blk_vchSig = []\<rparr>"

definition blk_IsNull :: "CBlock \<Rightarrow> bool" where
  "blk_IsNull b \<longleftrightarrow> blk_nType b = 0 \<or> blk_nTimeStamp b = 0 \<or> tx_IsNull (blk_txMint b)"

text \<open>The type tests, shared by \<^verbatim>\<open>CBlock\<close> and \<^verbatim>\<open>CBlockIndex\<close>.\<close>

definition type_IsOrigin :: "uint16 \<Rightarrow> bool" where
  "type_IsOrigin t \<longleftrightarrow> drop_bit 15 t \<noteq> 0"

definition type_IsPrimary :: "uint16 \<Rightarrow> bool" where
  "type_IsPrimary t \<longleftrightarrow> bit_and t 1 \<noteq> 0"

definition blk_IsProofOfWork :: "CBlock \<Rightarrow> bool" where
  "blk_IsProofOfWork b \<longleftrightarrow> tx_nType (blk_txMint b) = TX_WORK"

definition blk_GetHash :: "crypto_env \<Rightarrow> CBlock \<Rightarrow> uint256" where
  "blk_GetHash env b = CryptoHash env
     (Save_uint (blk_nVersion b) @ Save_uint (blk_nType b) @ Save_uint (blk_nTimeStamp b) @
      Save_uint (blk_hashPrev b) @ Save_uint (blk_hashMerkle b) @ Save_vch (blk_vchProof b) @ Save_tx (blk_txMint b))"

definition GetTxSerializedOffset :: "CBlock \<Rightarrow> nat" where
  "GetTxSerializedOffset b = 2 + 2 + 4 + 32 + 32 + Size_vch (blk_vchProof b)"

definition GetSerializedProofOfWorkData :: "CBlock \<Rightarrow> bytes" where
  "GetSerializedProofOfWorkData b =
     Save_uint (blk_nVersion b) @ Save_uint (blk_nType b) @ Save_uint (blk_nTimeStamp b) @
     Save_uint (blk_hashPrev b) @ Save_vch (blk_vchProof b)"

definition Get64 :: "uint256 \<Rightarrow> nat \<Rightarrow> uint64" where
  "Get64 w n = ucast (drop_bit (64 * n) w)"

definition GetBlockBeacon :: "CBlock \<Rightarrow> nat \<Rightarrow> uint64" where
  "GetBlockBeacon b idx = (if blk_vchProof b = [] then Get64 (blk_hashPrev b) (idx mod 4) else 0)"

definition GetBlockTrust :: "CBlock \<Rightarrow> uint64" where
  "GetBlockTrust b =
     (if blk_nType b = BLOCK_VACANT then 0
      else if blk_vchProof b = [] then 1
      else if blk_IsProofOfWork b then 1
      else ucast (blk_vchProof b ! 0))"

definition GetBlockMint :: "CBlock \<Rightarrow> int" where
  "GetBlockMint b = tx_nAmount (blk_txMint b) - sum_list (map tx_nTxFee (blk_vtx b))"

definition GetBlockTypeStr :: "uint16 \<Rightarrow> uint16 \<Rightarrow> string" where
  "GetBlockTypeStr nType nMintType =
     (if nType = BLOCK_GENESIS then ''genesis''
      else if nType = BLOCK_ORIGIN then ''origin''
      else if nType = BLOCK_EXTENDED then ''extended''
      else let str = (if nType = BLOCK_VACANT then ''vacant''
                      else if nType = BLOCK_SUBSIDIARY then ''subsidiary-''
                      else if nType = BLOCK_PRIMARY then ''primary-''
                      else ''undefined-'')
           in if nMintType = TX_WORK then str @ ''pow''
              else if nMintType = TX_STAKE then str @ ''dpos''
              else str)"

section \<open>Merkle tree\<close>

text \<open>One level: the loop over \<open>i\<close> appends the hashes of the pairs of the level that starts at \<open>j\<close>.\<close>

fun merkle_level :: "crypto_env \<Rightarrow> nat \<Rightarrow> nat \<Rightarrow> nat list \<Rightarrow> uint256 list \<Rightarrow> uint256 list" where
  "merkle_level env j nSize [] tree = tree"
| "merkle_level env j nSize (i # is) tree =
     (let i2 = min (i + 1) (nSize - 1)
      in merkle_level env j nSize is (tree @ [CryptoHash2 env (tree ! (j + i)) (tree ! (j + i2))]))"

function merkle_loop :: "crypto_env \<Rightarrow> nat \<Rightarrow> nat \<Rightarrow> uint256 list \<Rightarrow> uint256 list" where
  "merkle_loop env j nSize tree =
     (if nSize > 1 then
        merkle_loop env (j + nSize) ((nSize + 1) div 2)
          (merkle_level env j nSize (map (\<lambda>k. 2 * k) [0..<(nSize + 1) div 2]) tree)
      else tree)"
  by auto
termination
  by (relation "measure (\<lambda>(_, _, n, _). n)") auto

declare merkle_loop.simps [simp del]

definition BuildMerkleTree :: "crypto_env \<Rightarrow> CTransaction list \<Rightarrow> uint256 list" where
  "BuildMerkleTree env vtx = merkle_loop env 0 (length vtx) (map (tx_GetHash env) vtx)"

definition CalcMerkleTreeRoot :: "crypto_env \<Rightarrow> CTransaction list \<Rightarrow> uint256" where
  "CalcMerkleTreeRoot env vtx =
     (let tree = BuildMerkleTree env vtx in if tree = [] then 0 else last tree)"

section \<open>Serialisation of blocks\<close>

definition Save_block :: "CBlock \<Rightarrow> bytes" where
  "Save_block b =
     Save_uint (blk_nVersion b) @ Save_uint (blk_nType b) @ Save_uint (blk_nTimeStamp b) @
     Save_uint (blk_hashPrev b) @ Save_uint (blk_hashMerkle b) @ Save_vch (blk_vchProof b) @
     Save_tx (blk_txMint b) @ Save_vector Save_tx (blk_vtx b) @ Save_vch (blk_vchSig b)"

definition Load_block :: "CBlock loader" where
  "Load_block s = do {
     (nVersion, s) \<leftarrow> Load_uint s;
     (nType, s) \<leftarrow> Load_uint s;
     (nTimeStamp, s) \<leftarrow> Load_uint s;
     (hashPrev, s) \<leftarrow> Load_uint s;
     (hashMerkle, s) \<leftarrow> Load_uint s;
     (vchProof, s) \<leftarrow> Load_vch s;
     (txMint, s) \<leftarrow> Load_tx s;
     (vtx, s) \<leftarrow> Load_vector Load_tx s;
     (vchSig, s) \<leftarrow> Load_vch s;
     Some (\<lparr>blk_nVersion = nVersion, blk_nType = nType, blk_nTimeStamp = nTimeStamp, blk_hashPrev = hashPrev,
       blk_hashMerkle = hashMerkle, blk_vchProof = vchProof, blk_txMint = txMint, blk_vtx = vtx,
       blk_vchSig = vchSig\<rparr>, s) }"

definition Size_block :: "CBlock \<Rightarrow> nat" where
  "Size_block b = 2 + 2 + 4 + 32 + 32 + Size_vch (blk_vchProof b) + Size_tx (blk_txMint b)
     + Size_vector Size_tx (blk_vtx b) + Size_vch (blk_vchSig b)"

definition blk_ok :: "CBlock \<Rightarrow> bool" where
  "blk_ok b \<longleftrightarrow> length (blk_vchProof b) < 2 ^ 64 \<and> tx_ok (blk_txMint b) \<and> vec_ok tx_ok (blk_vtx b)
     \<and> length (blk_vchSig b) < 2 ^ 64"

interpretation txs: codec "Save_vector Save_tx" "Load_vector Load_tx" "Size_vector Size_tx" "vec_ok tx_ok"
  by (rule tx.vector)

interpretation block: codec Save_block Load_block Size_block blk_ok
  by unfold_locales
    (simp_all add: Save_block_def Load_block_def Size_block_def blk_ok_def load_save_laws save_size_laws
      tx.load_save tx.save_size txs.load_save txs.save_size)

text \<open>\<^verbatim>\<open>CBlockEx\<close> adds the contexts of the transactions' inputs.\<close>

record CBlockEx =
  bex_block :: CBlock
  bex_vTxContxt :: "CTxContxt list"

definition Save_blockex :: "CBlockEx \<Rightarrow> bytes" where
  "Save_blockex b = Save_block (bex_block b) @ Save_vector Save_ctx (bex_vTxContxt b)"

definition Load_blockex :: "CBlockEx loader" where
  "Load_blockex s = do {
     (b, s) \<leftarrow> Load_block s; (v, s) \<leftarrow> Load_vector Load_ctx s;
     Some (\<lparr>bex_block = b, bex_vTxContxt = v\<rparr>, s) }"

abbreviation ctx_ok :: "CTxContxt \<Rightarrow> bool" where
  "ctx_ok c \<equiv> vec_ok (\<lambda>i. int64_range (inc_nAmount i)) (ctx_vin c)"

interpretation blockex: codec Save_blockex Load_blockex
  "\<lambda>b. Size_block (bex_block b) + Size_vector (\<lambda>c. 33 + Size_vector (\<lambda>_. 16) (ctx_vin c)) (bex_vTxContxt b)"
  "\<lambda>b. blk_ok (bex_block b) \<and> vec_ok ctx_ok (bex_vTxContxt b)"
  by unfold_locales
    (simp_all add: Save_blockex_def Load_blockex_def block.load_save block.save_size
      codec.load_save [OF ctx.vector] codec.save_size [OF ctx.vector])

section \<open>Block index entries\<close>

record CBlockIndex =
  idx_hash :: uint256
  idx_pOrigin :: uint256
  idx_pPrev :: "uint256 option"
  idx_pNext :: "uint256 option"
  idx_txidMint :: uint256
  idx_nMintType :: uint16
  idx_nVersion :: uint16
  idx_nType :: uint16
  idx_nTimeStamp :: uint32
  idx_nHeight :: int
  idx_nRandBeacon :: uint64
  idx_nChainTrust :: uint64
  idx_nMoneySupply :: int
  idx_nProofAlgo :: uint8
  idx_nProofBits :: uint8
  idx_nFile :: uint32
  idx_nOffset :: uint32

definition idx_of_block :: "crypto_env \<Rightarrow> uint256 \<Rightarrow> CBlock \<Rightarrow> uint32 \<Rightarrow> uint32 \<Rightarrow> CBlockIndex" where
  "idx_of_block env hash b nFile nOffset =
     (let proof = (if blk_IsProofOfWork b \<and> length (blk_vchProof b) \<ge> PROOFHASHWORK_SIZE
                   then phc_Load (blk_vchProof b) else None)
      in \<lparr>idx_hash = hash, idx_pOrigin = hash, idx_pPrev = None, idx_pNext = None,
       idx_txidMint = (if blk_nType b = BLOCK_VACANT then 0 else tx_GetHash env (blk_txMint b)),
       idx_nMintType = tx_nType (blk_txMint b), idx_nVersion = blk_nVersion b, idx_nType = blk_nType b,
       idx_nTimeStamp = blk_nTimeStamp b, idx_nHeight = 0, idx_nRandBeacon = 0, idx_nChainTrust = 0,
       idx_nMoneySupply = 0,
       idx_nProofAlgo = (case proof of Some p \<Rightarrow> phc_nAlgo p | None \<Rightarrow> 0),
       idx_nProofBits = (case proof of Some p \<Rightarrow> phc_nBits p | None \<Rightarrow> 0),
       idx_nFile = nFile, idx_nOffset = nOffset\<rparr>)"

text \<open>\<^verbatim>\<open>CBlockOutline\<close>: the stored form of an entry.\<close>

record CBlockOutline =
  ol_hashBlock :: uint256
  ol_hashPrev :: uint256
  ol_hashOrigin :: uint256
  ol_index :: CBlockIndex

definition outline_of :: "CBlockIndex \<Rightarrow> CBlockOutline" where
  "outline_of i = \<lparr>ol_hashBlock = idx_hash i, ol_hashPrev = (case idx_pPrev i of Some h \<Rightarrow> h | None \<Rightarrow> 0),
     ol_hashOrigin = idx_pOrigin i, ol_index = i\<rparr>"

definition Save_outline :: "CBlockOutline \<Rightarrow> bytes" where
  "Save_outline o' = (let i = ol_index o' in
     Save_uint (ol_hashBlock o') @ Save_uint (ol_hashPrev o') @ Save_uint (ol_hashOrigin o') @
     Save_uint (idx_txidMint i) @ Save_uint (idx_nMintType i) @ Save_uint (idx_nVersion i) @
     Save_uint (idx_nType i) @ Save_uint (idx_nTimeStamp i) @ Save_int 4 (idx_nHeight i) @
     Save_uint (idx_nRandBeacon i) @ Save_uint (idx_nChainTrust i) @ Save_int 8 (idx_nMoneySupply i) @
     Save_uint (idx_nProofAlgo i) @ Save_uint (idx_nProofBits i) @ Save_uint (idx_nFile i) @
     Save_uint (idx_nOffset i))"

definition Load_outline :: "CBlockOutline loader" where
  "Load_outline s = do {
     (hashBlock, s) \<leftarrow> Load_uint s; (hashPrev, s) \<leftarrow> Load_uint s; (hashOrigin, s) \<leftarrow> Load_uint s;
     (txidMint, s) \<leftarrow> Load_uint s; (nMintType, s) \<leftarrow> Load_uint s; (nVersion, s) \<leftarrow> Load_uint s;
     (nType, s) \<leftarrow> Load_uint s; (nTimeStamp, s) \<leftarrow> Load_uint s; (nHeight, s) \<leftarrow> Load_int 4 s;
     (nRandBeacon, s) \<leftarrow> Load_uint s; (nChainTrust, s) \<leftarrow> Load_uint s; (nMoneySupply, s) \<leftarrow> Load_int 8 s;
     (nProofAlgo, s) \<leftarrow> Load_uint s; (nProofBits, s) \<leftarrow> Load_uint s; (nFile, s) \<leftarrow> Load_uint s;
     (nOffset, s) \<leftarrow> Load_uint s;
     Some (\<lparr>ol_hashBlock = hashBlock, ol_hashPrev = hashPrev, ol_hashOrigin = hashOrigin,
       ol_index = \<lparr>idx_hash = hashBlock, idx_pOrigin = hashBlock, idx_pPrev = None, idx_pNext = None,
         idx_txidMint = txidMint, idx_nMintType = nMintType, idx_nVersion = nVersion, idx_nType = nType,
         idx_nTimeStamp = nTimeStamp, idx_nHeight = nHeight, idx_nRandBeacon = nRandBeacon,
         idx_nChainTrust = nChainTrust, idx_nMoneySupply = nMoneySupply, idx_nProofAlgo = nProofAlgo,
         idx_nProofBits = nProofBits, idx_nFile = nFile, idx_nOffset = nOffset\<rparr>\<rparr>, s) }"

section \<open>The proofs' codecs\<close>

interpretation pss: ds_codec pss_Save pss_Read "\<lambda>_. True"
  by unfold_locales
    (auto simp: pss_Save_def pss_Read_def ds8.read_write ds256.read_write split: CProofOfSecretShare.splits)

interpretation pgb: ds_codec pgb_Save pgb_Read "\<lambda>_. True"
  by unfold_locales (simp add: pgb_Save_def pgb_Read_def pss.read_write ds256.read_write)

interpretation phw: ds_codec phw_Save phw_Read "\<lambda>_. True"
  by unfold_locales (simp add: phw_Save_def phw_Read_def pss.read_write ds8.read_write ds256.read_write)

interpretation outline: codec Save_outline Load_outline "\<lambda>_. 176"
  "\<lambda>b. int32_range (idx_nHeight (ol_index b)) \<and> int64_range (idx_nMoneySupply (ol_index b))
     \<and> idx_hash (ol_index b) = ol_hashBlock b \<and> idx_pOrigin (ol_index b) = ol_hashBlock b
     \<and> idx_pPrev (ol_index b) = None \<and> idx_pNext (ol_index b) = None"
  by unfold_locales
    (auto simp: Save_outline_def Load_outline_def Let_def load_save_laws save_size_laws)

lemma phc_Load_Save:
  assumes "phc_Save p vch = Some vch'"
  shows "phc_Load vch' = Some p" and "length vch' = length vch"
    and "take (length vch - PROOFHASHWORK_SIZE) vch' = take (length vch - PROOFHASHWORK_SIZE) vch"
proof -
  define pre where "pre = take (length vch - PROOFHASHWORK_SIZE) vch"
  have l: "34 \<le> length vch" and vch': "vch' = pre @ phc_nAlgo p # phc_nBits p # Save_uint (phc_nNonce p)"
    and n: "length pre = length vch - 34"
    using assms by (auto simp: phc_Save_def pre_def split: if_splits)
  have len: "length vch' = length vch" using l n by (simp add: vch' length_Save_uint)
  then have "drop (length vch' - 34) vch' = phc_nAlgo p # phc_nBits p # Save_uint (phc_nNonce p)"
    by (simp add: vch' n [symmetric])
  then show "phc_Load vch' = Some p" using l len by (simp add: phc_Load_def le_val_Save_uint256)
  show "length vch' = length vch" by (rule len)
  show "take (length vch - PROOFHASHWORK_SIZE) vch' = take (length vch - PROOFHASHWORK_SIZE) vch"
    using n by (simp add: vch' pre_def)
qed

text \<open>The compact view reads the tail of a full proof.\<close>

lemma Save_uint_byte: "Save_uint (b :: uint8) = [b]"
proof -
  have "unat b < 256" using unsigned_less [of b] by simp
  then show ?thesis by (simp add: Save_uint_def sizeof_uint_def)
qed

lemma phc_Load_phw_Save:
  "phc_Load (phw_Save p) = Some (CProofOfHashWorkCompact (phw_nAlgo p) (phw_nBits p) (phw_nNonce p))"
  by (simp add: phc_Load_def phw_Save_def pss_Save_def length_Save_uint le_val_Save_uint256 Save_uint_byte)

section \<open>What the Merkle loop computes\<close>

fun pairs_of :: "'a list \<Rightarrow> ('a \<times> 'a) list" where
  "pairs_of [] = []"
| "pairs_of [x] = [(x, x)]"
| "pairs_of (x # y # zs) = (x, y) # pairs_of zs"

abbreviation hash_pair :: "crypto_env \<Rightarrow> uint256 \<times> uint256 \<Rightarrow> uint256" where
  "hash_pair env p \<equiv> CryptoHash2 env (fst p) (snd p)"

lemma length_pairs_of [simp]: "length (pairs_of xs) = (length xs + 1) div 2"
  by (induction xs rule: pairs_of.induct) auto

lemma pairs_of_nth:
  "k < (length xs + 1) div 2 \<Longrightarrow>
     pairs_of xs ! k = (xs ! (2 * k), xs ! min (2 * k + 1) (length xs - 1))"
proof (induction xs arbitrary: k rule: pairs_of.induct)
  case (3 x y zs)
  show ?case
  proof (cases k)
    case (Suc j)
    then have "j < (length zs + 1) div 2" using 3(2) by simp
    with 3(1) [OF this] Suc show ?thesis
      by (cases "zs = []") (auto simp: min_def)
  qed simp
qed auto

text \<open>The levels of the tree, bottom first, and the root.\<close>

function merkle_levels :: "crypto_env \<Rightarrow> uint256 list \<Rightarrow> uint256 list" where
  "merkle_levels env xs =
     (if length xs > 1 then xs @ merkle_levels env (map (hash_pair env) (pairs_of xs)) else xs)"
  by auto
termination
  by (relation "measure (\<lambda>(_, xs). length xs)") auto

function merkle_root :: "crypto_env \<Rightarrow> uint256 list \<Rightarrow> uint256" where
  "merkle_root env xs =
     (if length xs > 1 then merkle_root env (map (hash_pair env) (pairs_of xs))
      else if xs = [] then 0 else hd xs)"
  by auto
termination
  by (relation "measure (\<lambda>(_, xs). length xs)") auto

text \<open>Every pair of nodes that is hashed on the way to the root.\<close>

function merkle_pairs :: "crypto_env \<Rightarrow> uint256 list \<Rightarrow> (uint256 \<times> uint256) list" where
  "merkle_pairs env xs =
     (if length xs > 1 then pairs_of xs @ merkle_pairs env (map (hash_pair env) (pairs_of xs)) else [])"
  by auto
termination
  by (relation "measure (\<lambda>(_, xs). length xs)") auto

declare merkle_levels.simps [simp del] merkle_root.simps [simp del] merkle_pairs.simps [simp del]

lemma merkle_level_step:
  assumes "length xs = n" and "set is \<subseteq> {0..<n}" and "length pre = j"
  shows "merkle_level env j n is (pre @ xs @ done) =
     pre @ xs @ done @ map (\<lambda>i. CryptoHash2 env (xs ! i) (xs ! min (i + 1) (n - 1))) is"
  using assms(2)
proof (induction "is" arbitrary: "done")
  case (Cons i "is")
  then have "i < n" by simp
  then have "(pre @ xs @ done) ! (j + i) = xs ! i"
    and "(pre @ xs @ done) ! (j + min (i + 1) (n - 1)) = xs ! min (i + 1) (n - 1)"
    using assms(1,3) by (auto simp: nth_append min_def)
  with Cons show ?case by (simp add: Let_def)
qed simp

lemma merkle_level_pairs:
  assumes "length xs = n" and "length pre = j"
  shows "merkle_level env j n (map (\<lambda>k. 2 * k) [0..<(n + 1) div 2]) (pre @ xs) =
     pre @ xs @ map (hash_pair env) (pairs_of xs)"
proof -
  have "map (\<lambda>i. CryptoHash2 env (xs ! i) (xs ! min (i + 1) (n - 1))) (map (\<lambda>k. 2 * k) [0..<(n + 1) div 2])
      = map (hash_pair env) (pairs_of xs)"
    by (rule nth_equalityI) (simp_all add: assms(1) pairs_of_nth)
  moreover have "set (map (\<lambda>k. 2 * k) [0..<(n + 1) div 2]) \<subseteq> {0..<n}" by auto
  ultimately show ?thesis
    using merkle_level_step [OF assms(1) _ assms(2), of _ env "[]"] by simp
qed

lemma merkle_loop_levels:
  "length pre = j \<Longrightarrow> length xs = n \<Longrightarrow> merkle_loop env j n (pre @ xs) = pre @ merkle_levels env xs"
proof (induction env xs arbitrary: pre j n rule: merkle_levels.induct)
  case (1 env xs)
  show ?case
  proof (cases "n > 1")
    case True
    then have "merkle_loop env j n (pre @ xs) =
        merkle_loop env (j + n) ((n + 1) div 2) ((pre @ xs) @ map (hash_pair env) (pairs_of xs))"
      using merkle_level_pairs [OF 1(3) 1(2)] by (simp add: merkle_loop.simps [of _ j])
    also have "\<dots> = (pre @ xs) @ merkle_levels env (map (hash_pair env) (pairs_of xs))"
      using True 1 by (intro 1(1)) auto
    finally show ?thesis using True 1(3) by (simp add: merkle_levels.simps [of _ xs])
  next
    case False
    then show ?thesis using 1(3) by (simp add: merkle_loop.simps merkle_levels.simps)
  qed
qed

lemma merkle_levels_root:
  "(if merkle_levels env xs = [] then 0 else last (merkle_levels env xs)) = merkle_root env xs"
proof (induction env xs rule: merkle_root.induct)
  case (1 env xs)
  show ?case
  proof (cases "length xs > 1")
    case True
    then have "pairs_of xs \<noteq> []" by (cases xs rule: pairs_of.cases) auto
    then have "merkle_levels env (map (hash_pair env) (pairs_of xs)) \<noteq> []"
      by (subst merkle_levels.simps) simp
    with 1 True show ?thesis
      by (simp add: merkle_levels.simps [of _ xs] merkle_root.simps [of _ xs])
  next
    case False
    then have "xs = [] \<or> (\<exists>x. xs = [x])" by (cases xs rule: pairs_of.cases) auto
    then show ?thesis by (auto simp: merkle_levels.simps [of _ "[]"] merkle_levels.simps [of _ "[_]"]
        merkle_root.simps [of _ "[]"] merkle_root.simps [of _ "[_]"])
  qed
qed

lemma CalcMerkleTreeRoot_eq: "CalcMerkleTreeRoot env vtx = merkle_root env (map (tx_GetHash env) vtx)"
  using merkle_loop_levels [of "[]" 0 "map (tx_GetHash env) vtx" "length vtx" env]
    merkle_levels_root [of env "map (tx_GetHash env) vtx"]
  by (simp add: CalcMerkleTreeRoot_def BuildMerkleTree_def Let_def)

lemma BuildMerkleTree_eq: "BuildMerkleTree env vtx = merkle_levels env (map (tx_GetHash env) vtx)"
  using merkle_loop_levels [of "[]" 0 "map (tx_GetHash env) vtx" "length vtx" env]
  by (simp add: BuildMerkleTree_def)

lemma BuildMerkleTree_leaves: "take (length vtx) (BuildMerkleTree env vtx) = map (tx_GetHash env) vtx"
  unfolding BuildMerkleTree_eq by (subst merkle_levels.simps) simp

lemma pairs_of_inj: "length xs = length ys \<Longrightarrow> pairs_of xs = pairs_of ys \<Longrightarrow> xs = ys"
proof (induction xs arbitrary: ys rule: pairs_of.induct)
  case (2 x)
  then show ?case by (cases ys rule: pairs_of.cases) auto
next
  case (3 x y zs)
  then show ?case by (cases ys rule: pairs_of.cases) auto
qed simp

text \<open>Two lists of the same length with the same root are equal unless the computation of the two
  roots hashed two different pairs to the same value.\<close>

lemma merkle_root_inj:
  assumes "length xs = length ys" and "merkle_root env xs = merkle_root env ys"
    and "inj_on (hash_pair env) (set (merkle_pairs env xs) \<union> set (merkle_pairs env ys))"
  shows "xs = ys"
  using assms
proof (induction env xs arbitrary: ys rule: merkle_root.induct)
  case (1 env xs)
  show ?case
  proof (cases "length xs > 1")
    case True
    let ?up = "\<lambda>zs. map (hash_pair env) (pairs_of zs)"
    have "?up xs = ?up ys"
    proof (rule 1(1) [OF True])
      show "merkle_root env (?up xs) = merkle_root env (?up ys)"
        using True 1(2,3) by (simp add: merkle_root.simps [of _ xs] merkle_root.simps [of _ ys])
      show "inj_on (hash_pair env) (set (merkle_pairs env (?up xs)) \<union> set (merkle_pairs env (?up ys)))"
        using True 1(2,4) by (auto simp: merkle_pairs.simps [of _ xs] merkle_pairs.simps [of _ ys] elim: inj_on_subset)
    qed (use 1(2) in simp)
    moreover have "inj_on (hash_pair env) (set (pairs_of xs) \<union> set (pairs_of ys))"
      using True 1(2,4) by (auto simp: merkle_pairs.simps [of _ xs] merkle_pairs.simps [of _ ys] elim: inj_on_subset)
    ultimately have "pairs_of xs = pairs_of ys" by (simp add: inj_on_map_eq_map)
    then show ?thesis using 1(2) pairs_of_inj by blast
  next
    case False
    then have "xs = [] \<and> ys = [] \<or> (\<exists>x y. xs = [x] \<and> ys = [y])"
      using 1(2) by (cases xs; cases ys) auto
    then show ?thesis using 1(3) by (auto simp: merkle_root.simps [of _ "[_]"])
  qed
qed

text \<open>Without the condition on the lengths this fails: a repeated last transaction of an odd level
  leaves the root as it is.\<close>

lemma pairs_of_repeat: "odd (length xs) \<Longrightarrow> pairs_of (xs @ [last xs]) = pairs_of xs"
  by (induction xs rule: pairs_of.induct) auto

lemma merkle_root_repeat:
  "odd (length xs) \<Longrightarrow> length xs > 1 \<Longrightarrow> merkle_root env (xs @ [last xs]) = merkle_root env xs"
  by (cases "xs = []") (simp_all add: merkle_root.simps [of _ xs] merkle_root.simps [of _ "xs @ [last xs]"] pairs_of_repeat)

section \<open>Properties\<close>

text \<open>Property C20: a block read back from the stream it was written to is the same block, and the announced
  size is the number of bytes written.\<close>

theorem block_roundtrip:
  assumes "blk_ok b"
  shows "Load_block (Save_block b @ r) = Some (b, r) \<and> length (Save_block b) = Size_block b"
  using assms by (simp add: block.load_save block.save_size)

definition example_block :: CBlock where
  "example_block = blk_null\<lparr>blk_nType := BLOCK_PRIMARY, blk_nTimeStamp := 1515745260, blk_vtx := [example_tx],
     blk_vchSig := [1, 2, 3]\<rparr>"

theorem block_roundtrip_witness:
  "blk_ok example_block \<and> Load_block (Save_block example_block) = Some (example_block, [])"
proof -
  have ok: "blk_ok example_block"
    by (simp add: blk_ok_def example_block_def blk_null_def tx_ok_def tx_null_def example_tx_def int64_range_def)
  show ?thesis using block_roundtrip [OF ok, of "[]"] ok by simp
qed

text \<open>Property C17: the array that \<^verbatim>\<open>BuildMerkleTree\<close> fills is the leaves followed by each level of pairwise
  hashes, an odd last node being paired with itself, and its last element is the root.\<close>

theorem merkle_tree_is_pairwise_reduction:
  "BuildMerkleTree env vtx = merkle_levels env (map (tx_GetHash env) vtx)
   \<and> CalcMerkleTreeRoot env vtx = merkle_root env (map (tx_GetHash env) vtx)"
  by (simp add: BuildMerkleTree_eq CalcMerkleTreeRoot_eq)

text \<open>Property C16: the Merkle root commits to the transaction identifiers: two blocks with the same number
  of transactions and the same root have the same identifiers in the same order, unless two
  different pairs of nodes among those hashed have the same digest.\<close>

theorem merkle_root_commits:
  assumes "length vtx = length vtx'" and "CalcMerkleTreeRoot env vtx = CalcMerkleTreeRoot env vtx'"
    and "inj_on (hash_pair env) (set (merkle_pairs env (map (tx_GetHash env) vtx)) \<union>
           set (merkle_pairs env (map (tx_GetHash env) vtx')))"
  shows "map (tx_GetHash env) vtx = map (tx_GetHash env) vtx'"
  using assms by (intro merkle_root_inj) (auto simp: CalcMerkleTreeRoot_eq)

theorem merkle_root_commits_witness:
  "\<exists>env vtx vtx'. length vtx = 2 \<and> length vtx' = 2 \<and> CalcMerkleTreeRoot env vtx = CalcMerkleTreeRoot env vtx'
     \<and> inj_on (hash_pair env) (set (merkle_pairs env (map (tx_GetHash env) vtx)) \<union>
           set (merkle_pairs env (map (tx_GetHash env) vtx')))
     \<and> map (tx_GetHash env) vtx = map (tx_GetHash env) vtx'"
proof -
  let ?vtx = "[example_tx, tx_null]"
  have inj: "inj_on (hash_pair example_env) (set (merkle_pairs example_env (map (tx_GetHash example_env) ?vtx)) \<union>
      set (merkle_pairs example_env (map (tx_GetHash example_env) ?vtx)))"
    by (simp add: merkle_pairs.simps [of _ "[_, _]"] merkle_pairs.simps [of _ "[_]"])
  have "map (tx_GetHash example_env) ?vtx = map (tx_GetHash example_env) ?vtx"
    by (rule merkle_root_commits [OF refl refl inj])
  with inj show ?thesis by (intro exI [of _ example_env] exI [of _ ?vtx]) simp
qed

end
