(* ===== verification/Profile.thy ===== *)
theory Profile
  imports Destination
begin

text \<open>
  Compact tag/value maps, \<^verbatim>\<open>src/walleve/walleve/compacttv.h\<close>, and the fork profile that is
  stored in them, \<^verbatim>\<open>src/common/profile.h\<close> and \<^verbatim>\<open>profile.cpp\<close>.

  \<open>CTV_RangeError\<close> and \<open>CTV_BadGet\<close> are the exceptions of the source (its own and the one of
  \<^verbatim>\<open>boost::get\<close>), \<open>CTV_ReturnFalse\<close> is a \<^verbatim>\<open>return false\<close> and \<open>CTV_OutOfBounds\<close> a read beyond the
  end of the encoded vector, which \<^verbatim>\<open>Decode\<close> does not check for.
\<close>

datatype ctv_error = CTV_RangeError | CTV_BadGet | CTV_ReturnFalse | CTV_OutOfBounds

datatype ctv_value = TVInt uint64 | TVBin bytes

type_synonym tag_map = "(nat, uint8 \<times> ctv_value) omap"

abbreviation (input) CT_FALSE :: uint8 where "CT_FALSE \<equiv> 0x00"
abbreviation (input) CT_TRUE :: uint8 where "CT_TRUE \<equiv> 0x20"
abbreviation (input) CT_INT8 :: uint8 where "CT_INT8 \<equiv> 0x40"
abbreviation (input) CT_INT16 :: uint8 where "CT_INT16 \<equiv> 0x60"
abbreviation (input) CT_INT32 :: uint8 where "CT_INT32 \<equiv> 0x80"
abbreviation (input) CT_INT64 :: uint8 where "CT_INT64 \<equiv> 0xA0"
abbreviation (input) CT_INT256 :: uint8 where "CT_INT256 \<equiv> 0xC0"
abbreviation (input) CT_BINARY :: uint8 where "CT_BINARY \<equiv> 0xE0"

section \<open>Building a map\<close>

definition ctv_Push :: "nat \<Rightarrow> uint8 \<times> ctv_value \<Rightarrow> tag_map \<Rightarrow> ctv_error + tag_map" where
  "ctv_Push nTag tv m =
     (if nTag > 31 then Inl CTV_RangeError
      else if om_has m nTag then Inl CTV_RangeError
      else Inr (om_ins nTag tv m))"

definition ctv_Push_vch :: "nat \<Rightarrow> bytes \<Rightarrow> tag_map \<Rightarrow> ctv_error + tag_map" where
  "ctv_Push_vch nTag vch m =
     (if length vch > 255 then Inl CTV_RangeError else ctv_Push nTag (CT_BINARY, TVBin vch) m)"

definition ctv_Push_bool :: "nat \<Rightarrow> bool \<Rightarrow> tag_map \<Rightarrow> ctv_error + tag_map" where
  "ctv_Push_bool nTag f m = ctv_Push nTag (if f then CT_TRUE else CT_FALSE, TVInt 0) m"

definition ctv_Push_256 :: "nat \<Rightarrow> uint256 \<Rightarrow> tag_map \<Rightarrow> ctv_error + tag_map" where
  "ctv_Push_256 nTag t m = ctv_Push nTag (CT_INT256, TVBin (Save_uint t)) m"

text \<open>An integer of \<open>n\<close> bytes, converted to \<^verbatim>\<open>int64\<close>.\<close>

definition ctv_Push_int :: "nat \<Rightarrow> nat \<Rightarrow> int \<Rightarrow> tag_map \<Rightarrow> ctv_error + tag_map" where
  "ctv_Push_int n nTag t m =
     (if n = 1 then ctv_Push nTag (CT_INT8, TVInt (word_of_int t)) m
      else if n = 2 then ctv_Push nTag (CT_INT16, TVInt (word_of_int t)) m
      else if n = 4 then ctv_Push nTag (CT_INT32, TVInt (word_of_int t)) m
      else if n = 8 then ctv_Push nTag (CT_INT64, TVInt (word_of_int t)) m
      else Inl CTV_RangeError)"

section \<open>Reading a map\<close>

definition ctv_Get_vch :: "nat \<Rightarrow> tag_map \<Rightarrow> ctv_error + bytes option" where
  "ctv_Get_vch nTag m =
     (case om_get m nTag of
        None \<Rightarrow> Inr None
      | Some (type, v) \<Rightarrow>
          if type \<noteq> CT_BINARY then Inl CTV_RangeError
          else (case v of TVBin vch \<Rightarrow> Inr (Some vch) | TVInt _ \<Rightarrow> Inl CTV_BadGet))"

definition ctv_Get_bool :: "nat \<Rightarrow> tag_map \<Rightarrow> ctv_error + bool option" where
  "ctv_Get_bool nTag m =
     (case om_get m nTag of
        None \<Rightarrow> Inr None
      | Some (type, v) \<Rightarrow>
          if type \<noteq> CT_TRUE \<and> type \<noteq> CT_FALSE then Inl CTV_RangeError else Inr (Some (type = CT_TRUE)))"

text \<open>The bytes of a value of \<open>sz\<close> bytes.\<close>

definition ctv_Get :: "nat \<Rightarrow> nat \<Rightarrow> tag_map \<Rightarrow> ctv_error + bytes option" where
  "ctv_Get sz nTag m =
     (case om_get m nTag of
        None \<Rightarrow> Inr None
      | Some (type, v) \<Rightarrow>
          if type = CT_INT256 \<and> sz \<noteq> 32 \<or> type \<noteq> CT_INT256 \<and> sz > 8 then Inl CTV_RangeError
          else if type = CT_INT256 then (case v of TVBin vch \<Rightarrow> Inr (Some vch) | TVInt _ \<Rightarrow> Inl CTV_BadGet)
          else (case v of TVInt w \<Rightarrow> Inr (Some (take sz (Save_uint w))) | TVBin _ \<Rightarrow> Inl CTV_BadGet))"

section \<open>Encoding and decoding\<close>

definition type_len :: "uint8 \<Rightarrow> nat" where
  "type_len type =
     (if type = CT_INT8 then 1 else if type = CT_INT16 then 2 else if type = CT_INT32 then 4
      else if type = CT_INT64 then 8 else 0)"

fun encode_value :: "uint8 \<Rightarrow> ctv_value \<Rightarrow> ctv_error + bytes" where
  "encode_value type (TVBin vch) =
     (if type = CT_BINARY then Inr (word_of_nat (length vch) # vch)
      else if type = CT_INT256 then Inr vch
      else Inl CTV_BadGet)"
| "encode_value type (TVInt w) =
     (if type = CT_BINARY \<or> type = CT_INT256 then Inl CTV_BadGet else Inr (take (type_len type) (Save_uint w)))"

fun ctv_Encode :: "tag_map \<Rightarrow> ctv_error + bytes" where
  "ctv_Encode [] = Inr []"
| "ctv_Encode ((tag, type, v) # m) =
     ebind (encode_value type v) (\<lambda>b. ebind (ctv_Encode m) (\<lambda>r. Inr (bit_or (word_of_nat tag) type # b @ r)))"

text \<open>One entry after its first byte: the value and the number of bytes it took.\<close>

definition decode_value :: "uint8 \<Rightarrow> bytes \<Rightarrow> ctv_error + ctv_value \<times> bytes" where
  "decode_value type s =
     (if type = CT_BINARY then
        (case s of [] \<Rightarrow> Inl CTV_OutOfBounds
         | n # r \<Rightarrow> if unat n > length r then Inl CTV_OutOfBounds
             else Inr (TVBin (take (unat n) r), drop (unat n) r))
      else if type = CT_INT256 then
        (if length s < 32 then Inl CTV_OutOfBounds else Inr (TVBin (take 32 s), drop 32 s))
      else
        (let len = type_len type
         in if length s < len then Inl CTV_OutOfBounds
            else Inr (TVInt (word_of_nat (le_val (take len s))), drop len s)))"

lemma decode_value_length: "decode_value type s = Inr (v, r) \<Longrightarrow> length r \<le> length s"
  by (auto simp: decode_value_def Let_def split: if_splits list.splits)

function ctv_Decode_from :: "tag_map \<Rightarrow> bytes \<Rightarrow> ctv_error + tag_map" where
  "ctv_Decode_from m [] = Inr m"
| "ctv_Decode_from m (c # s) =
     (let tag = unat (bit_and c 0x1f); type = bit_and c 0xe0
      in ebind (decode_value type s) (\<lambda>(v, r).
           if om_has m tag then Inl CTV_RangeError else ctv_Decode_from (om_ins tag (type, v) m) r))"
  by pat_completeness auto
termination
  by (relation "measure (\<lambda>(_, s). length s)") (auto dest: decode_value_length)

definition ctv_Decode :: "bytes \<Rightarrow> ctv_error + tag_map" where
  "ctv_Decode vch = ctv_Decode_from [] vch"

section \<open>CProfile\<close>

record CProfile =
  prof_nVersion :: uint16
  prof_strName :: string
  prof_strSymbol :: string
  prof_nFlag :: uint8
  prof_nMinTxFee :: int
  prof_nMintReward :: int
  prof_destOwner :: CDestination
  prof_hashParent :: uint256
  prof_nJointHeight :: int

abbreviation (input) PROFILE_VERSION :: nat where "PROFILE_VERSION \<equiv> 0"
abbreviation (input) PROFILE_NAME :: nat where "PROFILE_NAME \<equiv> 1"
abbreviation (input) PROFILE_SYMBOL :: nat where "PROFILE_SYMBOL \<equiv> 2"
abbreviation (input) PROFILE_FLAG :: nat where "PROFILE_FLAG \<equiv> 3"
abbreviation (input) PROFILE_MINTXFEE :: nat where "PROFILE_MINTXFEE \<equiv> 4"
abbreviation (input) PROFILE_MINTREWARD :: nat where "PROFILE_MINTREWARD \<equiv> 5"
abbreviation (input) PROFILE_OWNER :: nat where "PROFILE_OWNER \<equiv> 6"
abbreviation (input) PROFILE_PARENT :: nat where "PROFILE_PARENT \<equiv> 7"
abbreviation (input) PROFILE_JOINTHEIGHT :: nat where "PROFILE_JOINTHEIGHT \<equiv> 8"

definition prof_null :: CProfile where
  "prof_null = \<lparr>prof_nVersion = 1, prof_strName = [], prof_strSymbol = [], prof_nFlag = 0, prof_nMinTxFee = 0,
     prof_nMintReward = 0, prof_destOwner = dest_null, prof_hashParent = 0, prof_nJointHeight = -1\<rparr>"

definition prof_IsNull :: "CProfile \<Rightarrow> bool" where
  "prof_IsNull p \<longleftrightarrow> prof_strName p = []"

definition prof_IsIsolated :: "CProfile \<Rightarrow> bool" where
  "prof_IsIsolated p \<longleftrightarrow> bit_and (prof_nFlag p) 1 \<noteq> 0"

definition prof_IsPrivate :: "CProfile \<Rightarrow> bool" where
  "prof_IsPrivate p \<longleftrightarrow> bit_and (prof_nFlag p) 2 \<noteq> 0"

definition prof_IsEnclosed :: "CProfile \<Rightarrow> bool" where
  "prof_IsEnclosed p \<longleftrightarrow> bit_and (prof_nFlag p) 4 \<noteq> 0"

definition prof_SetFlag :: "bool \<Rightarrow> bool \<Rightarrow> bool \<Rightarrow> CProfile \<Rightarrow> CProfile" where
  "prof_SetFlag fIsolated fPrivate fEnclosed p =
     p\<lparr>prof_nFlag := bit_or (bit_or (if fIsolated then 1 else 0) (if fPrivate then 2 else 0)) (if fEnclosed then 4 else 0)\<rparr>"

definition str_bytes :: "string \<Rightarrow> bytes" where
  "str_bytes s = map (\<lambda>c. word_of_nat (of_char c)) s"

definition bytes_str :: "bytes \<Rightarrow> string" where
  "bytes_str b = map (\<lambda>w. char_of (unat w)) b"

definition prof_Save :: "CProfile \<Rightarrow> ctv_error + bytes" where
  "prof_Save p =
     ebind (ctv_Push_int 2 PROFILE_VERSION (uint (prof_nVersion p)) []) (\<lambda>m.
     ebind (ctv_Push_vch PROFILE_NAME (str_bytes (prof_strName p)) m) (\<lambda>m.
     ebind (ctv_Push_vch PROFILE_SYMBOL (str_bytes (prof_strSymbol p)) m) (\<lambda>m.
     ebind (ctv_Push_int 1 PROFILE_FLAG (uint (prof_nFlag p)) m) (\<lambda>m.
     ebind (ctv_Push_int 8 PROFILE_MINTXFEE (prof_nMinTxFee p) m) (\<lambda>m.
     ebind (ctv_Push_int 8 PROFILE_MINTREWARD (prof_nMintReward p) m) (\<lambda>m.
     ebind (ctv_Push_vch PROFILE_OWNER
        (Save_uint (dest_prefix (prof_destOwner p)) @ Save_uint (dest_data (prof_destOwner p))) m) (\<lambda>m.
     ebind (if prof_hashParent p \<noteq> 0 then
              ebind (ctv_Push_256 PROFILE_PARENT (prof_hashParent p) m)
                (ctv_Push_int 4 PROFILE_JOINTHEIGHT (prof_nJointHeight p))
            else Inr m) (\<lambda>m.
     ctv_Encode m))))))))"

text \<open>A tag that has to be there.\<close>

fun required :: "ctv_error + 'a option \<Rightarrow> ctv_error + 'a" where
  "required (Inl e) = Inl e"
| "required (Inr None) = Inl CTV_ReturnFalse"
| "required (Inr (Some x)) = Inr x"

text \<open>\<open>n\<close> little-endian bytes read as a signed integer.\<close>

definition le_sint :: "nat \<Rightarrow> bytes \<Rightarrow> int" where
  "le_sint n b = (let v = int (le_val b) in if v < 2 ^ (8 * n - 1) then v else v - 2 ^ (8 * n))"

definition prof_Load :: "bytes \<Rightarrow> ctv_error + CProfile" where
  "prof_Load vch =
     ebind (ctv_Decode vch) (\<lambda>m.
     ebind (required (ctv_Get 2 PROFILE_VERSION m)) (\<lambda>ver. let nVersion = word_of_nat (le_val ver) in
     if nVersion \<noteq> 1 then Inl CTV_ReturnFalse else
     ebind (required (ctv_Get_vch PROFILE_NAME m)) (\<lambda>strName.
     ebind (required (ctv_Get_vch PROFILE_SYMBOL m)) (\<lambda>strSymbol.
     ebind (required (ctv_Get 1 PROFILE_FLAG m)) (\<lambda>flag.
     ebind (required (ctv_Get 8 PROFILE_MINTXFEE m)) (\<lambda>fee.
     ebind (required (ctv_Get 8 PROFILE_MINTREWARD m)) (\<lambda>reward.
     ebind (ctv_Get 32 PROFILE_PARENT m) (\<lambda>par.
     let hashParent = (case par of None \<Rightarrow> 0 | Some b \<Rightarrow> word_of_nat (le_val b)) in
     ebind (ctv_Get 4 PROFILE_JOINTHEIGHT m) (\<lambda>joint.
     ebind (case joint of
              None \<Rightarrow> if hashParent \<noteq> 0 then Inl CTV_ReturnFalse else Inr (-1)
            | Some b \<Rightarrow> Inr (le_sint 4 b)) (\<lambda>nJointHeight.
     ebind (ctv_Get_vch PROFILE_OWNER m) (\<lambda>owner.
     ebind (case owner of
              None \<Rightarrow> Inr dest_null
            | Some b \<Rightarrow> (case ebind (IDS_uint b) (\<lambda>(p, r). ebind (IDS_uint r) (\<lambda>(d, r'). Inr (CDestination p d))) of
                Inl e \<Rightarrow> Inl CTV_RangeError | Inr d \<Rightarrow> Inr d)) (\<lambda>destOwner.
     Inr \<lparr>prof_nVersion = nVersion, prof_strName = bytes_str strName, prof_strSymbol = bytes_str strSymbol,
       prof_nFlag = word_of_nat (le_val flag), prof_nMinTxFee = le_sint 8 fee, prof_nMintReward = le_sint 8 reward,
       prof_destOwner = destOwner, prof_hashParent = hashParent, prof_nJointHeight = nJointHeight\<rparr>))))))))))))"

section \<open>Round trips\<close>

text \<open>What decoding keeps of an entry: an integer only up to the width of its type.\<close>

fun ctv_trunc :: "uint8 \<times> ctv_value \<Rightarrow> uint8 \<times> ctv_value" where
  "ctv_trunc (type, TVInt w) = (type, TVInt (take_bit (8 * type_len type) w))"
| "ctv_trunc (type, TVBin b) = (type, TVBin b)"

definition ctv_types :: "uint8 list" where
  "ctv_types = [CT_FALSE, CT_TRUE, CT_INT8, CT_INT16, CT_INT32, CT_INT64, CT_INT256, CT_BINARY]"

fun entry_ok :: "nat \<times> uint8 \<times> ctv_value \<Rightarrow> bool" where
  "entry_ok (tag, type, TVBin b) \<longleftrightarrow>
     tag < 32 \<and> (type = CT_BINARY \<and> length b < 256 \<or> type = CT_INT256 \<and> length b = 32)"
| "entry_ok (tag, type, TVInt w) \<longleftrightarrow>
     tag < 32 \<and> type \<in> set ctv_types \<and> type \<noteq> CT_BINARY \<and> type \<noteq> CT_INT256"

lemma tag_type_split:
  assumes "tag < 32" and "type \<in> set ctv_types"
  shows "unat (bit_and (bit_or (word_of_nat tag) type) 0x1f) = tag"
    and "bit_and (bit_or (word_of_nat tag) type) 0xe0 = type"
proof -
  define w :: uint8 where "w = word_of_nat tag"
  have tag: "unat w = tag" using assms(1) by (simp add: w_def unat_of_nat)
  then have "unat w < 2 ^ 5" using assms(1) by simp
  then have low: "bit w n \<Longrightarrow> n < 5" for n by (rule bit_word_lt)
  have "bit_and w 0x1f = take_bit 5 w" unfolding take_bit_eq_mask mask_eq_exp_minus_1 by simp
  then have w5: "bit_and w 0x1f = w"
    by (auto intro!: bit_word_eqI simp: bit_take_bit_iff dest: low)
  have "(0xe0 :: uint8) = push_bit 5 7" by simp
  then have "bit (0xe0 :: uint8) n \<Longrightarrow> 5 \<le> n" for n by (metis bit_push_bit_iff)
  then have "\<not> (bit w n \<and> bit (0xe0 :: uint8) n)" for n using low [of n] by (meson not_less)
  then have we: "bit_and w 0xe0 = 0" by (intro bit_word_eqI) (simp add: bit_and_iff)
  have t: "bit_and type 0x1f = 0 \<and> bit_and type 0xe0 = type"
    using assms(2) by (auto simp: ctv_types_def)
  have "bit_and (bit_or w type) 0x1f = w" using w5 t unfolding bit.conj_disj_distrib2 by simp
  then show "unat (bit_and (bit_or (word_of_nat tag) type) 0x1f) = tag" using tag by (simp add: w_def)
  have "bit_and (bit_or w type) 0xe0 = type" using we t unfolding bit.conj_disj_distrib2 by simp
  then show "bit_and (bit_or (word_of_nat tag) type) 0xe0 = type" by (simp add: w_def)
qed

lemma type_len_le_8: "type_len type \<le> 8"
  by (simp add: type_len_def)

lemma take_Save_uint64: "n \<le> 8 \<Longrightarrow> take n (Save_uint (w :: uint64)) = le_bytes n (unat w)"
  by (simp add: Save_uint_def sizeof_uint_def take_le_bytes)

lemma word_of_mod_256: "word_of_nat (unat (w :: uint64) mod 256 ^ n) = take_bit (8 * n) w"
proof -
  have "unat (take_bit (8 * n) w) = take_bit (8 * n) (unat w)" by (rule unsigned_take_bit_eq)
  also have "\<dots> = unat w mod 256 ^ n" unfolding take_bit_eq_mod by (simp add: power_mult)
  finally have eq: "unat (take_bit (8 * n) w) = unat w mod 256 ^ n" .
  show ?thesis unfolding eq [symmetric] by simp
qed

lemma decode_encode_value:
  assumes "entry_ok (tag, type, v)"
  obtains b where "encode_value type v = Inr b" and "\<And>r. decode_value type (b @ r) = Inr (snd (ctv_trunc (type, v)), r)"
proof (cases v)
  case (TVInt w)
  let ?b = "take (type_len type) (Save_uint w)"
  have "length ?b = type_len type" using type_len_le_8 [of type] by (simp add: length_Save_uint)
  then have "decode_value type (?b @ r) = Inr (snd (ctv_trunc (type, v)), r)" for r
    using assms TVInt type_len_le_8 [of type]
    by (simp add: decode_value_def Let_def take_Save_uint64 word_of_mod_256)
  with that [of ?b] assms TVInt show ?thesis by simp
next
  case (TVBin b)
  then show ?thesis using assms that by (auto simp: decode_value_def unat_of_nat)
qed

lemma ctv_trunc_fst [simp]: "fst (ctv_trunc tv) = fst tv"
  by (cases tv rule: ctv_trunc.cases) auto

lemma entry_ok_type: "entry_ok (tag, type, v) \<Longrightarrow> tag < 32 \<and> type \<in> set ctv_types"
  by (cases v) (auto simp: ctv_types_def)

lemma ctv_Decode_Encode_from:
  assumes "om_wf (done @ m)" and "list_all entry_ok m"
  shows "\<exists>b. ctv_Encode m = Inr b \<and>
     ctv_Decode_from done b = Inr (done @ map (\<lambda>(tag, tv). (tag, ctv_trunc tv)) m)"
  using assms
proof (induction m arbitrary: "done")
  case (Cons e m)
  obtain tag type v where e: "e = (tag, type, v)" by (cases e)
  have ok: "entry_ok (tag, type, v)" using Cons.prems by (simp add: e)
  then obtain b where b: "encode_value type v = Inr b"
      "\<And>r. decode_value type (b @ r) = Inr (snd (ctv_trunc (type, v)), r)"
    by (rule decode_encode_value) blast
  have trunc: "ctv_trunc (type, v) = (type, snd (ctv_trunc (type, v)))" by (metis ctv_trunc_fst fst_conv prod.collapse)
  let ?done = "done @ [(tag, ctv_trunc (type, v))]"
  have keys: "map fst (?done @ m) = map fst (done @ e # m)" by (simp add: e)
  then have "om_wf (?done @ m)" using Cons.prems(1) by (simp only: om_wf_def)
  then obtain r where r: "ctv_Encode m = Inr r"
      "ctv_Decode_from ?done r = Inr (?done @ map (\<lambda>(tag, tv). (tag, ctv_trunc tv)) m)"
    using Cons.IH [of ?done] Cons.prems(2) by auto
  have fresh: "\<not> om_has done tag" and last: "om_ins tag (ctv_trunc (type, v)) done = ?done"
    using om_append_last [of "done" "(tag, ctv_trunc (type, v))"] Cons.prems(1)
    by (auto simp: e om_wf_def sorted_wrt_append om_ins_def)
  show ?case
    using b r fresh last tag_type_split [of tag type] entry_ok_type [OF ok] trunc
    by (auto simp: e Let_def)
qed simp

lemma ctv_Decode_Encode:
  assumes "om_wf m" and "list_all entry_ok m"
  obtains b where "ctv_Encode m = Inr b" and "ctv_Decode b = Inr (map (\<lambda>(tag, tv). (tag, ctv_trunc tv)) m)"
  using ctv_Decode_Encode_from [of "[]" m] assms by (auto simp: ctv_Decode_def)

lemma bytes_str_bytes [simp]: "bytes_str (str_bytes s) = s"
proof -
  have "char_of (unat (word_of_nat (of_char c) :: uint8)) = c" for c :: char
  proof -
    have "of_char c < (256 :: nat)" by simp
    then show ?thesis by (simp add: unat_of_nat take_bit_eq_mod)
  qed
  then show ?thesis by (simp add: bytes_str_def str_bytes_def comp_def)
qed

lemma le_sint_word:
  assumes "- (2 ^ (8 * n - 1)) \<le> x" and "x < 2 ^ (8 * n - 1)" and "0 < n" and "n \<le> 8"
  shows "le_sint n (le_bytes n (unat (take_bit (8 * n) (word_of_int x :: uint64)))) = x"
proof -
  have "uint (take_bit (8 * n) (word_of_int x :: uint64)) = take_bit (8 * n) (uint (word_of_int x :: uint64))"
    by (rule unsigned_take_bit_eq)
  also have "\<dots> = take_bit (8 * n) x" using assms(4) by (simp add: unsigned_of_int min_def)
  finally have "int (unat (take_bit (8 * n) (word_of_int x :: uint64))) = x mod 2 ^ (8 * n)"
    by (simp add: take_bit_eq_mod)
  moreover have "(256 :: nat) ^ n = 2 ^ (8 * n)" by (simp add: power_mult)
  ultimately have v: "int (le_val (le_bytes n (unat (take_bit (8 * n) (word_of_int x :: uint64))))) = x mod 2 ^ (8 * n)"
    by (simp add: zmod_int)
  have p: "(2 :: int) ^ (8 * n) = 2 * 2 ^ (8 * n - 1)" using assms(3) by (metis mult_is_0 neq0_conv power_minus_mult mult.commute zero_neq_numeral)
  show ?thesis
  proof (cases "0 \<le> x")
    case True
    then have "x mod 2 ^ (8 * n) = x" using assms(2) p by simp
    with assms(2) show ?thesis unfolding le_sint_def v by simp
  next
    case False
    then have "x mod 2 ^ (8 * n) = x + 2 ^ (8 * n)"
      using assms(1) p by (subst mod_add_self2 [symmetric], intro mod_pos_pos_trivial) auto
    with assms(1) p show ?thesis unfolding le_sint_def v by simp
  qed
qed

definition prof_ok :: "CProfile \<Rightarrow> bool" where
  "prof_ok p \<longleftrightarrow> prof_nVersion p = 1 \<and> length (prof_strName p) < 256 \<and> length (prof_strSymbol p) < 256
     \<and> int64_range (prof_nMinTxFee p) \<and> int64_range (prof_nMintReward p) \<and> int32_range (prof_nJointHeight p)
     \<and> (prof_hashParent p = 0 \<longrightarrow> prof_nJointHeight p = -1)"


lemma take_Save_trunc:
  "n \<le> 8 \<Longrightarrow> take n (Save_uint (take_bit (8 * n) (w :: uint64))) = le_bytes n (unat (take_bit (8 * n) w))"
  by (rule take_Save_uint64)

lemma le_val_trunc:
  assumes "LENGTH('a) = 8 * n" and "n \<le> 8"
  shows "word_of_nat (le_val (le_bytes n (unat (take_bit (8 * n) (word_of_int (uint v) :: uint64))))) = (v :: 'a::len word)"
proof -
  have p: "(256 :: nat) ^ n = 2 ^ LENGTH('a)" using assms(1) by (simp add: power_mult)
  have "take_bit (8 * n) (uint v) = uint v" using assms(1) by (metis take_bit_length_eq unsigned_take_bit_eq)
  moreover have "uint (take_bit (8 * n) (word_of_int (uint v) :: uint64)) = take_bit (8 * n) (uint (word_of_int (uint v) :: uint64))"
    by (rule unsigned_take_bit_eq)
  ultimately have "uint (take_bit (8 * n) (word_of_int (uint v) :: uint64)) = uint v"
    using assms(2) by (simp add: unsigned_ucast_eq min_def)
  then have "unat (take_bit (8 * n) (word_of_int (uint v) :: uint64)) = unat v" by (metis unat_eq_nat_uint)
  then show ?thesis using p unsigned_less [of v] by simp
qed

lemma prof_Load_Save:
  assumes "prof_ok p"
  obtains b where "prof_Save p = Inr b" and "prof_Load b = Inr p"
proof -
  define own where "own = Save_uint (dest_prefix (prof_destOwner p)) @ Save_uint (dest_data (prof_destOwner p))"
  define m :: tag_map where "m =
    [(0, CT_INT16, TVInt (word_of_int (uint (prof_nVersion p)))), (1, CT_BINARY, TVBin (str_bytes (prof_strName p))),
     (2, CT_BINARY, TVBin (str_bytes (prof_strSymbol p))), (3, CT_INT8, TVInt (word_of_int (uint (prof_nFlag p)))),
     (4, CT_INT64, TVInt (word_of_int (prof_nMinTxFee p))), (5, CT_INT64, TVInt (word_of_int (prof_nMintReward p))),
     (6, CT_BINARY, TVBin own)] @
    (if prof_hashParent p = 0 then []
     else [(7, CT_INT256, TVBin (Save_uint (prof_hashParent p))), (8, CT_INT32, TVInt (word_of_int (prof_nJointHeight p)))])"
  have own: "length own = 33" by (simp add: own_def length_Save_uint)
  have "om_wf m" by (simp add: m_def om_wf_def)
  moreover have "list_all entry_ok m"
    using assms own by (simp add: m_def prof_ok_def str_bytes_def ctv_types_def length_Save_uint)
  ultimately obtain b where b: "ctv_Encode m = Inr b" "ctv_Decode b = Inr (map (\<lambda>(tag, tv). (tag, ctv_trunc tv)) m)"
    by (rule ctv_Decode_Encode)
  have "prof_Save p = ctv_Encode m"
    using assms own
    by (simp add: prof_Save_def m_def prof_ok_def str_bytes_def ctv_Push_int_def ctv_Push_vch_def ctv_Push_256_def
        ctv_Push_def om_ins_def om_has_def own_def [symmetric])
  moreover have "prof_Load b = Inr p"
  proof -
    let ?m = "map (\<lambda>(tag, tv). (tag, ctv_trunc tv)) m"
    let ?w = "\<lambda>x. word_of_int x :: uint64"
    have get: "ctv_Get 2 0 ?m = Inr (Some (le_bytes 2 (unat (take_bit (8 * 2) (?w (uint (prof_nVersion p)))))))"
      "ctv_Get 1 3 ?m = Inr (Some (le_bytes 1 (unat (take_bit (8 * 1) (?w (uint (prof_nFlag p)))))))"
      "ctv_Get 8 4 ?m = Inr (Some (le_bytes 8 (unat (take_bit (8 * 8) (?w (prof_nMinTxFee p))))))"
      "ctv_Get 8 5 ?m = Inr (Some (le_bytes 8 (unat (take_bit (8 * 8) (?w (prof_nMintReward p))))))"
      "ctv_Get_vch 1 ?m = Inr (Some (str_bytes (prof_strName p)))"
      "ctv_Get_vch 2 ?m = Inr (Some (str_bytes (prof_strSymbol p)))"
      "ctv_Get_vch 6 ?m = Inr (Some own)"
      "ctv_Get 32 7 ?m = Inr (if prof_hashParent p = 0 then None else Some (Save_uint (prof_hashParent p)))"
      "ctv_Get 4 8 ?m = Inr (if prof_hashParent p = 0 then None
         else Some (le_bytes 4 (unat (take_bit (8 * 4) (?w (prof_nJointHeight p))))))"
      using take_Save_trunc [of 2] take_Save_trunc [of 1] take_Save_trunc [of 8] take_Save_trunc [of 4]
      by (simp_all add: m_def ctv_Get_def ctv_Get_vch_def type_len_def)
    have num: "le_sint 8 (le_bytes 8 (unat (take_bit (8 * 8) (?w (prof_nMinTxFee p))))) = prof_nMinTxFee p"
      "le_sint 8 (le_bytes 8 (unat (take_bit (8 * 8) (?w (prof_nMintReward p))))) = prof_nMintReward p"
      "le_sint 4 (le_bytes 4 (unat (take_bit (8 * 4) (?w (prof_nJointHeight p))))) = prof_nJointHeight p"
      using assms by (intro le_sint_word; simp add: prof_ok_def int64_range_def int32_range_def)+
    have "IDS_uint own = Inr (dest_prefix (prof_destOwner p), Save_uint (dest_data (prof_destOwner p)))"
      by (simp add: own_def ds8.read_write)
    then show ?thesis
      using assms get num ds256.read_write [of "dest_data (prof_destOwner p)" "[]"]
        le_val_trunc [of 2 "prof_nVersion p"] le_val_trunc [of 1 "prof_nFlag p"]
      by (simp only: prof_Load_def b(2) get num ebind.simps required.simps) 
        (simp add: prof_ok_def le_val_Save_uint256 Let_def num(3) [simplified])
  qed
  ultimately show thesis using that b(1) by simp
qed

section \<open>Properties\<close>

text \<open>Property C29: a fork profile that was saved loads as the same profile; saving succeeds for names of up
  to 255 bytes.\<close>

theorem profile_roundtrip:
  assumes "prof_ok p"
  shows "\<exists>b. prof_Save p = Inr b \<and> prof_Load b = Inr p"
  using prof_Load_Save [OF assms] by blast

theorem profile_roundtrip_witness:
  "\<exists>b. prof_Save (prof_null\<lparr>prof_strName := ''FnFn'', prof_hashParent := 5, prof_nJointHeight := 12\<rparr>) = Inr b
     \<and> prof_Load b = Inr (prof_null\<lparr>prof_strName := ''FnFn'', prof_hashParent := 5, prof_nJointHeight := 12\<rparr>)"
  using profile_roundtrip [of "prof_null\<lparr>prof_strName := ''FnFn'', prof_hashParent := 5, prof_nJointHeight := 12\<rparr>"]
  by (simp add: prof_ok_def prof_null_def int64_range_def int32_range_def)

text \<open>A truncated tag/value encoding makes the decoder read beyond its input: when the type
  byte announces more bytes than follow, no exception is thrown.\<close>

theorem decode_reads_past_end:
  assumes "decode_value (bit_and c 0xe0) s = Inl e"
  shows "e = CTV_OutOfBounds \<and> ctv_Decode (c # s) = Inl CTV_OutOfBounds"
  using assms
  by (auto simp: ctv_Decode_def decode_value_def Let_def split: if_splits list.splits)

theorem decode_reads_past_end_witness:
  "decode_value (bit_and 0xE1 0xe0) [200] = Inl CTV_OutOfBounds \<and> ctv_Decode [0xE1, 200] = Inl CTV_OutOfBounds"
proof -
  have d: "decode_value (bit_and 0xE1 0xe0) [200] = Inl CTV_OutOfBounds" by (simp add: decode_value_def)
  show ?thesis using decode_reads_past_end [OF d] d by simp
qed

end
