(* ===== verification/Core.thy ===== *)
theory Core
  imports Block Profile "HOL-Library.Signed_Division"
begin

text \<open>
  The consensus rules that need no storage: \<^verbatim>\<open>CMvCoreProtocol\<close> of \<^verbatim>\<open>src/src/core.cpp\<close>, with the
  constants of \<^verbatim>\<open>param.h\<close>, the error codes of \<^verbatim>\<open>error.h\<close>, \<^verbatim>\<open>CDelegateAgreement\<close> of
  \<^verbatim>\<open>mvtype.h\<close> and the Base64 check of \<^verbatim>\<open>walleve/http/httputil.cpp\<close>; and the weights of the delegates, which
  \<^verbatim>\<open>worldline.cpp\<close> and \<^verbatim>\<open>blockbase.cpp\<close> derive from the votes.

  A \<^verbatim>\<open>const CBlockIndex*\<close> whose predecessors are visited is the list of the entries reached through
  \<^verbatim>\<open>pPrev\<close>, the entry itself first.  The network time and the hash of the genesis block are
  arguments.  \<^const>\<open>None\<close> marks a call that dereferences a null pointer or an element that is not there.
\<close>

section \<open>Parameters and error codes\<close>

abbreviation (input) COIN :: int where "COIN \<equiv> 1000000"
abbreviation (input) CENT :: int where "CENT \<equiv> 10000"
abbreviation (input) MIN_TX_FEE :: int where "MIN_TX_FEE \<equiv> CENT div 100"
abbreviation (input) MAX_MONEY :: int where "MAX_MONEY \<equiv> 1000000000 * COIN"
abbreviation (input) MAX_BLOCK_SIZE :: nat where "MAX_BLOCK_SIZE \<equiv> 2000000"
abbreviation (input) MAX_TX_SIZE :: nat where "MAX_TX_SIZE \<equiv> MAX_BLOCK_SIZE div 20"
abbreviation (input) BLOCK_TARGET_SPACING :: int where "BLOCK_TARGET_SPACING \<equiv> 60"
abbreviation (input) EXTENDED_BLOCK_SPACING :: int where "EXTENDED_BLOCK_SPACING \<equiv> 1"
abbreviation (input) PROOF_OF_WORK_DECAY_STEP :: int where "PROOF_OF_WORK_DECAY_STEP \<equiv> BLOCK_TARGET_SPACING"
abbreviation (input) DELEGATE_THRESH :: uint64 where "DELEGATE_THRESH \<equiv> 50"
abbreviation (input) CM_MPVSS :: int where "CM_MPVSS \<equiv> 0"
abbreviation (input) CM_BLAKE512 :: int where "CM_BLAKE512 \<equiv> 1"
abbreviation (input) CM_MAX :: int where "CM_MAX \<equiv> 2"
abbreviation (input) MAX_CLOCK_DRIFT :: int where "MAX_CLOCK_DRIFT \<equiv> 10 * 60"
abbreviation (input) PROOF_OF_WORK_TARGET_SPACING :: int where
  "PROOF_OF_WORK_TARGET_SPACING \<equiv> BLOCK_TARGET_SPACING + BLOCK_TARGET_SPACING div 2"

definition MoneyRange :: "int \<Rightarrow> bool" where
  "MoneyRange nValue \<longleftrightarrow> nValue \<ge> 0 \<and> nValue \<le> MAX_MONEY"

text \<open>The constants set by the constructor of \<^verbatim>\<open>CMvCoreProtocol\<close>.\<close>

definition nProofOfWorkLimit :: int where "nProofOfWorkLimit = 16"
definition nProofOfWorkInit :: int where "nProofOfWorkInit = 20"
definition nProofOfWorkUpperTarget :: int where "nProofOfWorkUpperTarget = PROOF_OF_WORK_TARGET_SPACING + 10"
definition nProofOfWorkLowerTarget :: int where "nProofOfWorkLowerTarget = PROOF_OF_WORK_TARGET_SPACING - 10"

datatype MvErr =
    MV_FAILED | MV_OK | MV_ERR_UNAVAILABLE | MV_ERR_NOT_FOUND | MV_ERR_ALREADY_HAVE | MV_ERR_MISSING_PREV
  | MV_ERR_SYS_DATABASE_ERROR | MV_ERR_SYS_OUT_OF_DISK_SPACE | MV_ERR_SYS_STORAGE_ERROR
  | MV_ERR_SYS_OUT_OF_MEMORY | MV_ERR_BLOCK_OVERSIZE | MV_ERR_BLOCK_PROOF_OF_WORK_INVALID
  | MV_ERR_BLOCK_PROOF_OF_STAKE_INVALID | MV_ERR_BLOCK_TIMESTAMP_OUT_OF_RANGE
  | MV_ERR_BLOCK_COINBASE_INVALID | MV_ERR_BLOCK_COINSTAKE_INVALID | MV_ERR_BLOCK_TRANSACTIONS_INVALID
  | MV_ERR_BLOCK_DUPLICATED_TRANSACTION | MV_ERR_BLOCK_SIGOPCOUNT_OUT_OF_BOUND
  | MV_ERR_BLOCK_TXHASH_MISMATCH | MV_ERR_BLOCK_SIGNATURE_INVALID | MV_ERR_BLOCK_INVALID_FORK
  | MV_ERR_TRANSACTION_INVALID | MV_ERR_TRANSACTION_OVERSIZE | MV_ERR_TRANSACTION_OUTPUT_INVALID
  | MV_ERR_TRANSACTION_INPUT_INVALID | MV_ERR_TRANSACTION_TIMESTAMP_INVALID
  | MV_ERR_TRANSACTION_NOT_ENOUGH_FEE | MV_ERR_TRANSACTION_STAKE_REWARD_INVALID
  | MV_ERR_TRANSACTION_SIGNATURE_INVALID | MV_ERR_TRANSACTION_CONFLICTING_INPUT
  | MV_ERR_WALLET_INVALID_AMOUNT | MV_ERR_WALLET_INSUFFICIENT_FUNDS | MV_ERR_WALLET_SIGNATURE_FAILED
  | MV_ERR_WALLET_TX_OVERSIZE | MV_ERR_WALLET_NOT_FOUND | MV_ERR_WALLET_IS_LOCKED
  | MV_ERR_WALLET_IS_UNLOCKED | MV_ERR_WALLET_IS_ENCRYPTED | MV_ERR_WALLET_IS_UNENCRYPTED
  | MV_ERR_WALLET_FAILED | MV_ERR_MAX_COUNT

record CDelegateAgreement =
  agr_nAgreement :: uint256
  agr_nWeight :: uint64
  agr_vBallot :: "CDestination list"

definition agr_IsProofOfWork :: "CDelegateAgreement \<Rightarrow> bool" where
  "agr_IsProofOfWork a \<longleftrightarrow> agr_vBallot a = []"

text \<open>The index is converted to \<^verbatim>\<open>size_t\<close> by the remainder operation.\<close>

definition GetBallot :: "CDelegateAgreement \<Rightarrow> int \<Rightarrow> CDestination" where
  "GetBallot a nIndex =
     (if agr_vBallot a = [] then dest_null
      else agr_vBallot a ! (unat (word_of_int nIndex :: uint64) mod length (agr_vBallot a)))"

abbreviation time_of :: "uint32 \<Rightarrow> int" where "time_of t \<equiv> int (unat t)"

section \<open>The genesis block\<close>

definition genesis_profile :: "string \<Rightarrow> string \<Rightarrow> CDestination \<Rightarrow> CProfile" where
  "genesis_profile strName strSymbol destOwner =
     prof_SetFlag True False False
       (prof_null\<lparr>prof_strName := strName, prof_strSymbol := strSymbol, prof_destOwner := destOwner,
          prof_nMintReward := 15 * COIN, prof_nMinTxFee := MIN_TX_FEE\<rparr>)"

definition genesis_block :: "string \<Rightarrow> string \<Rightarrow> CDestination \<Rightarrow> CBlock" where
  "genesis_block strName strSymbol destOwner =
     blk_null\<lparr>blk_nVersion := 1, blk_nType := BLOCK_GENESIS, blk_nTimeStamp := 1515745156, blk_hashPrev := 0,
       blk_txMint := tx_null\<lparr>tx_nType := TX_GENESIS, tx_nTimeStamp := 1515745156, tx_sendTo := destOwner,
         tx_nAmount := 745000000 * COIN\<rparr>,
       blk_vchProof := (case prof_Save (genesis_profile strName strSymbol destOwner) of Inr b \<Rightarrow> b | Inl _ \<Rightarrow> [])\<rparr>"

definition GetGenesisBlock :: CBlock where
  "GetGenesisBlock = genesis_block ''Fission And Fusion Network'' ''FnFn''
     (dest_pubkey (snd (SetHex ''575f2041770496489120bb102d9dd55f5e75b0c4aa528d5762b92b59acd6d939'')))"

definition TestNet_GetGenesisBlock :: CBlock where
  "TestNet_GetGenesisBlock = genesis_block ''Fission And Fusion Test Network'' ''FnFnTest''
     (dest_pubkey (snd (SetHex ''75490d20c9b270d36e019016f154bdfb6f19ff03fa7c09e3280ccc3ad8a1992e'')))"

section \<open>Context-free checks\<close>

definition Base64Decode :: "crypto_env \<Rightarrow> bytes \<Rightarrow> bytes option" where
  "Base64Decode env strEncoded =
     (let nPadding = length (filter (\<lambda>c. c = 0x3D) strEncoded)
      in if nPadding \<noteq> 0 \<and> (nPadding > 2 \<or>
              length (takeWhile (\<lambda>c. c \<noteq> 0x3D) strEncoded) \<noteq> length strEncoded - nPadding)
         then None
         else (case env_base64dec env (take (length strEncoded - nPadding) strEncoded @ replicate nPadding 0x41) of
             None \<Rightarrow> None
           | Some d \<Rightarrow> if length d < nPadding then None else Some (take (length d - nPadding) d)))"

text \<open>The description carried by a payment: a 16-byte UUID, a time stamp, and a length-prefixed
  Base64 text.\<close>

definition check_vchData :: "crypto_env \<Rightarrow> bytes \<Rightarrow> bool" where
  "check_vchData env d =
     (if length d < 21 then False
      else let szDesc = unat (d ! 20)
           in if szDesc > 0 then
                (if 20 + 1 + szDesc > length d then False
                 else Base64Decode env (take szDesc (drop 21 d)) \<noteq> None)
              else True)"

fun check_inputs :: "CTxOutPoint list \<Rightarrow> CTxOutPoint set \<Rightarrow> bool" where
  "check_inputs [] seen = True"
| "check_inputs (p # ps) seen =
     (if op_IsNull p \<or> op_n p > 1 then False
      else if p \<in> seen then False
      else check_inputs ps (insert p seen))"

definition ValidateTransaction :: "crypto_env \<Rightarrow> CTransaction \<Rightarrow> MvErr" where
  "ValidateTransaction env tx =
     (if tx_nType tx = TX_TOKEN
         \<and> (dest_IsPubKey (tx_sendTo tx)
            \<or> dest_IsTemplate (tx_sendTo tx)
              \<and> (dest_GetTemplateId (tx_sendTo tx) = ucast TEMPLATE_WEIGHTED
                 \<or> dest_GetTemplateId (tx_sendTo tx) = ucast TEMPLATE_MULTISIG))
         \<and> tx_vchData tx \<noteq> [] \<and> \<not> check_vchData env (tx_vchData tx)
      then MV_ERR_TRANSACTION_INVALID
      else if tx_vInput tx = [] \<and> tx_nType tx \<noteq> TX_GENESIS \<and> tx_nType tx \<noteq> TX_WORK \<and> tx_nType tx \<noteq> TX_STAKE
      then MV_ERR_TRANSACTION_INVALID
      else if tx_vInput tx \<noteq> [] \<and> (tx_nType tx = TX_GENESIS \<or> tx_nType tx = TX_WORK \<or> tx_nType tx = TX_STAKE)
      then MV_ERR_TRANSACTION_INVALID
      else if tx_vchSig tx \<noteq> [] \<and> IsMintTx tx then MV_ERR_TRANSACTION_INVALID
      else if dest_IsNull (tx_sendTo tx) then MV_ERR_TRANSACTION_OUTPUT_INVALID
      else if \<not> MoneyRange (tx_nAmount tx) then MV_ERR_TRANSACTION_OUTPUT_INVALID
      else if \<not> MoneyRange (tx_nTxFee tx)
         \<or> tx_nType tx \<noteq> TX_TOKEN \<and> tx_nTxFee tx \<noteq> 0
         \<or> tx_nType tx = TX_TOKEN \<and> tx_nTxFee tx < MIN_TX_FEE
      then MV_ERR_TRANSACTION_OUTPUT_INVALID
      else if \<not> check_inputs (tx_vInput tx) {} then MV_ERR_TRANSACTION_INPUT_INVALID
      else if Size_tx tx > MAX_TX_SIZE then MV_ERR_TRANSACTION_OVERSIZE
      else MV_OK)"

definition ValidateVacantBlock :: "CBlock \<Rightarrow> MvErr" where
  "ValidateVacantBlock b =
     (if blk_hashMerkle b \<noteq> 0 \<or> blk_txMint b \<noteq> tx_null \<or> blk_vtx b \<noteq> [] then MV_ERR_BLOCK_TRANSACTIONS_INVALID
      else if blk_vchProof b \<noteq> [] \<or> blk_vchSig b \<noteq> [] then MV_ERR_BLOCK_SIGNATURE_INVALID
      else MV_OK)"

definition CheckBlockSignature :: "crypto_env \<Rightarrow> uint256 \<Rightarrow> CBlock \<Rightarrow> bool" where
  "CheckBlockSignature env hashGenesis b =
     (if blk_GetHash env b \<noteq> hashGenesis
      then dest_VerifyBlockSignature env (tx_sendTo (blk_txMint b)) (blk_GetHash env b) (blk_vchSig b)
      else True)"

definition ValidateBlock :: "crypto_env \<Rightarrow> uint256 \<Rightarrow> int \<Rightarrow> CBlock \<Rightarrow> MvErr" where
  "ValidateBlock env hashGenesis nNetTime b =
     (if time_of (blk_nTimeStamp b) > nNetTime + MAX_CLOCK_DRIFT then MV_ERR_BLOCK_TIMESTAMP_OUT_OF_RANGE
      else if blk_nType b = BLOCK_EXTENDED \<and> blk_vtx b = [] then MV_ERR_BLOCK_TRANSACTIONS_INVALID
      else if blk_nType b = BLOCK_VACANT then ValidateVacantBlock b
      else if \<not> IsMintTx (blk_txMint b) \<or> ValidateTransaction env (blk_txMint b) \<noteq> MV_OK
      then MV_ERR_BLOCK_TRANSACTIONS_INVALID
      else if Size_block b > MAX_BLOCK_SIZE then MV_ERR_BLOCK_OVERSIZE
      else if blk_nType b = BLOCK_ORIGIN \<and> blk_vtx b \<noteq> [] then MV_ERR_BLOCK_TRANSACTIONS_INVALID
      else if blk_hashMerkle b \<noteq> CalcMerkleTreeRoot env (blk_vtx b) then MV_ERR_BLOCK_TXHASH_MISMATCH
      else if card (set (take (length (blk_vtx b)) (BuildMerkleTree env (blk_vtx b)))) \<noteq> length (blk_vtx b)
      then MV_ERR_BLOCK_DUPLICATED_TRANSACTION
      else if list_ex (\<lambda>tx. IsMintTx tx \<or> ValidateTransaction env tx \<noteq> MV_OK) (blk_vtx b)
      then MV_ERR_BLOCK_TRANSACTIONS_INVALID
      else if \<not> CheckBlockSignature env hashGenesis b then MV_ERR_BLOCK_SIGNATURE_INVALID
      else MV_OK)"

definition ValidateOrigin :: "CBlock \<Rightarrow> CProfile \<Rightarrow> MvErr + CProfile" where
  "ValidateOrigin b parentProfile =
     (case prof_Load (blk_vchProof b) of
        Inl _ \<Rightarrow> Inl MV_ERR_BLOCK_INVALID_FORK
      | Inr forkProfile \<Rightarrow>
          if prof_IsNull forkProfile then Inl MV_ERR_BLOCK_INVALID_FORK
          else if prof_IsPrivate parentProfile
             \<and> (\<not> prof_IsPrivate forkProfile \<or> prof_destOwner parentProfile \<noteq> prof_destOwner forkProfile)
          then Inl MV_ERR_BLOCK_INVALID_FORK
          else Inr forkProfile)"

section \<open>Verification of transactions against their inputs\<close>

text \<open>The signature to be checked: what follows the sender recorded in it, if one is recorded.\<close>

definition tx_sig_part :: "CTransaction \<Rightarrow> CDestination \<Rightarrow> bytes option" where
  "tx_sig_part tx destIn =
     (if IsDestInRecorded (tx_sendTo tx) then
        (case ParseDestIn (tx_vchSig tx) of
           None \<Rightarrow> None
         | Some (recordedDestIn, vchSig) \<Rightarrow> if recordedDestIn \<noteq> destIn then None else Some vchSig)
      else Some (tx_vchSig tx))"

fun check_vin :: "CTransaction \<Rightarrow> int \<Rightarrow> CTxInContxt list \<Rightarrow> int \<Rightarrow> MvErr + int" where
  "check_vin tx nHeight [] nValueIn = Inr nValueIn"
| "check_vin tx nHeight (c # cs) nValueIn =
     (if inc_nTxTime c > tx_nTimeStamp tx then Inl MV_ERR_TRANSACTION_INPUT_INVALID
      else if inc_IsLocked c nHeight then Inl MV_ERR_TRANSACTION_INPUT_INVALID
      else check_vin tx nHeight cs (nValueIn + inc_nAmount c))"

definition VerifyBlockTx :: "crypto_env \<Rightarrow> CTransaction \<Rightarrow> CTxContxt \<Rightarrow> CBlockIndex \<Rightarrow> MvErr" where
  "VerifyBlockTx env tx txContxt indexPrev =
     (let destIn = ctx_destIn txContxt
      in case check_vin tx (idx_nHeight indexPrev) (ctx_vin txContxt) 0 of
           Inl e \<Rightarrow> e
         | Inr nValueIn \<Rightarrow>
             if \<not> MoneyRange nValueIn then MV_ERR_TRANSACTION_INPUT_INVALID
             else if nValueIn < tx_nAmount tx + tx_nTxFee tx then MV_ERR_TRANSACTION_INPUT_INVALID
             else (case tx_sig_part tx destIn of
                 None \<Rightarrow> MV_ERR_TRANSACTION_SIGNATURE_INVALID
               | Some vchSig \<Rightarrow>
                   if \<not> dest_VerifyTx env destIn (GetSignatureHash env tx) (tx_hashAnchor tx) (tx_sendTo tx) vchSig
                   then MV_ERR_TRANSACTION_SIGNATURE_INVALID
                   else MV_OK))"

fun check_prev_outputs :: "CTransaction \<Rightarrow> CDestination \<Rightarrow> int \<Rightarrow> CTxOutput list \<Rightarrow> int \<Rightarrow> MvErr + int" where
  "check_prev_outputs tx destIn nForkHeight [] nValueIn = Inr nValueIn"
| "check_prev_outputs tx destIn nForkHeight (u # us) nValueIn =
     (if destIn \<noteq> out_destTo u then Inl MV_ERR_TRANSACTION_INPUT_INVALID
      else if out_nTxTime u > tx_nTimeStamp tx then Inl MV_ERR_TRANSACTION_INPUT_INVALID
      else if out_IsLocked u nForkHeight then Inl MV_ERR_TRANSACTION_INPUT_INVALID
      else check_prev_outputs tx destIn nForkHeight us (nValueIn + out_nAmount u))"

definition VerifyTransaction :: "crypto_env \<Rightarrow> CTransaction \<Rightarrow> CTxOutput list \<Rightarrow> int \<Rightarrow> MvErr option" where
  "VerifyTransaction env tx vPrevOutput nForkHeight =
     (case vPrevOutput of [] \<Rightarrow> None | u # _ \<Rightarrow>
     (let destIn = out_destTo u
      in Some (case check_prev_outputs tx destIn nForkHeight vPrevOutput 0 of
           Inl e \<Rightarrow> e
         | Inr nValueIn \<Rightarrow>
             if \<not> MoneyRange nValueIn then MV_ERR_TRANSACTION_INPUT_INVALID
             else if nValueIn < tx_nAmount tx + tx_nTxFee tx then MV_ERR_TRANSACTION_INPUT_INVALID
             else (case tx_sig_part tx destIn of
                 None \<Rightarrow> MV_ERR_TRANSACTION_SIGNATURE_INVALID
               | Some vchSig \<Rightarrow>
                   if \<not> dest_VerifyTx env destIn (GetSignatureHash env tx) (tx_hashAnchor tx) (tx_sendTo tx) vchSig
                   then MV_ERR_TRANSACTION_SIGNATURE_INVALID
                   else if IsLockedCoin destIn then
                     (case CreateTemplatePtr env (GetType (dest_GetTemplateId destIn)) vchSig of
                        None \<Rightarrow> MV_ERR_TRANSACTION_SIGNATURE_INVALID
                      | Some ptr \<Rightarrow>
                          if nValueIn < tx_nAmount tx + tx_nTxFee tx + LockedCoin nForkHeight
                          then MV_ERR_TRANSACTION_INPUT_INVALID else MV_OK)
                   else MV_OK))))"

section \<open>Proof of work and of stake\<close>

abbreviation idx_time :: "CBlockIndex \<Rightarrow> int" where "idx_time i \<equiv> time_of (idx_nTimeStamp i)"

definition idx_IsPrimary :: "CBlockIndex \<Rightarrow> bool" where
  "idx_IsPrimary i = type_IsPrimary (idx_nType i)"

definition idx_IsProofOfWork :: "CBlockIndex \<Rightarrow> bool" where
  "idx_IsProofOfWork i \<longleftrightarrow> idx_nMintType i = TX_WORK"

text \<open>Back to the last entry with the algorithm, or to the root.\<close>

fun pow_seek :: "int \<Rightarrow> CBlockIndex list \<Rightarrow> CBlockIndex list" where
  "pow_seek nAlgo [] = []"
| "pow_seek nAlgo (i # is) =
     (if (\<not> idx_IsProofOfWork i \<or> uint (idx_nProofAlgo i) \<noteq> nAlgo) \<and> is \<noteq> [] then pow_seek nAlgo is else i # is)"

fun pow_spacing :: "int \<Rightarrow> nat \<Rightarrow> CBlockIndex list \<Rightarrow> int \<Rightarrow> int \<Rightarrow> (int \<times> int) option" where
  "pow_spacing nAlgo nWIndex [] nSpacing nWeight = None"
| "pow_spacing nAlgo nWIndex (i # is) nSpacing nWeight =
     (if idx_IsProofOfWork i then
        (case is of
           [] \<Rightarrow> None
         | p # _ \<Rightarrow>
             (let nSpacing' = nSpacing + (idx_time i - idx_time p) * 2 ^ nWIndex;
                  nWeight' = nWeight + 2 ^ nWIndex
              in case nWIndex of
                   0 \<Rightarrow> Some (nSpacing', nWeight')
                 | Suc n \<Rightarrow> pow_spacing nAlgo n (pow_seek nAlgo is) nSpacing' nWeight'))
      else Some (nSpacing, nWeight))"

definition GetProofOfWorkReward :: "CBlockIndex list \<Rightarrow> int" where
  "GetProofOfWorkReward prev = 15 * COIN"

definition GetProofOfWorkTarget :: "CBlockIndex list \<Rightarrow> int \<Rightarrow> (int \<times> int) option option" where
  "GetProofOfWorkTarget prev nAlgo =
     (if nAlgo \<le> 0 \<or> nAlgo \<ge> CM_MAX \<or> \<not> idx_IsPrimary (hd prev) then Some None
      else let nReward = GetProofOfWorkReward prev; chain = pow_seek nAlgo prev; i = hd chain
           in if \<not> idx_IsProofOfWork i then Some (Some (nProofOfWorkInit, nReward))
              else (case pow_spacing nAlgo 15 chain 0 0 of
                  None \<Rightarrow> None
                | Some (nSpacing, nWeight) \<Rightarrow>
                    (let nBits = uint (idx_nProofBits i); avg = nSpacing sdiv nWeight
                     in Some (Some (
                          if avg > nProofOfWorkUpperTarget \<and> nBits > nProofOfWorkLimit then nBits - 1
                          else if avg < nProofOfWorkLowerTarget then nBits + 1
                          else nBits, nReward)))))"

definition GetProofOfWorkRunTimeBits :: "int \<Rightarrow> int \<Rightarrow> int \<Rightarrow> int" where
  "GetProofOfWorkRunTimeBits nBits nTime nPrevTime =
     (if nTime - nPrevTime < BLOCK_TARGET_SPACING then nBits + 1
      else let nBits' = nBits - (nTime - nPrevTime - BLOCK_TARGET_SPACING) div PROOF_OF_WORK_DECAY_STEP
           in if nBits' < nProofOfWorkLimit then nProofOfWorkLimit else nBits')"

definition VerifyProofOfWork :: "crypto_env \<Rightarrow> CBlock \<Rightarrow> CBlockIndex list \<Rightarrow> (MvErr + int) option" where
  "VerifyProofOfWork env b prev =
     (if length (blk_vchProof b) < PROOFHASHWORK_SIZE then Some (Inl MV_ERR_BLOCK_PROOF_OF_WORK_INVALID)
      else if time_of (blk_nTimeStamp b) < idx_time (hd prev) then Some (Inl MV_ERR_BLOCK_TIMESTAMP_OUT_OF_RANGE)
      else (case phc_Load (blk_vchProof b) of None \<Rightarrow> None | Some proof \<Rightarrow>
        (case GetProofOfWorkTarget prev (uint (phc_nAlgo proof)) of
           None \<Rightarrow> None
         | Some None \<Rightarrow> Some (Inl MV_ERR_BLOCK_PROOF_OF_WORK_INVALID)
         | Some (Some (nBits, nReward)) \<Rightarrow>
             Some (if nBits \<noteq> uint (phc_nBits proof) \<or> uint (phc_nAlgo proof) \<noteq> CM_BLAKE512
               then Inl MV_ERR_BLOCK_PROOF_OF_WORK_INVALID
               else let bits = GetProofOfWorkRunTimeBits nBits (time_of (blk_nTimeStamp b)) (idx_time (hd prev));
                        hashTarget = drop_bit (nat bits) (- 1 :: uint256);
                        hash = CryptoHash env (GetSerializedProofOfWorkData b)
                    in if hash > hashTarget then Inl MV_ERR_BLOCK_PROOF_OF_WORK_INVALID else Inr nReward))))"

definition GetDelegatedProofOfStakeReward :: "CBlockIndex \<Rightarrow> uint64 \<Rightarrow> int" where
  "GetDelegatedProofOfStakeReward prev nWeight = 15 * COIN"

definition VerifyDelegatedProofOfStake ::
  "CBlock \<Rightarrow> CBlockIndex \<Rightarrow> CDelegateAgreement \<Rightarrow> (MvErr + int) option" where
  "VerifyDelegatedProofOfStake b prev agreement =
     (if time_of (blk_nTimeStamp b) < idx_time prev + BLOCK_TARGET_SPACING
         \<or> time_of (blk_nTimeStamp b) \<ge> idx_time prev + BLOCK_TARGET_SPACING * 3 div 2
      then Some (Inl MV_ERR_BLOCK_TIMESTAMP_OUT_OF_RANGE)
      else case agr_vBallot agreement of [] \<Rightarrow> None | d # _ \<Rightarrow>
        Some (if tx_sendTo (blk_txMint b) \<noteq> d then Inl MV_ERR_BLOCK_PROOF_OF_STAKE_INVALID
              else Inr (GetDelegatedProofOfStakeReward prev (agr_nWeight agreement))))"

definition VerifySubsidiary ::
  "CBlock \<Rightarrow> CBlockIndex \<Rightarrow> CBlockIndex \<Rightarrow> CDelegateAgreement \<Rightarrow> MvErr + int" where
  "VerifySubsidiary b prev ref agreement =
     (let t = time_of (blk_nTimeStamp b)
      in if t < idx_time prev then Inl MV_ERR_BLOCK_TIMESTAMP_OUT_OF_RANGE
         else ebind
           (if blk_nType b \<noteq> BLOCK_EXTENDED then
              (if t \<noteq> idx_time ref then Inl MV_ERR_BLOCK_TIMESTAMP_OUT_OF_RANGE
               else Inr (GetDelegatedProofOfStakeReward prev (agr_nWeight agreement)))
            else
              (if t \<le> idx_time ref \<or> t \<ge> idx_time ref + BLOCK_TARGET_SPACING
               then Inl MV_ERR_BLOCK_TIMESTAMP_OUT_OF_RANGE else Inr 0))
           (\<lambda>nReward. if tx_sendTo (blk_txMint b) \<noteq> GetBallot agreement ((t - idx_time ref) div EXTENDED_BLOCK_SPACING)
              then Inl MV_ERR_BLOCK_PROOF_OF_STAKE_INVALID else Inr nReward))"

section \<open>Selection of the block producers\<close>

fun pick_ballot :: "(CDestination, uint64) omap \<Rightarrow> uint64 \<Rightarrow> CDestination list" where
  "pick_ballot [] n = []"
| "pick_ballot (e # es) n = (if n < snd e then [fst e] else pick_ballot es (n - snd e))"

fun ballot_loop :: "bytes \<Rightarrow> uint64 \<Rightarrow> (CDestination, uint64) omap \<Rightarrow> uint64 \<Rightarrow> uint64 \<Rightarrow> CDestination list" where
  "ballot_loop [] nWeight mapBallot nSelected nTrust = []"
| "ballot_loop (p # ps) nWeight mapBallot nSelected nTrust =
     (if nTrust = 0 then []
      else let nSelected' = nSelected + ucast p
           in pick_ballot mapBallot (nSelected' mod nWeight)
              @ ballot_loop ps nWeight mapBallot nSelected' (drop_bit 1 nTrust))"

definition GetDelegatedBallot :: "uint256 \<Rightarrow> uint64 \<Rightarrow> (CDestination, uint64) omap \<Rightarrow> CDestination list" where
  "GetDelegatedBallot nAgreement nWeight mapBallot =
     (let bs = Save_uint nAgreement;
          nSelected = ucast (foldl bit_xor 0 bs) :: uint64;
          nWeightWork = (DELEGATE_THRESH - nWeight) * (DELEGATE_THRESH - nWeight) * (DELEGATE_THRESH - nWeight)
            div (DELEGATE_THRESH * DELEGATE_THRESH)
      in if nSelected \<ge> nWeightWork * 256 div (nWeightWork + nWeight)
         then ballot_loop bs nWeight mapBallot nSelected nWeight else [])"

section \<open>The weights of the delegates\<close>

text \<open>The vote that counts as one unit of weight (\<^verbatim>\<open>CWorldLine::GetBlockDelegateEnrolled\<close>).\<close>

definition nDelegateWeightRatio :: "int \<Rightarrow> int" where
  "nDelegateWeightRatio nMoneySupply = (nMoneySupply + uint DELEGATE_THRESH - 1) sdiv uint DELEGATE_THRESH"

text \<open>The loop of \<^verbatim>\<open>CBlockBase::RetrieveAvailDelegate\<close> over the votes: the returned flag and the two maps.  The table of
  enrolments and the file of transactions are arguments; \<^const>\<open>None\<close> is a division by zero.\<close>

fun avail_loop ::
  "(CDestination, 'pos) omap \<Rightarrow> ('pos \<Rightarrow> CTransaction option) \<Rightarrow> int \<Rightarrow> (CDestination, int) omap \<Rightarrow>
   (CDestination, uint64) omap \<Rightarrow> (CDestination, bytes) omap \<Rightarrow> (bool \<times> (CDestination, uint64) omap \<times> (CDestination, bytes) omap) option" where
  "avail_loop mapEnrollTxPos read ratio [] mapWeight mapEnrollData = Some (True, mapWeight, mapEnrollData)"
| "avail_loop mapEnrollTxPos read ratio ((dest, vote) # votes) mapWeight mapEnrollData =
     (if vote \<ge> ratio then
        (case om_get mapEnrollTxPos dest of
           None \<Rightarrow> avail_loop mapEnrollTxPos read ratio votes mapWeight mapEnrollData
         | Some pos \<Rightarrow>
             (case read pos of
                None \<Rightarrow> Some (False, mapWeight, mapEnrollData)
              | Some tx \<Rightarrow>
                  if ratio = 0 then None
                  else avail_loop mapEnrollTxPos read ratio votes
                         (om_ins dest (word_of_int (vote sdiv ratio)) mapWeight) (om_ins dest (tx_vchData tx) mapEnrollData)))
      else avail_loop mapEnrollTxPos read ratio votes mapWeight mapEnrollData)"

definition RetrieveAvailDelegate ::
  "(CDestination, int) omap option \<Rightarrow> (CDestination, 'pos) omap option \<Rightarrow> ('pos \<Rightarrow> CTransaction option) \<Rightarrow> int \<Rightarrow>
   (CDestination, uint64) omap \<Rightarrow> (CDestination, bytes) omap \<Rightarrow> (bool \<times> (CDestination, uint64) omap \<times> (CDestination, bytes) omap) option" where
  "RetrieveAvailDelegate delegates enrolled read ratio mapWeight mapEnrollData =
     (case delegates of
        None \<Rightarrow> Some (False, mapWeight, mapEnrollData)
      | Some mapVote \<Rightarrow>
          (case enrolled of
             None \<Rightarrow> Some (False, mapWeight, mapEnrollData)
           | Some mapEnrollTxPos \<Rightarrow> avail_loop mapEnrollTxPos read ratio mapVote mapWeight mapEnrollData))"

section \<open>What the checks of inputs establish\<close>

lemma check_inputs_iff:
  "check_inputs ps seen \<longleftrightarrow>
     (\<forall>p \<in> set ps. \<not> op_IsNull p \<and> op_n p \<le> 1 \<and> p \<notin> seen) \<and> distinct ps"
  by (induction ps arbitrary: seen) (auto simp: not_less)

lemma check_vin_Inr:
  "check_vin tx h cs v = Inr w \<longleftrightarrow>
     (\<forall>c \<in> set cs. inc_nTxTime c \<le> tx_nTimeStamp tx \<and> \<not> inc_IsLocked c h) \<and> w = v + sum_list (map inc_nAmount cs)"
  by (induction cs arbitrary: v) auto

lemma check_vin_Inl: "check_vin tx h cs v = Inl e \<Longrightarrow> e = MV_ERR_TRANSACTION_INPUT_INVALID"
  by (induction cs arbitrary: v) (auto split: if_splits)

lemma check_prev_outputs_Inl:
  "check_prev_outputs tx d h us v = Inl e \<Longrightarrow> e = MV_ERR_TRANSACTION_INPUT_INVALID"
  by (induction us arbitrary: v) (auto split: if_splits)

text \<open>The two ways to check the inputs, from a pool and from a block, agree on outputs of one
  destination.\<close>

lemma check_prev_outputs_vin:
  "check_prev_outputs tx d h us v = Inr w \<longleftrightarrow>
     (\<forall>u \<in> set us. out_destTo u = d) \<and> check_vin tx h (map inc_of_output us) v = Inr w"
proof (induction us arbitrary: v)
  case (Cons u us)
  then show ?case by (auto simp: inc_of_output_def out_IsLocked_def inc_IsLocked_def)
qed simp

text \<open>Why a transaction is accepted into a block.\<close>

lemma VerifyBlockTx_iff:
  "VerifyBlockTx env tx c i = MV_OK \<longleftrightarrow>
     (\<forall>v \<in> set (ctx_vin c). inc_nTxTime v \<le> tx_nTimeStamp tx \<and> \<not> inc_IsLocked v (idx_nHeight i))
     \<and> MoneyRange (GetValueIn c) \<and> tx_nAmount tx + tx_nTxFee tx \<le> GetValueIn c
     \<and> (\<exists>vchSig. tx_sig_part tx (ctx_destIn c) = Some vchSig
          \<and> dest_VerifyTx env (ctx_destIn c) (GetSignatureHash env tx) (tx_hashAnchor tx) (tx_sendTo tx) vchSig)"
proof (cases "check_vin tx (idx_nHeight i) (ctx_vin c) 0")
  case (Inl e)
  have "e = MV_ERR_TRANSACTION_INPUT_INVALID" using Inl by (rule check_vin_Inl)
  moreover have "\<not> (\<forall>v \<in> set (ctx_vin c). inc_nTxTime v \<le> tx_nTimeStamp tx \<and> \<not> inc_IsLocked v (idx_nHeight i))"
    using Inl check_vin_Inr [of tx "idx_nHeight i" "ctx_vin c" 0 "GetValueIn c"] by (auto simp: GetValueIn_def)
  ultimately show ?thesis by (simp add: VerifyBlockTx_def Inl)
next
  case (Inr w)
  then show ?thesis
    using check_vin_Inr [of tx "idx_nHeight i" "ctx_vin c" 0 w]
    by (auto simp: VerifyBlockTx_def GetValueIn_def Let_def split: option.splits if_splits)
qed


text \<open>Why a transaction is accepted into the pool: all its inputs belong to one destination, the
  rules for a block hold, and a locked-coin sender keeps its mortgage.\<close>

lemma VerifyTransaction_iff:
  fixes us :: "CTxOutput list"
  defines "d \<equiv> out_destTo (hd us)"
  defines "c \<equiv> \<lparr>ctx_destIn = d, ctx_vin = map inc_of_output us\<rparr>"
  assumes "idx_nHeight i = h" and "us \<noteq> []"
  shows "VerifyTransaction env tx us h = Some MV_OK \<longleftrightarrow>
     (\<forall>u \<in> set us. out_destTo u = d) \<and> VerifyBlockTx env tx c i = MV_OK
     \<and> (IsLockedCoin d \<longrightarrow>
          (\<exists>vchSig ptr. tx_sig_part tx d = Some vchSig
             \<and> CreateTemplatePtr env (GetType (dest_GetTemplateId d)) vchSig = Some ptr)
          \<and> tx_nAmount tx + tx_nTxFee tx + LockedCoin h \<le> GetValueIn c)"
proof -
  obtain u us' where us: "us = u # us'" using assms(4) by (cases us) auto
  show ?thesis
  proof (cases "check_prev_outputs tx d h us 0")
    case (Inl e)
    have "e = MV_ERR_TRANSACTION_INPUT_INVALID" using Inl by (rule check_prev_outputs_Inl)
    then have "VerifyTransaction env tx us h \<noteq> Some MV_OK"
      using Inl by (simp add: VerifyTransaction_def us d_def)
    moreover have "\<not> ((\<forall>u \<in> set us. out_destTo u = d) \<and> VerifyBlockTx env tx c i = MV_OK)"
      using Inl assms(3) check_prev_outputs_vin [of tx d h us 0 "GetValueIn c"]
      by (auto simp: VerifyBlockTx_iff check_vin_Inr c_def GetValueIn_def)
    ultimately show ?thesis by blast
  next
    case (Inr w)
    then have vin: "\<forall>u \<in> set us. out_destTo u = d" "check_vin tx h (map inc_of_output us) 0 = Inr w"
      by (auto simp: check_prev_outputs_vin)
    then have w: "w = GetValueIn c" by (simp add: check_vin_Inr c_def GetValueIn_def)
    have cds: "ctx_destIn c = d" by (simp add: c_def)
    have "VerifyBlockTx env tx c i = MV_OK \<longleftrightarrow>
        MoneyRange w \<and> tx_nAmount tx + tx_nTxFee tx \<le> w
        \<and> (\<exists>vchSig. tx_sig_part tx d = Some vchSig
            \<and> dest_VerifyTx env d (GetSignatureHash env tx) (tx_hashAnchor tx) (tx_sendTo tx) vchSig)"
      using vin(2) assms(3) unfolding VerifyBlockTx_iff w cds by (simp add: check_vin_Inr c_def)
    then show ?thesis
      using Inr vin(1) w unfolding us
      by (auto simp: VerifyTransaction_def us d_def [unfolded us, simplified, symmetric] split: option.splits)
  qed
qed

section \<open>What a validated transaction satisfies\<close>

lemma ValidateTransaction_OK:
  assumes "ValidateTransaction env tx = MV_OK"
  shows "tx_vInput tx = [] \<longleftrightarrow> IsMintTx tx" and "IsMintTx tx \<Longrightarrow> tx_vchSig tx = [] \<and> tx_nTxFee tx = 0"
    and "\<not> dest_IsNull (tx_sendTo tx)" and "MoneyRange (tx_nAmount tx)" and "MoneyRange (tx_nTxFee tx)"
    and "tx_nType tx = TX_TOKEN \<Longrightarrow> 100 \<le> tx_nTxFee tx"
    and "distinct (tx_vInput tx)" and "\<forall>p \<in> set (tx_vInput tx). \<not> op_IsNull p \<and> op_n p \<le> 1"
    and "Size_tx tx \<le> 100000"
  using assms
  by (auto simp: ValidateTransaction_def check_inputs_iff IsMintTx_def not_less split: if_splits)

lemma sum_list_const_33: "sum_list (map (\<lambda>_. 33) xs) = 33 * length xs"
  by (induction xs) auto

text \<open>The size limit bounds the number of inputs, so sums of input amounts stay far from the limits of
  \<^verbatim>\<open>int64\<close>.\<close>

lemma ValidateTransaction_inputs:
  assumes "ValidateTransaction env tx = MV_OK"
  shows "length (tx_vInput tx) \<le> 3030"
proof -
  have "33 * length (tx_vInput tx) \<le> Size_tx tx"
    by (simp add: Size_tx_def Size_vector_def sum_list_const_33)
  then show ?thesis using ValidateTransaction_OK(9) [OF assms] by simp
qed

lemma sum_list_MoneyRange:
  "\<forall>x \<in> set xs. MoneyRange x \<Longrightarrow> 0 \<le> sum_list xs \<and> sum_list xs \<le> int (length xs) * 1000000000000000"
  by (induction xs) (auto simp: MoneyRange_def algebra_simps)

section \<open>What a validated block satisfies\<close>

lemma card_leaves:
  "card (set (take (length vtx) (BuildMerkleTree env vtx))) = length vtx \<longleftrightarrow> distinct (map (tx_GetHash env) vtx)"
  unfolding BuildMerkleTree_leaves
  by (metis card_distinct distinct_card length_map)

lemma ValidateBlock_OK:
  assumes "ValidateBlock env g t b = MV_OK" and "blk_nType b \<noteq> BLOCK_VACANT"
  shows "time_of (blk_nTimeStamp b) \<le> t + 600" and "Size_block b \<le> 2000000"
    and "IsMintTx (blk_txMint b)" and "ValidateTransaction env (blk_txMint b) = MV_OK"
    and "blk_hashMerkle b = merkle_root env (map (tx_GetHash env) (blk_vtx b))"
    and "distinct (map (tx_GetHash env) (blk_vtx b))"
    and "\<forall>tx \<in> set (blk_vtx b). \<not> IsMintTx tx \<and> ValidateTransaction env tx = MV_OK"
    and "CheckBlockSignature env g b"
proof -
  have c: "\<not> time_of (blk_nTimeStamp b) > t + 600" "\<not> (\<not> IsMintTx (blk_txMint b) \<or> ValidateTransaction env (blk_txMint b) \<noteq> MV_OK)"
    "\<not> Size_block b > 2000000" "\<not> blk_hashMerkle b \<noteq> CalcMerkleTreeRoot env (blk_vtx b)"
    "\<not> card (set (take (length (blk_vtx b)) (BuildMerkleTree env (blk_vtx b)))) \<noteq> length (blk_vtx b)"
    "\<not> list_ex (\<lambda>tx. IsMintTx tx \<or> ValidateTransaction env tx \<noteq> MV_OK) (blk_vtx b)"
    "CheckBlockSignature env g b"
    using assms unfolding ValidateBlock_def by (simp_all split: if_splits)
  show "time_of (blk_nTimeStamp b) \<le> t + 600" "Size_block b \<le> 2000000"
    "IsMintTx (blk_txMint b)" "ValidateTransaction env (blk_txMint b) = MV_OK" "CheckBlockSignature env g b"
    using c by auto
  show "blk_hashMerkle b = merkle_root env (map (tx_GetHash env) (blk_vtx b))" using c(4) by (simp add: CalcMerkleTreeRoot_eq)
  show "distinct (map (tx_GetHash env) (blk_vtx b))" using c(5) card_leaves by blast
  show "\<forall>tx \<in> set (blk_vtx b). \<not> IsMintTx tx \<and> ValidateTransaction env tx = MV_OK"
    using c(6) by (auto simp: list_ex_iff)
qed

lemma ValidateBlock_vacant: "ValidateBlock env g t b = MV_OK \<Longrightarrow> blk_nType b = BLOCK_VACANT \<Longrightarrow> blk_vtx b = []"
  by (auto simp: ValidateBlock_def ValidateVacantBlock_def split: if_splits)

text \<open>The fees of a valid block are in range, so the mint amount is exact.\<close>

lemma sum_list_fees:
  assumes "\<forall>tx \<in> set txs. ValidateTransaction env tx = MV_OK"
  shows "0 \<le> sum_list (map tx_nTxFee txs)"
proof -
  have "0 \<le> tx_nTxFee tx" if "tx \<in> set txs" for tx
    using ValidateTransaction_OK(5) assms that by (fastforce simp: MoneyRange_def)
  then show ?thesis by (intro sum_list_nonneg) auto
qed

section \<open>Proof of work\<close>

text \<open>Pairs of an entry and its predecessor along a chain.\<close>

fun links :: "'a list \<Rightarrow> ('a \<times> 'a) set" where
  "links (x # y # zs) = insert (x, y) (links (y # zs))"
| "links _ = {}"

lemma links_Cons_subset: "links xs \<subseteq> links (x # xs)"
  by (cases xs) auto

lemma pow_seek_suffix: "\<exists>pre. chain = pre @ pow_seek a chain"
  by (induction chain) (auto intro: exI [of _ "_ # _"] exI [of _ "[]"])

lemma pow_seek_links: "links (pow_seek a chain) \<subseteq> links chain"
proof (induction chain)
  case (Cons i chain)
  then show ?case using links_Cons_subset [of chain i] by (auto simp del: links.simps)
qed simp

lemma pow_seek_last: "chain \<noteq> [] \<Longrightarrow> pow_seek a chain \<noteq> [] \<and> last (pow_seek a chain) = last chain"
  by (induction chain) auto

lemma pow_seek_PoW:
  "chain \<noteq> [] \<Longrightarrow> idx_IsProofOfWork (hd (pow_seek a chain)) \<Longrightarrow> \<not> idx_IsProofOfWork (last chain) \<Longrightarrow>
     uint (idx_nProofAlgo (hd (pow_seek a chain))) = a"
  by (induction chain) (auto split: if_splits)

text \<open>The search never runs off a chain whose first block was not mined.\<close>

lemma pow_spacing_total:
  "chain \<noteq> [] \<Longrightarrow> \<not> idx_IsProofOfWork (last chain) \<Longrightarrow> pow_spacing a n chain s w \<noteq> None"
proof (induction n arbitrary: chain s w)
  case (Suc n)
  show ?case
  proof (cases chain)
    case (Cons i "is")
    show ?thesis
    proof (cases "is")
      case Nil
      then show ?thesis using Suc.prems Cons by simp
    next
      case (Cons p ps)
      then show ?thesis
        using Suc.IH [of "pow_seek a is"] Suc.prems \<open>chain = i # is\<close> pow_seek_last [of "is" a]
        by (auto simp: Let_def simp del: pow_seek.simps)
    qed
  qed (use Suc.prems in simp)
next
  case 0
  then show ?case by (cases chain; cases "tl chain") auto
qed

text \<open>The weighted sum lies between the weighted extremes of the spacings.\<close>

lemma pow_spacing_bounds:
  assumes "pow_spacing a n chain s w = Some (s', w')"
    and "\<forall>(i, p) \<in> links chain. idx_IsProofOfWork i \<longrightarrow> lo \<le> idx_time i - idx_time p \<and> idx_time i - idx_time p \<le> hi"
    and "lo * w \<le> s" and "s \<le> hi * w" and "0 \<le> w"
  shows "lo * w' \<le> s' \<and> s' \<le> hi * w' \<and> w \<le> w' \<and> (idx_IsProofOfWork (hd chain) \<longrightarrow> w < w')"
  using assms
proof (induction n arbitrary: chain s w)
  case 0
  show ?case
  proof (cases chain)
    case (Cons i "is")
    then show ?thesis using 0 by (cases "is") (auto simp: algebra_simps split: if_splits)
  qed (use 0 in simp)
next
  case (Suc n)
  obtain i "is" where c: "chain = i # is" using Suc.prems(1) by (cases chain) auto
  show ?case
  proof (cases "idx_IsProofOfWork i")
    case True
    then obtain p ps where "is": "is = p # ps" using Suc.prems(1) c by (cases "is") auto
    let ?d = "idx_time i - idx_time p" and ?k = "(2 :: int) ^ Suc n"
    have d: "lo \<le> ?d" "?d \<le> hi" using Suc.prems(2) True by (auto simp: c "is")
    have k: "lo * ?k \<le> ?d * ?k" "?d * ?k \<le> hi * ?k" using d by (auto intro: mult_right_mono)
    have "pow_spacing a n (pow_seek a is) (s + ?d * ?k) (w + ?k) = Some (s', w')"
      using Suc.prems(1) True by (simp add: c "is" Let_def del: pow_seek.simps)
    moreover have "\<forall>(i, p) \<in> links (pow_seek a is). idx_IsProofOfWork i \<longrightarrow> lo \<le> idx_time i - idx_time p \<and> idx_time i - idx_time p \<le> hi"
    proof -
      have "links (pow_seek a is) \<subseteq> links chain"
        unfolding c using pow_seek_links [of a "is"] links_Cons_subset [of "is" i] by (rule order_trans)
      then show ?thesis using Suc.prems(2) by blast
    qed
    moreover have "lo * (w + ?k) \<le> s + ?d * ?k" "s + ?d * ?k \<le> hi * (w + ?k)" "0 \<le> w + ?k"
      unfolding distrib_left using add_mono [OF Suc.prems(3) k(1)] add_mono [OF Suc.prems(4) k(2)] Suc.prems(5)
      by simp_all
    ultimately have "lo * w' \<le> s' \<and> s' \<le> hi * w' \<and> w + ?k \<le> w'"
      using Suc.IH [of "pow_seek a is" "s + ?d * ?k" "w + ?k"] by blast
    moreover have "0 < ?k" by simp
    ultimately show ?thesis by linarith
  next
    case False
    then show ?thesis using Suc.prems by (simp add: c)
  qed
qed


text \<open>The target moves by at most one bit, in the direction the spacings ask for, and mining down to
  the limit never goes below it.\<close>

lemma GetProofOfWorkTarget_total:
  assumes "prev \<noteq> []" and "\<not> idx_IsProofOfWork (last prev)"
  shows "GetProofOfWorkTarget prev a \<noteq> None"
  using pow_spacing_total [of "pow_seek a prev" a 15 0 0] pow_seek_last [OF assms(1), of a] assms(2)
  by (auto simp: GetProofOfWorkTarget_def Let_def)

lemma sdiv_bounds:
  fixes lo hi s w :: int
  assumes "lo * w \<le> s" "s \<le> hi * w" "0 < w" "0 \<le> lo"
  shows "lo \<le> s sdiv w" and "s sdiv w \<le> hi"
proof -
  have "0 \<le> s" using assms mult_nonneg_nonneg [of lo w] by linarith
  then have e: "s sdiv w = s div w" using assms(3)
    by (cases "s = 0") (simp_all add: signed_divide_int_def)
  show "lo \<le> s sdiv w" unfolding e using assms(1,3) by (metis mult.commute zdiv_mono1 nonzero_mult_div_cancel_left less_irrefl)
  show "s sdiv w \<le> hi" unfolding e using assms(2,3) by (metis mult.commute zdiv_mono1 nonzero_mult_div_cancel_left less_irrefl)
qed

lemma pow_average:
  assumes "prev \<noteq> []" and "idx_IsProofOfWork (hd (pow_seek a prev))"
    and "pow_spacing a 15 (pow_seek a prev) 0 0 = Some (s, w)" and "0 \<le> lo"
    and "\<forall>(i, p) \<in> links prev. idx_IsProofOfWork i \<longrightarrow> lo \<le> idx_time i - idx_time p \<and> idx_time i - idx_time p \<le> hi"
  shows "lo \<le> s sdiv w \<and> s sdiv w \<le> hi"
proof -
  have "\<forall>(i, p) \<in> links (pow_seek a prev). idx_IsProofOfWork i \<longrightarrow> lo \<le> idx_time i - idx_time p \<and> idx_time i - idx_time p \<le> hi"
    using assms(5) pow_seek_links [of a prev] by blast
  from pow_spacing_bounds [OF assms(3) this] have "lo * w \<le> s" "s \<le> hi * w" "0 < w"
    using assms(2) by auto
  then show ?thesis using sdiv_bounds assms(4) by blast
qed

lemma GetProofOfWorkTarget_step:
  assumes "GetProofOfWorkTarget prev a = Some (Some (nBits, nReward))"
    and "idx_IsProofOfWork (hd (pow_seek a prev))"
  shows "\<bar>nBits - uint (idx_nProofBits (hd (pow_seek a prev)))\<bar> \<le> 1"
    and "16 \<le> uint (idx_nProofBits (hd (pow_seek a prev))) \<Longrightarrow> 16 \<le> nBits"
  using assms by (auto simp: GetProofOfWorkTarget_def Let_def nProofOfWorkLimit_def split: if_splits option.splits)

text \<open>The run-time target: one bit harder before the target spacing has passed, then one bit easier for
  every further minute, down to the limit.\<close>

lemma RunTimeBits_limit: "16 \<le> nBits \<Longrightarrow> 16 \<le> GetProofOfWorkRunTimeBits nBits t p"
  by (simp add: GetProofOfWorkRunTimeBits_def Let_def nProofOfWorkLimit_def)

lemma RunTimeBits_mono:
  assumes "t \<le> t'" "16 \<le> nBits"
  shows "GetProofOfWorkRunTimeBits nBits t' p \<le> GetProofOfWorkRunTimeBits nBits t p"
proof -
  have "(t - p - 60) div 60 \<le> (t' - p - 60) div 60" using assms(1) by (intro zdiv_mono1) auto
  then show ?thesis
    using assms pos_imp_zdiv_nonneg_iff [of 60 "t' - p - 60"]
    by (auto simp: GetProofOfWorkRunTimeBits_def Let_def nProofOfWorkLimit_def)
qed

lemma drop_bit_minus_one: "unat (drop_bit n (- 1 :: uint256)) = 2 ^ (256 - n) - 1"
proof -
  have "unat (drop_bit n (- 1 :: uint256)) = drop_bit n (take_bit 256 (unat (- 1 :: uint256)))"
    using unsigned_drop_bit_eq [of n "- 1 :: uint256"] by simp
  also have "take_bit 256 (unat (- 1 :: uint256)) = mask 256" by (simp add: unsigned_minus_1_eq_mask)
  also have "drop_bit n (mask 256) = (2 :: nat) ^ (256 - n) - 1"
    unfolding drop_bit_mask_eq by (rule mask_eq_exp_minus_1)
  finally show ?thesis .
qed

text \<open>An accepted proof of work has the required number of leading zero bits.\<close>

lemma VerifyProofOfWork_OK:
  assumes "VerifyProofOfWork env b prev = Some (Inr nReward)"
  obtains pf nBits where "phc_Load (blk_vchProof b) = Some pf" and "phc_nAlgo pf = 1"
    and "GetProofOfWorkTarget prev 1 = Some (Some (nBits, nReward))" and "uint (phc_nBits pf) = nBits"
    and "idx_time (hd prev) \<le> time_of (blk_nTimeStamp b)"
    and "unat (CryptoHash env (GetSerializedProofOfWorkData b)) <
      2 ^ (256 - nat (GetProofOfWorkRunTimeBits nBits (time_of (blk_nTimeStamp b)) (idx_time (hd prev))))"
proof -
  let ?bits = "\<lambda>n. nat (GetProofOfWorkRunTimeBits n (time_of (blk_nTimeStamp b)) (idx_time (hd prev)))"
  obtain pf nBits where p: "phc_Load (blk_vchProof b) = Some pf" "uint (phc_nAlgo pf) = 1"
      "GetProofOfWorkTarget prev (uint (phc_nAlgo pf)) = Some (Some (nBits, nReward))" "uint (phc_nBits pf) = nBits"
      "\<not> time_of (blk_nTimeStamp b) < idx_time (hd prev)"
      "\<not> CryptoHash env (GetSerializedProofOfWorkData b) > drop_bit (?bits nBits) (- 1)"
    using assms by (auto simp: VerifyProofOfWork_def Let_def split: if_splits option.splits)
  have "phc_nAlgo pf = 1" using p(2) by (metis of_int_1 word_of_int_uint)
  moreover have "unat (CryptoHash env (GetSerializedProofOfWorkData b)) < 2 ^ (256 - ?bits nBits)"
  proof -
    have "unat (CryptoHash env (GetSerializedProofOfWorkData b)) \<le> 2 ^ (256 - ?bits nBits) - 1"
      using p(6) unfolding not_less word_le_nat_alt drop_bit_minus_one .
    also have "\<dots> < 2 ^ (256 - ?bits nBits)" by simp
    finally show ?thesis .
  qed
  ultimately show thesis using that p by simp
qed

section \<open>Block producers\<close>

lemma pick_ballot_mem: "d \<in> set (pick_ballot m n) \<Longrightarrow> \<exists>w. (d, w) \<in> set m \<and> 0 < w"
proof (induction m arbitrary: n)
  case (Cons e m)
  show ?case
  proof (cases "n < snd e")
    case True
    then have "(d, snd e) \<in> set (e # m) \<and> 0 < snd e" using Cons.prems by (auto simp: word_gt_0)
    then show ?thesis by blast
  next
    case False
    then show ?thesis using Cons by auto
  qed
qed simp

lemma pick_ballot_length:
  "unat n < sum_list (map (\<lambda>e. unat (snd e)) m) \<Longrightarrow> length (pick_ballot m n) = 1"
proof (induction m arbitrary: n)
  case (Cons e m)
  show ?case
  proof (cases "n < snd e")
    case False
    then have "snd e \<le> n" by simp
    then have "unat (n - snd e) = unat n - unat (snd e)" by (rule unat_sub)
    then have "unat (n - snd e) < sum_list (map (\<lambda>e. unat (snd e)) m)"
      using Cons.prems False by (simp add: word_less_nat_alt)
    then show ?thesis using Cons.IH False by simp
  qed simp
qed simp

lemma ballot_loop_mem: "d \<in> set (ballot_loop ps w m sel tr) \<Longrightarrow> \<exists>v. (d, v) \<in> set m \<and> 0 < v"
  by (induction ps arbitrary: sel tr) (auto simp: Let_def dest: pick_ballot_mem split: if_splits)

text \<open>The number of significant bits of the weight.\<close>

fun bit_length :: "nat \<Rightarrow> nat" where
  "bit_length n = (if n = 0 then 0 else Suc (bit_length (n div 2)))"

declare bit_length.simps [simp del]

lemma ballot_loop_length:
  assumes "0 < w" and "unat w \<le> sum_list (map (\<lambda>e. unat (snd e)) m)"
  shows "length (ballot_loop ps w m sel tr) = min (length ps) (bit_length (unat tr))"
proof (induction ps arbitrary: sel tr)
  case (Cons p ps)
  show ?case
  proof (cases "tr = 0")
    case True
    then show ?thesis by (simp add: bit_length.simps)
  next
    case False
    have "unat ((sel + ucast p) mod w) < unat w"
      using assms(1) by (simp add: unat_mod word_less_nat_alt)
    then have "length (pick_ballot m ((sel + ucast p) mod w)) = 1"
      using assms(2) by (intro pick_ballot_length) simp
    moreover have "unat (drop_bit 1 tr) = unat tr div 2"
      by (simp add: drop_bit_eq_div unat_div)
    moreover have "bit_length (unat tr) = Suc (bit_length (unat tr div 2))"
      using False by (subst bit_length.simps) (simp add: unat_eq_0)
    ultimately show ?thesis using False Cons.IH [of "sel + ucast p" "drop_bit 1 tr"]
      by (simp add: Let_def)
  qed
qed simp

lemma GetDelegatedBallot_cases:
  "GetDelegatedBallot a w m = [] \<or>
   GetDelegatedBallot a w m = ballot_loop (Save_uint a) w m (ucast (foldl bit_xor 0 (Save_uint a))) w"
  by (simp add: GetDelegatedBallot_def Let_def)

lemma ucast_byte_unat: "unat (ucast (x :: uint8) :: uint64) = unat x" "unat (x :: uint8) < 256"
proof -
  show "unat x < 256" using unsigned_less [of x] by simp
  then show "unat (ucast x :: uint64) = unat x" by (simp add: unsigned_ucast_eq take_bit_eq_mod)
qed

lemma GetDelegatedBallot_zero: "GetDelegatedBallot a 0 m = []"
proof -
  have "(ucast (x :: uint8) :: uint64) < 256" for x
    using ucast_byte_unat [of x] by (simp add: word_less_nat_alt)
  then have "\<not> 256 \<le> (ucast (x :: uint8) :: uint64)" for x by (simp add: not_le)
  then show ?thesis by (simp add: GetDelegatedBallot_def Let_def)
qed

text \<open>Up to \<^verbatim>\<open>DELEGATE_THRESH\<close> nothing wraps around, and the divisor is not zero.\<close>

definition work_weight :: "nat \<Rightarrow> nat" where
  "work_weight w = (50 - w) ^ 3 div 2500"

lemma work_weight_pos: "w \<le> 50 \<Longrightarrow> 0 < work_weight w + w"
  by (cases "w = 0") (simp_all add: work_weight_def)

lemma delegate_threshold:
  assumes "unat w \<le> 50"
  defines "work \<equiv> (50 - w) * (50 - w) * (50 - w) div (50 * 50) :: uint64"
  shows "unat (work * 256 div (work + w)) = work_weight (unat w) * 256 div (work_weight (unat w) + unat w)"
proof -
  let ?x = "50 - w" and ?a = "50 - unat w"
  have a: "unat ?x = ?a" using assms(1) by (simp add: unat_sub word_le_nat_alt)
  have "?a * ?a \<le> 50 * 50" by (intro mult_le_mono) auto
  moreover from this have "?a * ?a * ?a \<le> 50 * 50 * 50" by (intro mult_le_mono) auto
  ultimately have "unat (?x * ?x * ?x) = ?a * ?a * ?a" by (simp add: unat_word_ariths a)
  then have wk: "unat work = work_weight (unat w)"
    unfolding work_def work_weight_def by (simp add: unat_div power3_eq_cube)
  have "work_weight (unat w) \<le> 50"
    using \<open>?a * ?a * ?a \<le> 50 * 50 * 50\<close> div_le_mono [of "?a * ?a * ?a" 125000 2500] by (simp add: work_weight_def power3_eq_cube)
  then have "unat (work * 256) = work_weight (unat w) * 256" "unat (work + w) = work_weight (unat w) + unat w"
    using assms(1) by (simp_all add: unat_word_ariths wk)
  then show ?thesis by (simp add: unat_div)
qed

lemma ballot_drawn_iff:
  assumes "unat w \<le> 50" and "unat w \<le> sum_list (map (\<lambda>e. unat (snd e)) m)"
  shows "GetDelegatedBallot a w m \<noteq> [] \<longleftrightarrow>
    0 < w \<and> work_weight (unat w) * 256 div (work_weight (unat w) + unat w) \<le> unat (foldl bit_xor 0 (Save_uint a))"
proof (cases "w = 0")
  case True
  then show ?thesis by (simp add: GetDelegatedBallot_zero)
next
  case False
  then have "0 < w" "bit_length (unat w) \<noteq> 0" by (simp_all add: word_gt_0 bit_length.simps [of "unat w"] unat_eq_0)
  then have "ballot_loop (Save_uint a) w m sel w \<noteq> []" for sel
    using ballot_loop_length [OF _ assms(2), of "Save_uint a" sel w] by (auto simp: length_Save_uint)
  then show ?thesis
    using delegate_threshold [OF assms(1)] ucast_byte_unat(1) [of "foldl bit_xor 0 (Save_uint a)"] \<open>0 < w\<close>
    by (simp add: GetDelegatedBallot_def Let_def word_le_nat_alt)
qed

text \<open>The weights that the votes give.\<close>

lemma sum_om_ins: "sum_list (map (\<lambda>e. unat (snd e)) (om_ins k v m)) \<le> sum_list (map (\<lambda>e. unat (snd e)) m) + unat (v :: uint64)"
proof -
  have "sum_list (map (\<lambda>e. unat (snd e)) (om_set k v m)) \<le> sum_list (map (\<lambda>e. unat (snd e)) m) + unat v"
    by (induction m) auto
  then show ?thesis by (simp add: om_ins_def)
qed

lemma unat_word_of_int_le: "0 \<le> x \<Longrightarrow> int (unat (word_of_int x :: uint64)) \<le> x"
  by (simp add: unsigned_of_int take_bit_int_less_eq_self_iff)

lemma avail_loop_weights:
  assumes "avail_loop en read r votes W D = Some (ok, W', D')" and "0 < r" and "\<forall>(d, v) \<in> set votes. 0 \<le> v"
  shows "r * int (sum_list (map (\<lambda>e. unat (snd e)) W')) \<le> r * int (sum_list (map (\<lambda>e. unat (snd e)) W)) + sum_list (map snd votes)"
  using assms
proof (induction votes arbitrary: W D)
  case (Cons e votes)
  obtain d v where e: "e = (d, v)" by fastforce
  let ?sum = "\<lambda>W :: (CDestination, uint64) omap. int (sum_list (map (\<lambda>e. unat (snd e)) W))"
  have v: "0 \<le> v" using Cons.prems(3) e by simp
  have rest: "0 \<le> sum_list (map snd votes)" using Cons.prems(3) by (intro sum_list_nonneg) fastforce
  have ins: "r * ?sum (om_ins d (word_of_int (v sdiv r)) W) \<le> r * ?sum W + v"
  proof -
    have "v sdiv r = v div r" using v Cons.prems(2) by (cases "v = 0") (simp_all add: signed_divide_int_def)
    then have "int (unat (word_of_int (v sdiv r) :: uint64)) \<le> v div r"
      using unat_word_of_int_le [of "v div r"] v Cons.prems(2) by (simp only: pos_imp_zdiv_nonneg_iff)
    moreover have "?sum (om_ins d (word_of_int (v sdiv r)) W) \<le> ?sum W + int (unat (word_of_int (v sdiv r) :: uint64))"
      using sum_om_ins [of d "word_of_int (v sdiv r)" W] by (simp only: of_nat_add [symmetric] of_nat_le_iff)
    ultimately have "?sum (om_ins d (word_of_int (v sdiv r)) W) \<le> ?sum W + v div r" by linarith
    then have "r * ?sum (om_ins d (word_of_int (v sdiv r)) W) \<le> r * (?sum W + v div r)"
      using Cons.prems(2) by (intro mult_left_mono) auto
    also have "\<dots> \<le> r * ?sum W + v"
      using Cons.prems(2) by (simp only: distrib_left) (simp add: minus_mod_eq_mult_div [symmetric])
    finally show ?thesis .
  qed
  show ?case
  proof (cases "v \<ge> r")
    case True
    show ?thesis
    proof (cases "om_get en d")
      case None
      then show ?thesis using Cons.IH [of W D] Cons.prems e v True by simp
    next
      case (Some pos)
      show ?thesis
      proof (cases "read pos")
        case None
        then show ?thesis using Cons.prems e v True Some rest by simp
      next
        case tx: (Some tx)
        then have "avail_loop en read r votes (om_ins d (word_of_int (v sdiv r)) W) (om_ins d (tx_vchData tx) D) = Some (ok, W', D')"
          using Cons.prems(1,2) e True Some by simp
        then show ?thesis using Cons.IH Cons.prems(2,3) ins e by fastforce
      qed
    qed
  next
    case False
    then show ?thesis using Cons.IH [of W D] Cons.prems e v by simp
  qed
qed simp

lemma delegate_weights_bound:
  assumes "RetrieveAvailDelegate (Some votes) enrolled read (nDelegateWeightRatio nMoneySupply) [] [] = Some (ok, W, D)"
    and "0 < nMoneySupply" and "\<forall>(d, v) \<in> set votes. 0 \<le> v" and "sum_list (map snd votes) \<le> nMoneySupply"
  shows "sum_list (map (\<lambda>e. unat (snd e)) W) \<le> 50"
proof -
  let ?r = "(nMoneySupply + 49) div 50" and ?n = "int (sum_list (map (\<lambda>e. unat (snd e)) W))"
  have r: "nDelegateWeightRatio nMoneySupply = ?r" "0 < ?r" "nMoneySupply \<le> 50 * ?r"
    using assms(2) by (simp_all add: nDelegateWeightRatio_def signed_divide_int_def)
  have "?r * ?n \<le> sum_list (map snd votes)"
  proof (cases enrolled)
    case None
    have "0 \<le> sum_list (map snd votes)" using assms(3) by (intro sum_list_nonneg) fastforce
    then show ?thesis using None assms(1) by (simp add: RetrieveAvailDelegate_def)
  next
    case (Some en)
    then show ?thesis using avail_loop_weights [of en read ?r votes "[]" "[]" ok W D] assms(1,3) r by (simp add: RetrieveAvailDelegate_def)
  qed
  then have "?r * ?n \<le> ?r * 50" using assms(4) r(3) by simp
  then show ?thesis using r(2) by simp
qed

lemma ballot_weight_bound:
  assumes "distinct m" and "set m \<subseteq> set W"
  shows "sum_list (map (\<lambda>e. unat (snd e)) m) \<le> sum_list (map (\<lambda>e. unat (snd e)) W)"
proof -
  have "sum_list (map (\<lambda>e. unat (snd e)) m) = (\<Sum>e \<in> set m. unat (snd e))" using assms(1) by (simp add: sum_list_distinct_conv_sum_set)
  also have "\<dots> \<le> (\<Sum>e \<in> set W. unat (snd e))" using assms(2) by (intro sum_mono2) auto
  also have "\<dots> \<le> sum_list (map (\<lambda>e. unat (snd e)) W)"
    by (induction W) (auto simp: sum.insert_if)
  finally show ?thesis .
qed

lemma unat_sum_list_le: "unat (sum_list ws) \<le> sum_list (map unat (ws :: uint64 list))"
proof (induction ws)
  case (Cons w ws)
  have "unat (w + sum_list ws) \<le> unat w + unat (sum_list ws)" by (simp add: unat_word_ariths)
  with Cons show ?case by simp
qed simp

section \<open>Properties\<close>

text \<open>Property C1: the pool accepts a transaction exactly when all the outputs it spends belong to one
  destination, the checks made for a transaction of a block hold for them (spent after they were
  created, none locked, value in range and covering amount and fee, signature valid), and a
  locked-coin sender keeps its mortgage.\<close>

theorem VerifyTransaction_spec:
  assumes "us \<noteq> []" and "idx_nHeight i = h"
  shows "VerifyTransaction env tx us h = Some MV_OK \<longleftrightarrow>
    (\<forall>u \<in> set us. out_destTo u = out_destTo (hd us))
    \<and> VerifyBlockTx env tx \<lparr>ctx_destIn = out_destTo (hd us), ctx_vin = map inc_of_output us\<rparr> i = MV_OK
    \<and> (IsLockedCoin (out_destTo (hd us)) \<longrightarrow>
         (\<exists>vchSig ptr. tx_sig_part tx (out_destTo (hd us)) = Some vchSig
            \<and> CreateTemplatePtr env (GetType (dest_GetTemplateId (out_destTo (hd us)))) vchSig = Some ptr)
         \<and> tx_nAmount tx + tx_nTxFee tx + LockedCoin h \<le>
             GetValueIn \<lparr>ctx_destIn = out_destTo (hd us), ctx_vin = map inc_of_output us\<rparr>)"
  by (rule VerifyTransaction_iff [OF assms(2,1)])

definition example_output :: CTxOutput where
  "example_output = \<lparr>out_destTo = dest_pubkey 7, out_nAmount = 6000000, out_nTxTime = 1515745100, out_nLockUntil = 0\<rparr>"

definition example_signed :: CTransaction where
  "example_signed = example_tx\<lparr>tx_vInput := [CTxOutPoint 77 0], tx_vchSig := Save_uint (7 :: uint256) @ replicate 32 0\<rparr>"

definition example_index :: CBlockIndex where
  "example_index = (idx_of_block example_env 5 example_block 1 0)\<lparr>idx_nHeight := 10\<rparr>"

lemma example_index_simps [simp]:
  "idx_nHeight example_index = 10" "idx_nType example_index = BLOCK_PRIMARY"
  by (simp_all add: example_index_def idx_of_block_def example_block_def Let_def)

lemma example_signed_verifies:
  "VerifyBlockTx example_env example_signed
     \<lparr>ctx_destIn = dest_pubkey 7, ctx_vin = map inc_of_output [example_output]\<rparr> example_index = MV_OK"
proof -
  have "dest_VerifyTx example_env (dest_pubkey 7) (GetSignatureHash example_env example_signed) a d
      (Save_uint (7 :: uint256) @ replicate 32 0)" for a d
    by (simp add: dest_VerifyTx_iff dest_VerifyTxSignature_pubkey CPubKey_Verify_def CryptoVerify_def
        example_env_def length_Save_uint)
  moreover have "tx_sig_part example_signed (dest_pubkey 7) = Some (Save_uint (7 :: uint256) @ replicate 32 0)"
    by (simp add: tx_sig_part_def IsDestInRecorded_def example_signed_def example_tx_def dest_IsTemplate_def dest_pubkey_def)
  ultimately show ?thesis
    unfolding VerifyBlockTx_iff
    by (simp add: GetValueIn_def inc_of_output_def example_output_def example_signed_def example_tx_def tx_null_def
        MoneyRange_def inc_IsLocked_def lock_active_def)
qed

lemma example_signed_valid: "ValidateTransaction example_env example_signed = MV_OK"
  by (simp add: ValidateTransaction_def example_signed_def example_tx_def tx_null_def IsMintTx_def dest_IsNull_def
      dest_pubkey_def MoneyRange_def op_IsNull_def Size_tx_def Size_vector_def Size_vch_def CVarInt_Size_def length_Save_uint)

lemma example_signed_accepted: "VerifyTransaction example_env example_signed [example_output] 10 = Some MV_OK"
proof -
  have h: "idx_nHeight example_index = 10" by simp
  have "\<not> IsLockedCoin (dest_pubkey 7)" by (simp add: IsLockedCoin_def dest_IsTemplate_def dest_pubkey_def)
  then show ?thesis
    using VerifyTransaction_iff [OF h, of "[example_output]" example_env example_signed] example_signed_verifies
    by (simp add: example_output_def)
qed

theorem VerifyTransaction_spec_witness:
  "VerifyTransaction example_env example_signed [example_output] 10 = Some MV_OK"
proof -
  have h: "idx_nHeight example_index = 10" by simp
  have "\<not> IsLockedCoin (dest_pubkey 7)" by (simp add: IsLockedCoin_def dest_IsTemplate_def dest_pubkey_def)
  then show ?thesis
    using VerifyTransaction_spec [OF _ h, of "[example_output]" example_env example_signed] example_signed_verifies
    by (simp add: example_output_def)
qed

text \<open>Property C15: no money is created by a transaction that the pool accepted after validation: what it
  pays and its fee are covered by the outputs it spends, and no intermediate sum of at most 3030
  amounts leaves the range of \<^verbatim>\<open>int64\<close>.\<close>

theorem accepted_transaction_conserves_value:
  assumes "ValidateTransaction env tx = MV_OK" and "VerifyTransaction env tx us h = Some MV_OK"
    and "length us = length (tx_vInput tx)" and "\<forall>u \<in> set us. MoneyRange (out_nAmount u)"
  shows "tx_nAmount tx + tx_nTxFee tx \<le> sum_list (map out_nAmount us)
    \<and> 0 \<le> atx_GetChange \<lparr>atx_tx = tx, atx_destIn = d, atx_nValueIn = sum_list (map out_nAmount us), atx_nBlockHeight = b\<rparr>
    \<and> (\<forall>n. int64_range (sum_list (take n (map out_nAmount us))))"
proof -
  have us: "us \<noteq> []" using assms(2) by (auto simp: VerifyTransaction_def)
  let ?c = "\<lparr>ctx_destIn = out_destTo (hd us), ctx_vin = map inc_of_output us\<rparr>"
  let ?i = "example_index\<lparr>idx_nHeight := h\<rparr>"
  have "idx_nHeight ?i = h" by simp
  from VerifyTransaction_iff [OF this us] assms(2) have "VerifyBlockTx env tx ?c ?i = MV_OK" by blast
  then have "tx_nAmount tx + tx_nTxFee tx \<le> GetValueIn ?c" unfolding VerifyBlockTx_iff by blast
  moreover have "GetValueIn ?c = sum_list (map out_nAmount us)"
    by (simp add: GetValueIn_def inc_of_output_def comp_def)
  ultimately have le: "tx_nAmount tx + tx_nTxFee tx \<le> sum_list (map out_nAmount us)" by simp
  have "int64_range (sum_list (take n (map out_nAmount us)))" for n
  proof -
    have "\<forall>x \<in> set (take n (map out_nAmount us)). MoneyRange x"
      using assms(4) by (auto dest!: in_set_takeD)
    from sum_list_MoneyRange [OF this] have "0 \<le> sum_list (take n (map out_nAmount us))"
      "sum_list (take n (map out_nAmount us)) \<le> int (length (take n (map out_nAmount us))) * 1000000000000000"
      by auto
    moreover have "length (take n (map out_nAmount us)) \<le> 3030"
      using assms(3) ValidateTransaction_inputs [OF assms(1)] by simp
    ultimately show ?thesis by (simp add: int64_range_def)
  qed
  with le show ?thesis by (simp add: atx_GetChange_def)
qed

theorem accepted_transaction_conserves_value_witness:
  "ValidateTransaction example_env example_signed = MV_OK
   \<and> VerifyTransaction example_env example_signed [example_output] 10 = Some MV_OK
   \<and> tx_nAmount example_signed + tx_nTxFee example_signed \<le> sum_list (map out_nAmount [example_output])"
  using accepted_transaction_conserves_value [OF example_signed_valid example_signed_accepted]
    example_signed_valid example_signed_accepted
  by (simp add: example_signed_def example_tx_def example_output_def MoneyRange_def)

lemma genesis_profile_Save:
  assumes "length strName < 256" and "length strSymbol < 256"
  shows "\<exists>b. prof_Save (genesis_profile strName strSymbol d) = Inr b \<and> prof_Load b = Inr (genesis_profile strName strSymbol d)
    \<and> length b \<le> 700"
proof -
  let ?p = "genesis_profile strName strSymbol d"
  have "prof_ok ?p"
    using assms by (simp add: prof_ok_def genesis_profile_def prof_SetFlag_def prof_null_def int64_range_def int32_range_def)
  then obtain b where b: "prof_Save ?p = Inr b" "prof_Load b = Inr ?p" by (rule prof_Load_Save)
  have "length b \<le> 700"
    using b(1) assms
    by (auto simp: prof_Save_def genesis_profile_def prof_SetFlag_def prof_null_def ctv_Push_int_def ctv_Push_vch_def
        ctv_Push_def om_ins_def om_has_def type_len_def length_Save_uint str_bytes_def)
  with b show ?thesis by blast
qed

lemma genesis_block_valid:
  assumes "length strName < 256" and "length strSymbol < 256" and "1515745156 - 600 \<le> nNetTime"
    and "b = genesis_block strName strSymbol (dest_pubkey k)"
  shows "ValidateBlock env (blk_GetHash env b) nNetTime b = MV_OK"
    and "prof_Load (blk_vchProof b) = Inr (genesis_profile strName strSymbol (dest_pubkey k))"
proof -
  obtain v where v: "prof_Save (genesis_profile strName strSymbol (dest_pubkey k)) = Inr v"
      "prof_Load v = Inr (genesis_profile strName strSymbol (dest_pubkey k))" "length v \<le> 700"
    using genesis_profile_Save [OF assms(1,2)] by blast
  have root: "CalcMerkleTreeRoot env [] = 0" by (simp add: CalcMerkleTreeRoot_eq merkle_root.simps [of env "[]"])
  have "CVarInt_Size c \<le> 9" for c by (simp add: CVarInt_Size_def)
  then have "Size_vch v \<le> 709" using v(3) by (auto simp: Size_vch_def intro: add_mono [of _ 9 _ 700, simplified])
  then show "ValidateBlock env (blk_GetHash env b) nNetTime b = MV_OK"
    using assms(3) v(1) root
    by (simp add: assms(4) ValidateBlock_def genesis_block_def blk_null_def IsMintTx_def ValidateTransaction_def
        tx_null_def dest_IsNull_def dest_pubkey_def MoneyRange_def Size_block_def Size_tx_def Size_vector_def Size_vch_def
        CVarInt_Size_def CheckBlockSignature_def)
  show "prof_Load (blk_vchProof b) = Inr (genesis_profile strName strSymbol (dest_pubkey k))"
    using v by (simp add: assms(4) genesis_block_def blk_null_def)
qed

text \<open>Property C2: exactly which blocks pass \<^verbatim>\<open>ValidateBlock\<close>.  A block is not from the future.  A vacant block is empty: it has no
  mint transaction, no transactions, no Merkle root, no proof and no signature, and its size is not limited.  Any other
  block is not oversized; its mint transaction is valid and the only mint transaction; its transactions are valid and
  have different identifiers, to which the Merkle root commits; an extended block has transactions and an
  origin block has none; and it is the genesis block, or its hash is signed by the key it mints to or, when it mints
  to a proof or delegate address, by the minting key of a template of the same kind that the signature describes.\<close>

theorem ValidateBlock_exact:
  "ValidateBlock env hashGenesis nNetTime b = MV_OK \<longleftrightarrow>
   time_of (blk_nTimeStamp b) \<le> nNetTime + MAX_CLOCK_DRIFT
   \<and> (if blk_nType b = BLOCK_VACANT
      then blk_txMint b = tx_null \<and> blk_vtx b = [] \<and> blk_hashMerkle b = 0 \<and> blk_vchProof b = [] \<and> blk_vchSig b = []
      else Size_block b \<le> MAX_BLOCK_SIZE
        \<and> IsMintTx (blk_txMint b) \<and> ValidateTransaction env (blk_txMint b) = MV_OK
        \<and> list_all (\<lambda>tx. \<not> IsMintTx tx \<and> ValidateTransaction env tx = MV_OK) (blk_vtx b)
        \<and> distinct (map (tx_GetHash env) (blk_vtx b))
        \<and> blk_hashMerkle b = merkle_root env (map (tx_GetHash env) (blk_vtx b))
        \<and> \<not> (blk_nType b = BLOCK_EXTENDED \<and> blk_vtx b = []) \<and> \<not> (blk_nType b = BLOCK_ORIGIN \<and> blk_vtx b \<noteq> [])
        \<and> (blk_GetHash env b = hashGenesis \<or> block_signed env (blk_GetHash env b) (tx_sendTo (blk_txMint b)) (blk_vchSig b)))"
proof (cases "blk_nType b = BLOCK_VACANT")
  case True
  then show ?thesis by (auto simp: ValidateBlock_def ValidateVacantBlock_def)
next
  case False
  have "CheckBlockSignature env hashGenesis b \<longleftrightarrow>
      blk_GetHash env b = hashGenesis \<or> block_signed env (blk_GetHash env b) (tx_sendTo (blk_txMint b)) (blk_vchSig b)"
    by (simp add: CheckBlockSignature_def dest_VerifyBlockSignature_iff)
  moreover have "list_all (\<lambda>tx. \<not> IsMintTx tx \<and> ValidateTransaction env tx = MV_OK) (blk_vtx b) \<longleftrightarrow>
      \<not> list_ex (\<lambda>tx. IsMintTx tx \<or> ValidateTransaction env tx \<noteq> MV_OK) (blk_vtx b)"
    by (auto simp: list_all_iff list_ex_iff)
  ultimately show ?thesis
    using False card_leaves [of "blk_vtx b" env]
    unfolding ValidateBlock_def by (simp add: CalcMerkleTreeRoot_eq not_le not_less) argo
qed

text \<open>Property C23: when a block has an odd number of transactions greater than one, repeating the last of them leaves the
  Merkle root unchanged, and \<^verbatim>\<open>ValidateBlock\<close> rejects the block that was altered in this way, whatever its type.\<close>

theorem repeated_transaction_rejected:
  assumes "odd (length (blk_vtx b))" and "1 < length (blk_vtx b)" and "b' = b\<lparr>blk_vtx := blk_vtx b @ [last (blk_vtx b)]\<rparr>"
  shows "CalcMerkleTreeRoot env (blk_vtx b') = CalcMerkleTreeRoot env (blk_vtx b)
    \<and> ValidateBlock env hashGenesis nNetTime b' \<noteq> MV_OK"
proof
  let ?xs = "map (tx_GetHash env) (blk_vtx b)"
  have ne: "blk_vtx b \<noteq> []" using assms(2) by auto
  have "merkle_root env (?xs @ [last ?xs]) = merkle_root env ?xs"
    using assms(1,2) by (intro merkle_root_repeat) auto
  then show "CalcMerkleTreeRoot env (blk_vtx b') = CalcMerkleTreeRoot env (blk_vtx b)"
    using ne by (simp add: CalcMerkleTreeRoot_eq assms(3) last_map)
  have "\<not> distinct (map (tx_GetHash env) (blk_vtx b'))" and "blk_vtx b' \<noteq> []"
    using ne by (simp_all add: assms(3))
  then show "ValidateBlock env hashGenesis nNetTime b' \<noteq> MV_OK"
    using ValidateBlock_OK(6) [of env hashGenesis nNetTime b'] ValidateBlock_vacant [of env hashGenesis nNetTime b'] by blast
qed

theorem repeated_transaction_rejected_witness:
  "let b = example_block\<lparr>blk_vtx := [tx_null, example_tx, example_signed]\<rparr> in
     CalcMerkleTreeRoot example_env (blk_vtx b @ [example_signed]) = CalcMerkleTreeRoot example_env (blk_vtx b)
     \<and> ValidateBlock example_env 0 2000000000 (b\<lparr>blk_vtx := blk_vtx b @ [example_signed]\<rparr>) \<noteq> MV_OK"
  using repeated_transaction_rejected [of "example_block\<lparr>blk_vtx := [tx_null, example_tx, example_signed]\<rparr>" _
      example_env 0 2000000000]
  by (simp add: example_block_def)

text \<open>Property C18: on a chain whose first block was not mined, the proof-of-work target is always computed;
  it differs from that of the last mined block by at most one bit and does not fall below the limit;
  and it falls when all spacings are above the upper target, rises when they are all below the lower
  one, and stays when they are all between the two.\<close>

theorem proof_of_work_retarget:
  assumes "prev \<noteq> []" and "\<not> idx_IsProofOfWork (last prev)" and "idx_IsPrimary (hd prev)"
    and "idx_IsProofOfWork (hd (pow_seek 1 prev))" and "0 \<le> lo"
    and "\<forall>(i, p) \<in> links prev. idx_IsProofOfWork i \<longrightarrow> lo \<le> idx_time i - idx_time p \<and> idx_time i - idx_time p \<le> hi"
  shows "\<exists>nBits. GetProofOfWorkTarget prev 1 = Some (Some (nBits, 15 * COIN))
    \<and> (let last = uint (idx_nProofBits (hd (pow_seek 1 prev))) in
         \<bar>nBits - last\<bar> \<le> 1 \<and> (16 \<le> last \<longrightarrow> 16 \<le> nBits)
         \<and> (100 < lo \<and> 16 < last \<longrightarrow> nBits = last - 1)
         \<and> (hi < 80 \<longrightarrow> nBits = last + 1)
         \<and> (80 \<le> lo \<and> hi \<le> 100 \<longrightarrow> nBits = last))"
proof -
  obtain s w where sw: "pow_spacing 1 15 (pow_seek 1 prev) 0 0 = Some (s, w)"
    using pow_spacing_total [of "pow_seek 1 prev" 1 15 0 0] pow_seek_last [OF assms(1), of 1] assms(2) by auto
  have avg: "lo \<le> s sdiv w" "s sdiv w \<le> hi" using pow_average [OF assms(1,4) sw assms(5,6)] by auto
  show ?thesis
    using assms(3,4) sw avg
    by (auto simp: GetProofOfWorkTarget_def GetProofOfWorkReward_def nProofOfWorkUpperTarget_def
        nProofOfWorkLowerTarget_def nProofOfWorkLimit_def Let_def)
qed

definition example_chain :: "CBlockIndex list" where
  "example_chain =
     [example_index\<lparr>idx_nTimeStamp := 1515745500, idx_nMintType := TX_WORK, idx_nProofAlgo := 1, idx_nProofBits := 20\<rparr>,
      example_index\<lparr>idx_nTimeStamp := 1515745300, idx_nMintType := TX_GENESIS\<rparr>]"

lemma le_val_zeros: "le_val (replicate n 0) = 0"
  by (induction n) auto

lemma example_target: "GetProofOfWorkTarget example_chain 1 = Some (Some (19, 15000000))"
  by (simp add: GetProofOfWorkTarget_def GetProofOfWorkReward_def example_chain_def idx_IsProofOfWork_def
      idx_IsPrimary_def type_IsPrimary_def Let_def
      nProofOfWorkUpperTarget_def nProofOfWorkLimit_def signed_divide_int_def)

theorem proof_of_work_retarget_witness:
  "\<exists>nBits. GetProofOfWorkTarget example_chain 1 = Some (Some (nBits, 15000000)) \<and> nBits = 19"
proof -
  have seek: "hd (pow_seek 1 example_chain) = hd example_chain"
    by (simp add: example_chain_def idx_IsProofOfWork_def)
  show ?thesis
    using proof_of_work_retarget [of example_chain 200 200]
    by (simp add: seek Let_def)
      (simp add: example_chain_def idx_IsProofOfWork_def idx_IsPrimary_def type_IsPrimary_def)
qed

text \<open>Property C24: a block accepted by \<^verbatim>\<open>VerifyProofOfWork\<close> has a proof whose digest starts with as many zero
  bits as the run-time target asks for; that number never falls below the limit, and waiting longer
  never makes it larger.\<close>

theorem proof_of_work_verified:
  assumes "VerifyProofOfWork env b prev = Some (Inr nReward)"
  shows "\<exists>nBits. GetProofOfWorkTarget prev 1 = Some (Some (nBits, nReward))
    \<and> idx_time (hd prev) \<le> time_of (blk_nTimeStamp b)
    \<and> unat (CryptoHash env (GetSerializedProofOfWorkData b)) <
        2 ^ (256 - nat (GetProofOfWorkRunTimeBits nBits (time_of (blk_nTimeStamp b)) (idx_time (hd prev))))
    \<and> (16 \<le> nBits \<longrightarrow> 16 \<le> GetProofOfWorkRunTimeBits nBits (time_of (blk_nTimeStamp b)) (idx_time (hd prev))
        \<and> (\<forall>t \<ge> time_of (blk_nTimeStamp b). GetProofOfWorkRunTimeBits nBits t (idx_time (hd prev)) \<le>
            GetProofOfWorkRunTimeBits nBits (time_of (blk_nTimeStamp b)) (idx_time (hd prev))))"
proof -
  obtain pf :: CProofOfHashWorkCompact and nBits where "GetProofOfWorkTarget prev 1 = Some (Some (nBits, nReward))"
    "idx_time (hd prev) \<le> time_of (blk_nTimeStamp b)"
    "unat (CryptoHash env (GetSerializedProofOfWorkData b)) <
        2 ^ (256 - nat (GetProofOfWorkRunTimeBits nBits (time_of (blk_nTimeStamp b)) (idx_time (hd prev))))"
    using assms by (rule VerifyProofOfWork_OK)
  then show ?thesis using RunTimeBits_limit RunTimeBits_mono by (intro exI [of _ nBits]) simp
qed

theorem proof_of_work_verified_witness:
  "let b = example_block\<lparr>blk_nTimeStamp := 1515745600, blk_vchProof := [1, 19] @ replicate 32 0\<rparr>;
       env = example_env\<lparr>env_hash := \<lambda>_. 0\<rparr> in
     VerifyProofOfWork env b example_chain = Some (Inr 15000000)
     \<and> (\<exists>nBits. GetProofOfWorkTarget example_chain 1 = Some (Some (nBits, 15000000)))"
proof -
  let ?b = "example_block\<lparr>blk_nTimeStamp := 1515745600, blk_vchProof := [1, 19] @ replicate 32 0\<rparr>"
  let ?env = "example_env\<lparr>env_hash := \<lambda>_. 0\<rparr>"
  have t: "GetProofOfWorkTarget example_chain 1 = Some (Some (19, 15000000))" by (rule example_target)
  have "phc_Load (blk_vchProof ?b) = Some (CProofOfHashWorkCompact 1 19 0)"
    by (simp add: phc_Load_def le_val_zeros)
  then have v: "VerifyProofOfWork ?env ?b example_chain = Some (Inr 15000000)"
    using t by (simp add: VerifyProofOfWork_def CryptoHash_def example_chain_def)
  show ?thesis using proof_of_work_verified [OF v] v t by simp
qed

text \<open>Property C25: the producers drawn from an agreement are enrolled delegates with positive weight; when the
  ballots cover the total weight, none or as many are drawn as the weight has bits (32 at most); and
  without weight none is drawn.\<close>

theorem delegated_ballot_sound:
  assumes "unat nWeight \<le> sum_list (map (\<lambda>e. unat (snd e)) mapBallot)"
  shows "(\<forall>d \<in> set (GetDelegatedBallot nAgreement nWeight mapBallot). \<exists>w. (d, w) \<in> set mapBallot \<and> 0 < w)
    \<and> length (GetDelegatedBallot nAgreement nWeight mapBallot) \<in> {0, min 32 (bit_length (unat nWeight))}
    \<and> GetDelegatedBallot nAgreement 0 mapBallot = []"
proof -
  have mem: "\<exists>w. (d, w) \<in> set mapBallot \<and> 0 < w" if "d \<in> set (GetDelegatedBallot nAgreement nWeight mapBallot)" for d
    using that GetDelegatedBallot_cases [of nAgreement nWeight mapBallot] ballot_loop_mem by (metis empty_iff empty_set)
  have "length (GetDelegatedBallot nAgreement nWeight mapBallot) \<in> {0, min 32 (bit_length (unat nWeight))}"
  proof (cases "nWeight = 0")
    case True
    then show ?thesis by (simp add: GetDelegatedBallot_zero)
  next
    case False
    then have "0 < nWeight" by (simp add: word_gt_0)
    from ballot_loop_length [OF this assms] show ?thesis
      using GetDelegatedBallot_cases [of nAgreement nWeight mapBallot] by (auto simp: length_Save_uint)
  qed
  then show ?thesis using mem GetDelegatedBallot_zero by blast
qed

lemma bit_length_3: "bit_length 3 = 2"
  by (simp add: bit_length.simps [of 3] bit_length.simps [of "Suc 0"] bit_length.simps [of 0])

theorem delegated_ballot_sound_witness:
  "length (GetDelegatedBallot 12345 3 [(dest_pubkey 1, 1), (dest_pubkey 2, 2)]) \<in> {0, 2}
   \<and> GetDelegatedBallot 12345 0 [(dest_pubkey 1, 1), (dest_pubkey 2, 2)] = []"
  using delegated_ballot_sound [of 3 "[(dest_pubkey 1, 1), (dest_pubkey 2, 2)]" 12345]
  by (simp add: bit_length_3)

text \<open>Property C34: the weights that \<^verbatim>\<open>RetrieveAvailDelegate\<close> derives from the votes sum to at most \<^verbatim>\<open>DELEGATE_THRESH\<close>, when the votes
  are not negative and do not exceed the money supply in sum.  Hence for every part of the delegates that takes part
  in a ballot, with the sum of their weights as its weight, the unsigned difference in \<^verbatim>\<open>GetDelegatedBallot\<close> does not wrap
  around and the divisor is not zero: producers are drawn exactly when there is weight and the exclusive or of the bytes
  of the agreement reaches the threshold \<^verbatim>\<open>256 * f / (f + w)\<close>, where \<^verbatim>\<open>f\<close> is \<^verbatim>\<open>(50 - w)^3 / 2500\<close> and both divisions
  are those of natural numbers.\<close>

theorem delegate_election_threshold:
  assumes "RetrieveAvailDelegate (Some mapVote) enrolled read (nDelegateWeightRatio nMoneySupply) [] [] = Some (ok, mapWeight, mapEnrollData)"
    and "0 < nMoneySupply" and "\<forall>(d, v) \<in> set mapVote. 0 \<le> v" and "sum_list (map snd mapVote) \<le> nMoneySupply"
    and "distinct mapBallot" and "set mapBallot \<subseteq> set mapWeight" and "nWeight = sum_list (map snd mapBallot)"
  shows "unat nWeight \<le> 50 \<and> 0 < work_weight (unat nWeight) + unat nWeight
    \<and> (GetDelegatedBallot nAgreement nWeight mapBallot \<noteq> [] \<longleftrightarrow>
         0 < nWeight \<and> work_weight (unat nWeight) * 256 div (work_weight (unat nWeight) + unat nWeight)
           \<le> unat (foldl bit_xor 0 (Save_uint nAgreement)))"
proof -
  have le: "unat nWeight \<le> sum_list (map (\<lambda>e. unat (snd e)) mapBallot)"
    using unat_sum_list_le [of "map snd mapBallot"] by (simp add: assms(7) comp_def)
  also have "\<dots> \<le> 50"
    using ballot_weight_bound [OF assms(5,6)] delegate_weights_bound [OF assms(1-4)] by simp
  finally have w: "unat nWeight \<le> 50" .
  show ?thesis by (intro conjI w work_weight_pos [OF w] ballot_drawn_iff [OF w le])
qed

text \<open>Two of three delegates are enrolled; the votes are 30 and 50 of a supply of 100, in units of 2.\<close>

theorem delegate_election_threshold_witness:
  "GetDelegatedBallot 0 40 [(dest_pubkey 1, 15), (dest_pubkey 2, 25)] \<noteq> []"
proof -
  have r: "RetrieveAvailDelegate (Some [(dest_pubkey 1, 30), (dest_pubkey 2, 50), (dest_pubkey 3, 20)])
      (Some [(dest_pubkey 1, 0), (dest_pubkey 2, 1)]) (\<lambda>_ :: nat. Some tx_null) (nDelegateWeightRatio 100) [] []
    = Some (True, [(dest_pubkey 1, 15), (dest_pubkey 2, 25)], [(dest_pubkey 1, []), (dest_pubkey 2, [])])"
    by (simp add: RetrieveAvailDelegate_def nDelegateWeightRatio_def signed_divide_int_def om_ins_def om_has_def
        dest_pubkey_def less_CDestination_def tx_null_def)
  have "work_weight 40 = 0" by (simp add: work_weight_def)
  then show ?thesis
    using delegate_election_threshold [OF r, of "[(dest_pubkey 1, 15), (dest_pubkey 2, 25)]" 40 0] by simp
qed

end
