(* ===== verification/TxPool.thy ===== *)
theory TxPool
  imports Core
begin

text \<open>
  The transaction pool (\<^verbatim>\<open>src/txpool.h\<close>, \<^verbatim>\<open>src/txpool.cpp\<close>).  A fork has a view: the pooled transactions by
  identifier, and for every output point the pool knows of, either the unspent output or the
  transaction that spends it.  The views of the program hold pointers into the pool's own map; here
  they hold the entry itself, and that the two always agree (no pointer dangles) is part of the
  invariant of the theory \<^verbatim>\<open>PoolInvariant\<close>.  The world line the pool asks for blocks and unspent
  outputs is a record of functions.
\<close>

section \<open>Pooled transactions and views\<close>

record CPooledTx =
  ptx_atx :: CAssembledTx
  ptx_nSequenceNumber :: nat
  ptx_nSerializeSize :: nat

definition ptx_of_atx :: "CAssembledTx \<Rightarrow> nat \<Rightarrow> CPooledTx" where
  "ptx_of_atx a n = \<lparr>ptx_atx = a, ptx_nSequenceNumber = n, ptx_nSerializeSize = Size_tx (atx_tx a)\<rparr>"

definition ptx_of_tx :: "CTransaction \<Rightarrow> int \<Rightarrow> nat \<Rightarrow> CDestination \<Rightarrow> int \<Rightarrow> CPooledTx" where
  "ptx_of_tx tx nBlockHeight n destIn nValueIn =
     ptx_of_atx \<lparr>atx_tx = tx, atx_destIn = destIn, atx_nValueIn = nValueIn, atx_nBlockHeight = nBlockHeight\<rparr> n"

abbreviation ptx_tx :: "CPooledTx \<Rightarrow> CTransaction" where "ptx_tx p \<equiv> atx_tx (ptx_atx p)"

abbreviation ptx_vInput :: "CPooledTx \<Rightarrow> CTxIn list" where "ptx_vInput p \<equiv> tx_vInput (ptx_tx p)"

record CSpent =
  spent_output :: CTxOutput
  spent_txidNextTx :: uint256

definition spent_of_output :: "CTxOutput \<Rightarrow> CSpent" where
  "spent_of_output u = \<lparr>spent_output = u, spent_txidNextTx = 0\<rparr>"

definition spent_by :: "uint256 \<Rightarrow> CSpent" where
  "spent_by txid = \<lparr>spent_output = out_null, spent_txidNextTx = txid\<rparr>"

definition spent_IsSpent :: "CSpent \<Rightarrow> bool" where
  "spent_IsSpent s \<longleftrightarrow> spent_txidNextTx s \<noteq> 0"

record CTxPoolView =
  view_mapTx :: "(uint256, CPooledTx) omap"
  view_mapSpent :: "(CTxOutPoint, CSpent) omap"

definition view_Clear :: CTxPoolView where
  "view_Clear = \<lparr>view_mapTx = [], view_mapSpent = []\<rparr>"

definition view_Count :: "CTxPoolView \<Rightarrow> nat" where
  "view_Count v = length (view_mapTx v)"

definition view_Exists :: "CTxPoolView \<Rightarrow> uint256 \<Rightarrow> bool" where
  "view_Exists v txid \<longleftrightarrow> om_has (view_mapTx v) txid"

definition view_Get :: "CTxPoolView \<Rightarrow> uint256 \<Rightarrow> CPooledTx option" where
  "view_Get v txid = om_get (view_mapTx v) txid"

definition view_IsSpent :: "CTxPoolView \<Rightarrow> CTxOutPoint \<Rightarrow> bool" where
  "view_IsSpent v out = (case om_get (view_mapSpent v) out of Some s \<Rightarrow> spent_IsSpent s | None \<Rightarrow> False)"

text \<open>The reference parameter of \<^verbatim>\<open>GetUnspent\<close> keeps its value when there is no unspent entry.\<close>

definition view_GetUnspent :: "CTxPoolView \<Rightarrow> CTxOutPoint \<Rightarrow> CTxOutput \<Rightarrow> bool \<times> CTxOutput" where
  "view_GetUnspent v out unspent =
     (case om_get (view_mapSpent v) out of
        Some s \<Rightarrow> if \<not> spent_IsSpent s then (\<not> out_IsNull (spent_output s), spent_output s) else (False, unspent)
      | None \<Rightarrow> (False, unspent))"

definition view_GetSpent :: "CTxPoolView \<Rightarrow> CTxOutPoint \<Rightarrow> uint256 \<Rightarrow> bool \<times> uint256" where
  "view_GetSpent v out txidNextTxRet =
     (case om_get (view_mapSpent v) out of
        Some s \<Rightarrow> (spent_IsSpent s, spent_txidNextTx s)
      | None \<Rightarrow> (False, txidNextTxRet))"

definition view_SetUnspent :: "CTxOutPoint \<Rightarrow> CTxPoolView \<Rightarrow> CTxPoolView" where
  "view_SetUnspent out v =
     (case view_Get v (op_hash out) of
        Some p \<Rightarrow> v\<lparr>view_mapSpent := om_set out (spent_of_output (GetOutput (ptx_atx p) (uint (op_n out)))) (view_mapSpent v)\<rparr>
      | None \<Rightarrow> v\<lparr>view_mapSpent := om_del out (view_mapSpent v)\<rparr>)"

definition view_SetSpent :: "CTxOutPoint \<Rightarrow> uint256 \<Rightarrow> CTxPoolView \<Rightarrow> CTxPoolView" where
  "view_SetSpent out txidNextTx v = v\<lparr>view_mapSpent := om_set out (spent_by txidNextTx) (view_mapSpent v)\<rparr>"

text \<open>An output enters the map only if it is not null.\<close>

definition add_output :: "uint256 \<Rightarrow> CPooledTx \<Rightarrow> uint8 \<Rightarrow> CTxPoolView \<Rightarrow> CTxPoolView" where
  "add_output txid p n v =
     (let output = GetOutput (ptx_atx p) (uint n)
      in if out_IsNull output then v
         else v\<lparr>view_mapSpent := om_set (CTxOutPoint txid n) (spent_of_output output) (view_mapSpent v)\<rparr>)"

definition view_AddNew :: "uint256 \<Rightarrow> CPooledTx \<Rightarrow> CTxPoolView \<Rightarrow> CTxPoolView" where
  "view_AddNew txid p v =
     (let v = v\<lparr>view_mapTx := om_set txid p (view_mapTx v)\<rparr>;
          v = fold (\<lambda>i. view_SetSpent i txid) (ptx_vInput p) v
      in add_output txid p 1 (add_output txid p 0 v))"

definition view_Remove :: "uint256 \<Rightarrow> CTxPoolView \<Rightarrow> CTxPoolView" where
  "view_Remove txid v =
     (case view_Get v txid of
        Some p \<Rightarrow> (fold view_SetUnspent (ptx_vInput p) v)\<lparr>view_mapTx := om_del txid (view_mapTx v)\<rparr>
      | None \<Rightarrow> v)"

text \<open>\<^verbatim>\<open>InvalidateSpent\<close> works through a growing list of output points.  The output points of a
  transaction that is dropped are followed if they are spent, and forgotten otherwise.\<close>

definition drop_output :: "CTxOutPoint \<Rightarrow> CTxPoolView \<times> CTxOutPoint list \<Rightarrow> CTxPoolView \<times> CTxOutPoint list" where
  "drop_output out = (\<lambda>(v, vOutPoint).
     if view_IsSpent v out then (v, vOutPoint @ [out])
     else (v\<lparr>view_mapSpent := om_del out (view_mapSpent v)\<rparr>, vOutPoint))"

definition drop_tx :: "uint256 \<Rightarrow> CPooledTx \<Rightarrow> CTxPoolView \<Rightarrow> CTxOutPoint list \<Rightarrow> CTxPoolView \<times> CTxOutPoint list" where
  "drop_tx txid p v vOutPoint =
     (let (v, vOutPoint) = drop_output (CTxOutPoint txid 1) (drop_output (CTxOutPoint txid 0)
            (fold view_SetUnspent (ptx_vInput p) v, vOutPoint))
      in (v\<lparr>view_mapTx := om_del txid (view_mapTx v)\<rparr>, vOutPoint))"

lemma view_SetUnspent_mapTx [simp]: "view_mapTx (view_SetUnspent out v) = view_mapTx v"
  by (simp add: view_SetUnspent_def split: option.splits)

lemma fold_SetUnspent_mapTx [simp]: "view_mapTx (fold view_SetUnspent outs v) = view_mapTx v"
  by (induction outs arbitrary: v) simp_all

lemma drop_output_mapTx [simp]: "view_mapTx (fst (drop_output out (v, w))) = view_mapTx v"
  by (simp add: drop_output_def)

lemma drop_output_length: "length (snd (drop_output out (v, w))) \<le> Suc (length w)"
  by (simp add: drop_output_def)

lemma drop_tx_mapTx: "view_mapTx (fst (drop_tx txid p v w)) = om_del txid (view_mapTx v)"
  by (simp add: drop_tx_def drop_output_def split_def)

lemma drop_tx_length: "length (snd (drop_tx txid p v w)) \<le> length w + 2"
  by (simp add: drop_tx_def drop_output_def split_def)

lemma om_del_shorter: "om_get m k \<noteq> None \<Longrightarrow> length (om_del k m) < length m"
  unfolding om_del_def map_of_eq_None_iff
  by (auto intro!: length_filter_less simp: image_iff)

lemma drop_tx_measure:
  "drop_tx txid p v w = (v', w') \<Longrightarrow> view_Get v txid = Some p \<Longrightarrow>
     3 * length (view_mapTx v') + length w' < Suc (3 * length (view_mapTx v) + length w)"
  using drop_tx_mapTx [of txid p v w] drop_tx_length [of txid p v w] om_del_shorter [of "view_mapTx v" txid]
  by (simp add: view_Get_def)

function invalidate_loop :: "CTxPoolView \<Rightarrow> CTxOutPoint list \<Rightarrow> uint256 list \<Rightarrow> CTxPoolView \<times> uint256 list" where
  "invalidate_loop v [] vInvolvedTx = (v, vInvolvedTx)"
| "invalidate_loop v (out # outs) vInvolvedTx =
     (case view_GetSpent v out 0 of (fSpent, txidNextTx) \<Rightarrow>
        if fSpent then
          (case view_Get v txidNextTx of
             Some p \<Rightarrow>
               (case drop_tx txidNextTx p v outs of (v', outs') \<Rightarrow>
                  invalidate_loop v' outs' (vInvolvedTx @ [txidNextTx]))
           | None \<Rightarrow> invalidate_loop v outs vInvolvedTx)
        else invalidate_loop v outs vInvolvedTx)"
  by pat_completeness auto
termination
  by (relation "measure (\<lambda>(v, outs, _). 3 * length (view_mapTx v) + length outs)")
    (auto dest: drop_tx_measure [OF sym])

definition InvalidateSpent :: "CTxOutPoint \<Rightarrow> CTxPoolView \<times> uint256 list \<Rightarrow> CTxPoolView \<times> uint256 list" where
  "InvalidateSpent out = (\<lambda>(v, vInvolvedTx). invalidate_loop v [out] vInvolvedTx)"

text \<open>Transactions by sequence number.  \<^verbatim>\<open>map::insert\<close> keeps the first entry of a number.\<close>

definition by_sequence :: "(uint256 \<times> CPooledTx \<Rightarrow> bool) \<Rightarrow> CTxPoolView \<Rightarrow> (nat, uint256 \<times> CPooledTx) omap" where
  "by_sequence P v = fold (\<lambda>e. om_ins (ptx_nSequenceNumber (snd e)) e) (filter P (view_mapTx v)) []"

definition GetSortedTx :: "CTxPoolView \<Rightarrow> (nat, uint256 \<times> CPooledTx) omap" where
  "GetSortedTx v = by_sequence (\<lambda>_. True) v"

definition GetInvolvedTx :: "CTxPoolView \<Rightarrow> CDestination set \<Rightarrow> (nat, uint256 \<times> CPooledTx) omap" where
  "GetInvolvedTx v setDest =
     by_sequence (\<lambda>(_, p). tx_sendTo (ptx_tx p) \<in> setDest \<or> atx_destIn (ptx_atx p) \<in> setDest) v"

fun arrange_loop :: "nat \<Rightarrow> (nat, uint256 \<times> CPooledTx) omap \<Rightarrow> nat \<Rightarrow> CTransaction list \<Rightarrow> int \<Rightarrow> CTransaction list \<times> int" where
  "arrange_loop nMaxSize [] nTotalSize vtx nTotalTxFee = (vtx, nTotalTxFee)"
| "arrange_loop nMaxSize ((_, _, p) # es) nTotalSize vtx nTotalTxFee =
     (if nTotalSize + ptx_nSerializeSize p > nMaxSize then (vtx, nTotalTxFee)
      else arrange_loop nMaxSize es (nTotalSize + ptx_nSerializeSize p) (vtx @ [ptx_tx p])
             (nTotalTxFee + tx_nTxFee (ptx_tx p)))"

definition ArrangeBlockTx :: "CTxPoolView \<Rightarrow> int \<Rightarrow> nat \<Rightarrow> CTransaction list \<times> int" where
  "ArrangeBlockTx v nBlockTime nMaxSize =
     arrange_loop nMaxSize (by_sequence (\<lambda>(_, p). uint (tx_nTimeStamp (ptx_tx p)) \<le> nBlockTime) v) 0 [] 0"

section \<open>The pool\<close>

record CTxPool =
  pool_mapPoolView :: "(uint256, CTxPoolView) omap"
  pool_mapTx :: "(uint256, CPooledTx) omap"
  pool_nLastSequenceNumber :: nat

definition pool_Clear :: "CTxPool \<Rightarrow> CTxPool" where
  "pool_Clear pool = pool\<lparr>pool_mapPoolView := [], pool_mapTx := []\<rparr>"

definition pool_Exists :: "CTxPool \<Rightarrow> uint256 \<Rightarrow> bool" where
  "pool_Exists pool txid \<longleftrightarrow> om_has (pool_mapTx pool) txid"

definition pool_Count :: "CTxPool \<Rightarrow> uint256 \<Rightarrow> nat" where
  "pool_Count pool fork = (case om_get (pool_mapPoolView pool) fork of Some v \<Rightarrow> view_Count v | None \<Rightarrow> 0)"

definition pool_Get :: "CTxPool \<Rightarrow> uint256 \<Rightarrow> CTransaction option" where
  "pool_Get pool txid = map_option ptx_tx (om_get (pool_mapTx pool) txid)"

text \<open>\<^verbatim>\<open>mapPoolView[hashFork]\<close> creates an empty view for a fork that has none.\<close>

definition pool_view :: "CTxPool \<Rightarrow> uint256 \<Rightarrow> CTxPoolView" where
  "pool_view pool hashFork = (case om_get (pool_mapPoolView pool) hashFork of Some v \<Rightarrow> v | None \<Rightarrow> view_Clear)"

definition set_view :: "uint256 \<Rightarrow> CTxPoolView \<Rightarrow> CTxPool \<Rightarrow> CTxPool" where
  "set_view hashFork v pool = pool\<lparr>pool_mapPoolView := om_set hashFork v (pool_mapPoolView pool)\<rparr>"

definition GetSequenceNumber :: "CTxPool \<Rightarrow> nat \<times> CTxPool" where
  "GetSequenceNumber pool =
     (let n = Suc (if pool_mapTx pool = [] then 0 else pool_nLastSequenceNumber pool)
      in (n, pool\<lparr>pool_nLastSequenceNumber := n\<rparr>))"

text \<open>The world line: where a block is, and the unspent outputs of a fork (\<^const>\<open>None\<close> for a fork that
  does not exist).  \<^verbatim>\<open>CWorldLine::GetTxUnspent\<close> looks up the outputs the pool left open.\<close>

record world_line =
  wl_GetBlockLocation :: "uint256 \<Rightarrow> (uint256 \<times> int) option"
  wl_unspent :: "uint256 \<Rightarrow> (CTxOutPoint \<Rightarrow> CTxOutput option) option"

definition GetTxUnspent :: "world_line \<Rightarrow> uint256 \<Rightarrow> CTxIn list \<Rightarrow> CTxOutput list \<Rightarrow> CTxOutput list option" where
  "GetTxUnspent wl hashFork vInput vOutput =
     (case wl_unspent wl hashFork of
        None \<Rightarrow> None
      | Some db \<Rightarrow> Some (map2 (\<lambda>i u. if out_IsNull u then (case db i of Some u' \<Rightarrow> u' | None \<Rightarrow> u) else u) vInput vOutput))"

text \<open>The outputs a transaction spends, as far as the view knows them; \<^const>\<open>None\<close> when one is spent.\<close>

fun view_outputs :: "CTxPoolView \<Rightarrow> CTxIn list \<Rightarrow> CTxOutput list option" where
  "view_outputs v [] = Some []"
| "view_outputs v (i # is) =
     (if view_IsSpent v i then None
      else map_option (\<lambda>us. snd (view_GetUnspent v i out_null) # us) (view_outputs v is))"

text \<open>\<^verbatim>\<open>AddNew\<close>.  \<^const>\<open>None\<close> is the undefined behaviour of \<^verbatim>\<open>vPrevOutput[0]\<close> on a transaction without inputs.\<close>

definition pool_AddNew ::
  "crypto_env \<Rightarrow> world_line \<Rightarrow> uint256 \<Rightarrow> uint256 \<Rightarrow> CTransaction \<Rightarrow> int \<Rightarrow> CTxPool \<Rightarrow> (MvErr \<times> CTxPool) option" where
  "pool_AddNew env wl hashFork txid tx nForkHeight pool =
     (case view_outputs (pool_view pool hashFork) (tx_vInput tx) of
        None \<Rightarrow> Some (MV_ERR_TRANSACTION_CONFLICTING_INPUT, pool)
      | Some us \<Rightarrow>
     (case GetTxUnspent wl hashFork (tx_vInput tx) us of
        None \<Rightarrow> Some (MV_ERR_SYS_STORAGE_ERROR, pool)
      | Some vPrevOutput \<Rightarrow>
     (if list_ex out_IsNull vPrevOutput then Some (MV_ERR_TRANSACTION_CONFLICTING_INPUT, pool)
      else case VerifyTransaction env tx vPrevOutput nForkHeight of
        None \<Rightarrow> None
      | Some err \<Rightarrow>
          if err \<noteq> MV_OK then Some (err, pool)
          else let (n, pool) = GetSequenceNumber pool;
                   p = ptx_of_tx tx (- 1) n (out_destTo (hd vPrevOutput)) (sum_list (map out_nAmount vPrevOutput));
                   pool = pool\<lparr>pool_mapTx := om_ins txid p (pool_mapTx pool)\<rparr>;
                   p' = (case om_get (pool_mapTx pool) txid of Some q \<Rightarrow> q | None \<Rightarrow> p)
               in Some (MV_OK, set_view hashFork (view_AddNew txid p' (pool_view pool hashFork)) pool))))"

text \<open>\<^verbatim>\<open>Push\<close> returns the fork, the sender and the value of the inputs through reference parameters.\<close>

definition pool_Push ::
  "crypto_env \<Rightarrow> world_line \<Rightarrow> CTransaction \<Rightarrow> uint256 \<times> CDestination \<times> int \<Rightarrow> CTxPool \<Rightarrow>
     (MvErr \<times> (uint256 \<times> CDestination \<times> int) \<times> CTxPool) option" where
  "pool_Push env wl tx ret pool =
     (let txid = tx_GetHash env tx
      in if om_has (pool_mapTx pool) txid then Some (MV_ERR_ALREADY_HAVE, ret, pool)
         else if IsMintTx tx then Some (MV_ERR_TRANSACTION_INVALID, ret, pool)
         else case wl_GetBlockLocation wl (tx_hashAnchor tx) of
             None \<Rightarrow> Some (MV_ERR_TRANSACTION_INVALID, ret, pool)
           | Some (hashFork, nHeight) \<Rightarrow>
               (case pool_AddNew env wl hashFork txid tx nHeight (set_view hashFork (pool_view pool hashFork) pool) of
                  None \<Rightarrow> None
                | Some (err, pool') \<Rightarrow>
                    if err \<noteq> MV_OK then Some (err, (hashFork, snd ret), pool')
                    else (case view_Get (pool_view pool' hashFork) txid of
                        None \<Rightarrow> Some (MV_ERR_NOT_FOUND, (hashFork, snd ret), pool')
                      | Some p \<Rightarrow> Some (err, (hashFork, atx_destIn (ptx_atx p), atx_nValueIn (ptx_atx p)), pool'))))"

definition pool_Pop :: "world_line \<Rightarrow> uint256 \<Rightarrow> CTxPool \<Rightarrow> CTxPool" where
  "pool_Pop wl txid pool =
     (case om_get (pool_mapTx pool) txid of
        None \<Rightarrow> pool
      | Some p \<Rightarrow>
          (case wl_GetBlockLocation wl (tx_hashAnchor (ptx_tx p)) of
             None \<Rightarrow> pool
           | Some (hashFork, nHeight) \<Rightarrow>
               let (v, vInvalidTx) = InvalidateSpent (CTxOutPoint txid 1) (InvalidateSpent (CTxOutPoint txid 0)
                     (view_Remove txid (pool_view pool hashFork), []))
               in set_view hashFork v (pool\<lparr>pool_mapTx := fold om_del vInvalidTx (pool_mapTx pool)\<rparr>)))"

definition pool_ListTx :: "CTxPool \<Rightarrow> uint256 \<Rightarrow> (uint256 \<times> nat) list" where
  "pool_ListTx pool hashFork =
     (case om_get (pool_mapPoolView pool) hashFork of
        Some v \<Rightarrow> map (\<lambda>(_, txid, p). (txid, ptx_nSerializeSize p)) (GetSortedTx v)
      | None \<Rightarrow> [])"

text \<open>\<^verbatim>\<open>FilterTx\<close> hands the transactions of some addresses to a callback until it refuses one.\<close>

fun filter_loop :: "(CAssembledTx \<Rightarrow> 's \<Rightarrow> bool \<times> 's) \<Rightarrow> CAssembledTx list \<Rightarrow> 's \<Rightarrow> bool \<times> 's" where
  "filter_loop FoundTx [] s = (True, s)"
| "filter_loop FoundTx (a # as) s = (case FoundTx a s of (ok, s') \<Rightarrow> if ok then filter_loop FoundTx as s' else (False, s'))"

definition pool_FilterTx ::
  "(uint256 \<Rightarrow> CAssembledTx \<Rightarrow> 's \<Rightarrow> bool \<times> 's) \<Rightarrow> CDestination set \<Rightarrow> CTxPool \<Rightarrow> uint256 \<Rightarrow> 's \<Rightarrow> bool \<times> 's" where
  "pool_FilterTx FoundTx setDest pool hashFork s =
     (case om_get (pool_mapPoolView pool) hashFork of
        None \<Rightarrow> (True, s)
      | Some v \<Rightarrow> filter_loop (FoundTx hashFork) (map (\<lambda>(_, _, p). ptx_atx p) (GetInvolvedTx v setDest)) s)"

definition pool_ArrangeBlockTx :: "CTxPool \<Rightarrow> uint256 \<Rightarrow> int \<Rightarrow> nat \<Rightarrow> (CTransaction list \<times> int) \<times> CTxPool" where
  "pool_ArrangeBlockTx pool hashFork nBlockTime nMaxSize =
     (ArrangeBlockTx (pool_view pool hashFork) nBlockTime nMaxSize, set_view hashFork (pool_view pool hashFork) pool)"

fun same_dest :: "CTxOutput list \<Rightarrow> CDestination \<Rightarrow> bool" where
  "same_dest [] destIn = True"
| "same_dest (u # us) destIn =
     (if out_IsNull u then False
      else if dest_IsNull destIn then same_dest us (out_destTo u)
      else if destIn \<noteq> out_destTo u then False
      else same_dest us destIn)"

definition pool_FetchInputs ::
  "world_line \<Rightarrow> uint256 \<Rightarrow> CTransaction \<Rightarrow> CTxPool \<Rightarrow> CTxOutput list option \<times> CTxPool" where
  "pool_FetchInputs wl hashFork tx pool =
     ((case view_outputs (pool_view pool hashFork) (tx_vInput tx) of
         None \<Rightarrow> None
       | Some us \<Rightarrow>
           (case GetTxUnspent wl hashFork (tx_vInput tx) us of
              None \<Rightarrow> None
            | Some vUnspent \<Rightarrow> if same_dest vUnspent dest_null then Some vUnspent else None)),
      set_view hashFork (pool_view pool hashFork) pool)"

section \<open>Following the chain\<close>

record CWorldLineUpdate =
  upd_hashFork :: uint256
  upd_nLastBlockHeight :: int
  upd_setTxUpdate :: "uint256 set"
  upd_vBlockAddNew :: "CBlockEx list"
  upd_vBlockRemove :: "CBlockEx list"

record CTxSetChange =
  chg_hashFork :: uint256
  chg_mapTxUpdate :: "(uint256, int) omap"
  chg_vTxAddNew :: "CAssembledTx list"
  chg_vTxRemove :: "(uint256 \<times> CTxIn list) list"

text \<open>The variables of \<^verbatim>\<open>SynchronizeWorldLine\<close>: the pool, the view of the fork, the change to report, the
  transactions to forget, and those removed with the blocks.\<close>

record sync_state =
  sy_pool :: CTxPool
  sy_change :: CTxSetChange
  sy_vInvalidTx :: "uint256 list"
  sy_vTxRemove :: "(uint256 \<times> CTxIn list) list"

definition sync_view :: "uint256 \<Rightarrow> (CTxPoolView \<times> uint256 list \<Rightarrow> CTxPoolView \<times> uint256 list) \<Rightarrow> sync_state \<Rightarrow> sync_state" where
  "sync_view f op st =
     (let (v, inv) = op (pool_view (sy_pool st) f, sy_vInvalidTx st)
      in st\<lparr>sy_pool := set_view f v (sy_pool st), sy_vInvalidTx := inv\<rparr>)"

definition note_update :: "uint256 \<Rightarrow> int \<Rightarrow> sync_state \<Rightarrow> sync_state" where
  "note_update txid nHeight st =
     st\<lparr>sy_change := (sy_change st)\<lparr>chg_mapTxUpdate := om_ins txid nHeight (chg_mapTxUpdate (sy_change st))\<rparr>\<rparr>"

definition note_new :: "CAssembledTx \<Rightarrow> sync_state \<Rightarrow> sync_state" where
  "note_new a st = st\<lparr>sy_change := (sy_change st)\<lparr>chg_vTxAddNew := chg_vTxAddNew (sy_change st) @ [a]\<rparr>\<rparr>"

text \<open>A transaction of a new block.\<close>

definition sync_add_tx ::
  "crypto_env \<Rightarrow> CWorldLineUpdate \<Rightarrow> int \<Rightarrow> CTransaction \<times> CTxContxt \<Rightarrow> sync_state \<Rightarrow> sync_state" where
  "sync_add_tx env upd nHeight = (\<lambda>(tx, txContxt) st.
     (let f = upd_hashFork upd; txid = tx_GetHash env tx
      in if txid \<in> upd_setTxUpdate upd then note_update txid nHeight st
         else if view_Exists (pool_view (sy_pool st) f) txid then
           (let st = sync_view f (\<lambda>(v, inv). (view_Remove txid v, inv)) st;
                st = st\<lparr>sy_pool := (sy_pool st)\<lparr>pool_mapTx := om_del txid (pool_mapTx (sy_pool st))\<rparr>\<rparr>
            in note_update txid nHeight st)
         else note_new \<lparr>atx_tx = tx, atx_destIn = ctx_destIn txContxt, atx_nValueIn = GetValueIn txContxt,
                         atx_nBlockHeight = nHeight\<rparr>
                (sync_view f (fold InvalidateSpent (tx_vInput tx)) st)))"

text \<open>A new block.  The contexts of a stored block are as many as its transactions; reading past them
  would be undefined (\<^const>\<open>None\<close>).\<close>

definition sync_add_block ::
  "crypto_env \<Rightarrow> CWorldLineUpdate \<Rightarrow> CBlockEx \<Rightarrow> int \<times> sync_state \<Rightarrow> (int \<times> sync_state) option" where
  "sync_add_block env upd b = (\<lambda>(nHeight, st).
     (let blk = bex_block b; txMint = blk_txMint blk
      in if length (bex_vTxContxt b) < length (blk_vtx blk) then None
         else let st = (if tx_nAmount txMint \<noteq> 0
                        then note_new \<lparr>atx_tx = txMint, atx_destIn = dest_null, atx_nValueIn = 0, atx_nBlockHeight = nHeight\<rparr> st
                        else st)
              in Some (nHeight + 1, fold (sync_add_tx env upd nHeight) (zip (blk_vtx blk) (bex_vTxContxt b)) st)))"

text \<open>A transaction of a block that was rolled back returns to the pool if it is still valid.  The
  spender of its first output is written to both outputs.\<close>

definition sync_remove_tx ::
  "crypto_env \<Rightarrow> world_line \<Rightarrow> CWorldLineUpdate \<Rightarrow> CTransaction \<Rightarrow> sync_state \<Rightarrow> sync_state option" where
  "sync_remove_tx env wl upd tx st =
     (let f = upd_hashFork upd; txid = tx_GetHash env tx; v = pool_view (sy_pool st) f;
          out0 = CTxOutPoint txid 0; out1 = CTxOutPoint txid 1
      in if txid \<in> upd_setTxUpdate upd then Some st
         else let spent0 = snd (view_GetSpent v out0 0); spent1 = snd (view_GetSpent v out1 0)
              in case pool_AddNew env wl f txid tx (upd_nLastBlockHeight upd) (sy_pool st) of
                   None \<Rightarrow> None
                 | Some (err, pool) \<Rightarrow>
                     let st = st\<lparr>sy_pool := pool\<rparr>
                     in if err = MV_OK then
                          Some (note_update txid (- 1) (sync_view f (\<lambda>(v, inv).
                            (let v = (if spent0 \<noteq> 0 then view_SetSpent out0 spent0 v else v);
                                 v = (if spent1 \<noteq> 0 then view_SetSpent out1 spent0 v else v)
                             in (v, inv))) st))
                        else
                          Some ((sync_view f (InvalidateSpent out1 \<circ> InvalidateSpent out0) st)
                            \<lparr>sy_vTxRemove := sy_vTxRemove st @ [(txid, tx_vInput tx)]\<rparr>))"

fun ofold :: "('a \<Rightarrow> 's \<Rightarrow> 's option) \<Rightarrow> 'a list \<Rightarrow> 's \<Rightarrow> 's option" where
  "ofold f [] s = Some s"
| "ofold f (x # xs) s = (case f x s of None \<Rightarrow> None | Some s' \<Rightarrow> ofold f xs s')"

definition sync_remove_block ::
  "crypto_env \<Rightarrow> world_line \<Rightarrow> CWorldLineUpdate \<Rightarrow> CBlockEx \<Rightarrow> sync_state \<Rightarrow> sync_state option" where
  "sync_remove_block env wl upd b st =
     (let blk = bex_block b; txMint = blk_txMint blk
      in case ofold (sync_remove_tx env wl upd) (rev (blk_vtx blk)) st of
           None \<Rightarrow> None
         | Some st \<Rightarrow>
             if tx_nAmount txMint \<noteq> 0 then
               (let txidMint = tx_GetHash env txMint
                in Some ((sync_view (upd_hashFork upd) (InvalidateSpent (CTxOutPoint txidMint 0)) st)
                     \<lparr>sy_vTxRemove := sy_vTxRemove st @ [(txidMint, tx_vInput txMint)]\<rparr>))
             else Some st)"

text \<open>The transactions that became invalid leave the pool, the last one first.\<close>

definition forget_tx :: "uint256 \<Rightarrow> CTxPool \<times> (uint256 \<times> CTxIn list) list \<Rightarrow> CTxPool \<times> (uint256 \<times> CTxIn list) list" where
  "forget_tx txid = (\<lambda>(pool, vTxRemove).
     (case om_get (pool_mapTx pool) txid of
        Some p \<Rightarrow> (pool\<lparr>pool_mapTx := om_del txid (pool_mapTx pool)\<rparr>, vTxRemove @ [(txid, ptx_vInput p)])
      | None \<Rightarrow> (pool, vTxRemove)))"

definition SynchronizeWorldLine ::
  "crypto_env \<Rightarrow> world_line \<Rightarrow> CWorldLineUpdate \<Rightarrow> CTxPool \<Rightarrow> (CTxSetChange \<times> CTxPool) option" where
  "SynchronizeWorldLine env wl upd pool =
     (let f = upd_hashFork upd;
          st = \<lparr>sy_pool = set_view f (pool_view pool f) pool,
                sy_change = \<lparr>chg_hashFork = f, chg_mapTxUpdate = [], chg_vTxAddNew = [], chg_vTxRemove = []\<rparr>,
                sy_vInvalidTx = [], sy_vTxRemove = []\<rparr>;
          nHeight = upd_nLastBlockHeight upd - int (length (upd_vBlockAddNew upd)) + 1
      in case ofold (sync_add_block env upd) (rev (upd_vBlockAddNew upd)) (nHeight, st) of
           None \<Rightarrow> None
         | Some (_, st) \<Rightarrow>
             (case ofold (sync_remove_block env wl upd) (upd_vBlockRemove upd) st of
                None \<Rightarrow> None
              | Some st \<Rightarrow>
                  let (pool, vTxRemove) = fold forget_tx (rev (sy_vInvalidTx st)) (sy_pool st, [])
                  in Some ((sy_change st)\<lparr>chg_vTxRemove := vTxRemove @ sy_vTxRemove st\<rparr>, pool)))"

section \<open>Saving and loading\<close>

definition pool_load_tx :: "uint256 \<times> uint256 \<times> CAssembledTx \<Rightarrow> CTxPool \<Rightarrow> CTxPool" where
  "pool_load_tx = (\<lambda>(hashFork, txid, a) pool.
     (let (n, pool) = GetSequenceNumber pool;
          pool = pool\<lparr>pool_mapTx := om_ins txid (ptx_of_atx a n) (pool_mapTx pool)\<rparr>;
          p = (case om_get (pool_mapTx pool) txid of Some q \<Rightarrow> q | None \<Rightarrow> ptx_of_atx a n)
      in set_view hashFork (view_AddNew txid p (pool_view pool hashFork)) pool))"

definition pool_LoadData :: "(uint256 \<times> uint256 \<times> CAssembledTx) list \<Rightarrow> CTxPool \<Rightarrow> CTxPool" where
  "pool_LoadData vTx pool = fold pool_load_tx vTx pool"

definition pool_SaveData :: "CTxPool \<Rightarrow> (uint256 \<times> uint256 \<times> CAssembledTx) list" where
  "pool_SaveData pool =
     map snd (fold (\<lambda>(f, v). fold (\<lambda>(txid, p). om_set (ptx_nSequenceNumber p) (f, txid, ptx_atx p)) (view_mapTx v))
       (pool_mapPoolView pool) [])"

end
