(* ===== verification/PoolInvariant.thy ===== *)
theory PoolInvariant
  imports TxPool
begin

text \<open>
  What the transaction pool keeps: no output is spent twice in a view, every spender is recorded, a
  view holds only entries of the pool, and sequence numbers follow the dependencies between
  transactions.  Shown are that the invariant is kept while new transactions are pushed, others are popped,
  fetched and arranged, and the chain only grows, exactly which transactions \<^verbatim>\<open>InvalidateSpent\<close> removes, what
  \<^verbatim>\<open>ArrangeBlockTx\<close> selects, and two ways in which the records go wrong: when a block is rolled back, and when an output of a confirmed transaction is
  spent by a block.
\<close>

section \<open>The invariant of a view\<close>

abbreviation mtx :: "CTxPoolView \<Rightarrow> uint256 \<Rightarrow> CPooledTx option" where
  "mtx v \<equiv> om_get (view_mapTx v)"

abbreviation msp :: "CTxPoolView \<Rightarrow> CTxOutPoint \<Rightarrow> CSpent option" where
  "msp v \<equiv> om_get (view_mapSpent v)"

text \<open>Every input of a pooled transaction is marked as spent by it; a spent mark names a pooled
  transaction that has the output point among its inputs; and an unspent entry of a pooled
  transaction is that transaction's output.\<close>

definition view_inv :: "CTxPoolView \<Rightarrow> bool" where
  "view_inv v \<longleftrightarrow> om_wf (view_mapTx v) \<and> om_wf (view_mapSpent v)
     \<and> (\<forall>(t, p) \<in> set (view_mapTx v). t \<noteq> 0 \<and>
          (\<forall>i \<in> set (ptx_vInput p). map_option spent_txidNextTx (msp v i) = Some t))
     \<and> (\<forall>(out, s) \<in> set (view_mapSpent v).
          if spent_IsSpent s
          then (case mtx v (spent_txidNextTx s) of Some p \<Rightarrow> out \<in> set (ptx_vInput p) | None \<Rightarrow> False)
          else (case mtx v (op_hash out) of
                  Some p \<Rightarrow> spent_output s = GetOutput (ptx_atx p) (uint (op_n out)) | None \<Rightarrow> True))"

lemma om_ball_iff: "om_wf m \<Longrightarrow> (\<forall>(k, x) \<in> set m. P k x) \<longleftrightarrow> (\<forall>k x. om_get m k = Some x \<longrightarrow> P k x)"
  by (auto simp: om_wf_mem)

lemma case_option_any:
  "(case x of Some p \<Rightarrow> P p | None \<Rightarrow> False) \<longleftrightarrow> (\<exists>p. x = Some p \<and> P p)"
  "(case x of Some p \<Rightarrow> P p | None \<Rightarrow> True) \<longleftrightarrow> (\<forall>p. x = Some p \<longrightarrow> P p)"
  by (auto split: option.splits)

lemma view_inv_iff:
  "view_inv v \<longleftrightarrow> om_wf (view_mapTx v) \<and> om_wf (view_mapSpent v)
     \<and> (\<forall>t p. mtx v t = Some p \<longrightarrow> t \<noteq> 0)
     \<and> (\<forall>t p i. mtx v t = Some p \<longrightarrow> i \<in> set (ptx_vInput p) \<longrightarrow>
          (\<exists>s. msp v i = Some s \<and> spent_txidNextTx s = t))
     \<and> (\<forall>out s. msp v out = Some s \<longrightarrow> spent_IsSpent s \<longrightarrow>
          (\<exists>p. mtx v (spent_txidNextTx s) = Some p \<and> out \<in> set (ptx_vInput p)))
     \<and> (\<forall>out s p. msp v out = Some s \<longrightarrow> \<not> spent_IsSpent s \<longrightarrow> mtx v (op_hash out) = Some p \<longrightarrow>
          spent_output s = GetOutput (ptx_atx p) (uint (op_n out)))"
proof (cases "om_wf (view_mapTx v) \<and> om_wf (view_mapSpent v)")
  case True
  have marked: "(\<forall>(t, p) \<in> set (view_mapTx v). t \<noteq> 0 \<and>
      (\<forall>i \<in> set (ptx_vInput p). map_option spent_txidNextTx (msp v i) = Some t)) \<longleftrightarrow>
      (\<forall>t p. mtx v t = Some p \<longrightarrow> t \<noteq> 0) \<and> (\<forall>t p i. mtx v t = Some p \<longrightarrow> i \<in> set (ptx_vInput p) \<longrightarrow>
          (\<exists>s. msp v i = Some s \<and> spent_txidNextTx s = t))"
    unfolding om_ball_iff [OF conjunct1 [OF True]] map_option_eq_Some by blast
  have entries: "(\<forall>(out, s) \<in> set (view_mapSpent v). if spent_IsSpent s
      then (case mtx v (spent_txidNextTx s) of Some p \<Rightarrow> out \<in> set (ptx_vInput p) | None \<Rightarrow> False)
      else (case mtx v (op_hash out) of
              Some p \<Rightarrow> spent_output s = GetOutput (ptx_atx p) (uint (op_n out)) | None \<Rightarrow> True)) \<longleftrightarrow>
      (\<forall>out s. msp v out = Some s \<longrightarrow> spent_IsSpent s \<longrightarrow>
          (\<exists>p. mtx v (spent_txidNextTx s) = Some p \<and> out \<in> set (ptx_vInput p)))
      \<and> (\<forall>out s p. msp v out = Some s \<longrightarrow> \<not> spent_IsSpent s \<longrightarrow> mtx v (op_hash out) = Some p \<longrightarrow>
          spent_output s = GetOutput (ptx_atx p) (uint (op_n out)))"
    unfolding om_ball_iff [OF conjunct2 [OF True]] case_option_any by auto
  show ?thesis unfolding view_inv_def marked entries by blast
next
  case False
  then show ?thesis unfolding view_inv_def by blast
qed

lemma view_invD:
  assumes "view_inv v"
  shows view_inv_wfT: "om_wf (view_mapTx v)" and view_inv_wfS: "om_wf (view_mapSpent v)"
    and view_inv_nz: "mtx v t = Some p \<Longrightarrow> t \<noteq> 0"
    and view_inv_marked: "mtx v t = Some p \<Longrightarrow> i \<in> set (ptx_vInput p) \<Longrightarrow> \<exists>s. msp v i = Some s \<and> spent_txidNextTx s = t"
    and view_inv_spender: "msp v out = Some s \<Longrightarrow> spent_IsSpent s \<Longrightarrow>
      \<exists>p. mtx v (spent_txidNextTx s) = Some p \<and> out \<in> set (ptx_vInput p)"
    and view_inv_output: "msp v out = Some s \<Longrightarrow> \<not> spent_IsSpent s \<Longrightarrow> mtx v (op_hash out) = Some p \<Longrightarrow>
      spent_output s = GetOutput (ptx_atx p) (uint (op_n out))"
  using assms unfolding view_inv_iff by blast+

lemma view_IsSpent_iff: "view_IsSpent v out \<longleftrightarrow> (\<exists>s. msp v out = Some s \<and> spent_IsSpent s)"
  by (simp add: view_IsSpent_def split: option.splits)

lemma view_inv_input_spent:
  "view_inv v \<Longrightarrow> mtx v t = Some p \<Longrightarrow> i \<in> set (ptx_vInput p) \<Longrightarrow> view_IsSpent v i"
  using view_inv_marked [of v t p i] view_inv_nz [of v t p] unfolding view_IsSpent_iff spent_IsSpent_def by auto

lemma view_inv_single_spender:
  "view_inv v \<Longrightarrow> mtx v t = Some p \<Longrightarrow> mtx v t' = Some p' \<Longrightarrow> i \<in> set (ptx_vInput p) \<Longrightarrow>
     i \<in> set (ptx_vInput p') \<Longrightarrow> t = t'"
  using view_inv_marked [of v t p i] view_inv_marked [of v t' p' i] by auto

lemma view_inv_Clear [simp]: "view_inv view_Clear"
  by (simp add: view_inv_def view_Clear_def)

lemma spent_simps [simp]:
  "\<not> spent_IsSpent (spent_of_output u)" "spent_output (spent_of_output u) = u" "spent_txidNextTx (spent_by t) = t"
  "spent_IsSpent (spent_by t) \<longleftrightarrow> t \<noteq> 0"
  by (simp_all add: spent_of_output_def spent_by_def spent_IsSpent_def)

section \<open>Removing transactions from a view\<close>

definition restored :: "CTxPoolView \<Rightarrow> CTxOutPoint \<Rightarrow> CSpent option" where
  "restored v out = map_option (\<lambda>p. spent_of_output (GetOutput (ptx_atx p) (uint (op_n out)))) (mtx v (op_hash out))"

lemma restored_unspent: "restored v out = Some s \<Longrightarrow> \<not> spent_IsSpent s"
  by (auto simp: restored_def)

lemma msp_SetUnspent: "msp (view_SetUnspent out v) = (msp v)(out := restored v out)"
  by (auto simp: view_SetUnspent_def restored_def view_Get_def om_get_set om_get_del split: option.splits)

lemma restored_cong: "view_mapTx v = view_mapTx v' \<Longrightarrow> restored v = restored v'"
  by (simp add: restored_def fun_eq_iff)

lemma msp_fold_SetUnspent:
  "msp (fold view_SetUnspent outs v) o' = (if o' \<in> set outs then restored v o' else msp v o')"
proof (induction outs arbitrary: v)
  case (Cons x xs)
  have "restored (view_SetUnspent x v) = restored v" by (rule restored_cong) simp
  then show ?case using Cons.IH [of "view_SetUnspent x v"] by (simp add: msp_SetUnspent)
qed simp

lemma om_wf_SetUnspent: "om_wf (view_mapSpent v) \<Longrightarrow> om_wf (view_mapSpent (view_SetUnspent out v))"
  by (auto simp: view_SetUnspent_def split: option.splits)

lemma om_wf_fold_SetUnspent: "om_wf (view_mapSpent v) \<Longrightarrow> om_wf (view_mapSpent (fold view_SetUnspent outs v))"
  by (induction outs arbitrary: v) (simp_all add: om_wf_SetUnspent)

text \<open>Resetting the inputs of a transaction and forgetting the transaction keeps the invariant,
  whatever unspent entries of the transaction are dropped with it.\<close>

lemma view_inv_forget:
  assumes inv: "view_inv v" and t: "mtx v t = Some p"
    and mtx: "mtx v' = (mtx v)(t := None)" and wf: "om_wf (view_mapTx v')" "om_wf (view_mapSpent v')"
    and msp: "\<And>i. msp v' i = (if i \<in> set (ptx_vInput p) then restored v i else msp v i)
      \<or> msp v' i = None \<and> \<not> (i \<notin> set (ptx_vInput p) \<and> view_IsSpent v i)"
  shows "view_inv v'"
proof -
  have keep: "msp v' i = msp v i" if "i \<notin> set (ptx_vInput p)" "view_IsSpent v i" for i
    using msp [of i] that by auto
  have other: "i \<notin> set (ptx_vInput p)" if "mtx v' x = Some q" "i \<in> set (ptx_vInput q)" for x q i
    using view_inv_single_spender [OF inv t, of x q i] that mtx by (auto split: if_splits)
  show ?thesis
    unfolding view_inv_iff
  proof (intro conjI allI impI)
    fix x q assume "mtx v' x = Some q"
    then show "x \<noteq> 0" using view_inv_nz [OF inv, of x q] mtx by (auto split: if_splits)
  next
    fix x q i assume q: "mtx v' x = Some q" "i \<in> set (ptx_vInput q)"
    then have "mtx v x = Some q" using mtx by (auto split: if_splits)
    with q show "\<exists>s. msp v' i = Some s \<and> spent_txidNextTx s = x"
      using keep [OF other [OF q]] view_inv_input_spent [OF inv] view_inv_marked [OF inv] by metis
  next
    fix out s assume s: "msp v' out = Some s" "spent_IsSpent s"
    then have "out \<notin> set (ptx_vInput p)" "msp v out = Some s"
      using msp [of out] restored_unspent [of v out s] by (auto split: if_splits)
    then show "\<exists>q. mtx v' (spent_txidNextTx s) = Some q \<and> out \<in> set (ptx_vInput q)"
      using view_inv_spender [OF inv, of out s] s t mtx by auto
  next
    fix out s q assume s: "msp v' out = Some s" "\<not> spent_IsSpent s" and q: "mtx v' (op_hash out) = Some q"
    have q': "mtx v (op_hash out) = Some q" using q mtx by (auto split: if_splits)
    consider "msp v out = Some s" | "restored v out = Some s" using msp [of out] s by (auto split: if_splits)
    then show "spent_output s = GetOutput (ptx_atx q) (uint (op_n out))"
      using view_inv_output [OF inv _ s(2) q'] q' by cases (auto simp: restored_def)
  qed (use wf in auto)
qed

lemma view_Remove_inv:
  assumes "view_inv v"
  shows "view_inv (view_Remove t v)"
proof (cases "mtx v t")
  case (Some p)
  then show ?thesis
    by (intro view_inv_forget [OF assms Some])
      (auto simp: view_Remove_def view_Get_def om_get_del msp_fold_SetUnspent intro: om_wf_fold_SetUnspent view_invD [OF assms])
qed (simp add: view_Remove_def view_Get_def assms)

lemma mtx_Remove: "mtx (view_Remove t v) = (mtx v)(t := None)"
  by (auto simp: view_Remove_def view_Get_def om_get_del split: option.splits)

lemma msp_drop_output:
  "msp (fst (drop_output out s)) i = (if i = out \<and> \<not> view_IsSpent (fst s) out then None else msp (fst s) i)"
  by (simp add: drop_output_def split_def om_get_del)

lemma drop_output_IsSpent: "view_IsSpent (fst (drop_output out s)) = view_IsSpent (fst s)"
  by (auto simp: view_IsSpent_iff fun_eq_iff msp_drop_output)

lemma drop_output_wf: "om_wf (view_mapSpent (fst s)) \<Longrightarrow> om_wf (view_mapSpent (fst (drop_output out s)))"
  by (auto simp: drop_output_def split_def)

lemma drop_output_work:
  "set (snd s) \<subseteq> set (snd (drop_output out s))" "set (snd (drop_output out s)) \<subseteq> insert out (set (snd s))"
  "view_IsSpent (fst s) out \<Longrightarrow> out \<in> set (snd (drop_output out s))"
  by (auto simp: drop_output_def split_def)

text \<open>\<^const>\<open>drop_tx\<close> in three steps: the inputs are reset, then the two outputs are dropped.\<close>

lemma drop_tx_steps:
  "drop_tx t p v w =
     (let s1 = drop_output (CTxOutPoint t 0) (fold view_SetUnspent (ptx_vInput p) v, w);
          s2 = drop_output (CTxOutPoint t 1) s1
      in ((fst s2)\<lparr>view_mapTx := om_del t (view_mapTx v)\<rparr>, snd s2))"
  by (simp add: drop_tx_def Let_def split_def drop_output_def)

lemma drop_tx_IsSpent:
  "view_IsSpent (fst (drop_tx t p v w)) i \<longleftrightarrow> view_IsSpent v i \<and> i \<notin> set (ptx_vInput p)"
proof -
  have "view_IsSpent (x\<lparr>view_mapTx := m\<rparr>) i = view_IsSpent x i" for x m by (simp add: view_IsSpent_def)
  moreover have "view_IsSpent (fold view_SetUnspent (ptx_vInput p) v) i \<longleftrightarrow> view_IsSpent v i \<and> i \<notin> set (ptx_vInput p)"
    using restored_unspent [of v i] by (auto simp: view_IsSpent_iff msp_fold_SetUnspent)
  ultimately show ?thesis
    unfolding drop_tx_steps Let_def fst_conv by (simp only: drop_output_IsSpent fst_conv)
qed

lemma drop_tx_inv:
  assumes inv: "view_inv v" and t: "mtx v t = Some p"
  shows "view_inv (fst (drop_tx t p v w))"
proof (rule view_inv_forget [OF inv t])
  let ?x = "fold view_SetUnspent (ptx_vInput p) v"
  have spent: "view_IsSpent ?x i \<longleftrightarrow> view_IsSpent v i \<and> i \<notin> set (ptx_vInput p)" for i
    using restored_unspent [of v i] by (auto simp: view_IsSpent_iff msp_fold_SetUnspent)
  have "msp (fst (drop_tx t p v w)) i =
      (if i \<in> {CTxOutPoint t 0, CTxOutPoint t 1} \<and> \<not> view_IsSpent ?x i then None else msp ?x i)" for i
    unfolding drop_tx_steps Let_def by (auto simp: msp_drop_output drop_output_IsSpent)
  then show "msp (fst (drop_tx t p v w)) i = (if i \<in> set (ptx_vInput p) then restored v i else msp v i)
      \<or> msp (fst (drop_tx t p v w)) i = None \<and> \<not> (i \<notin> set (ptx_vInput p) \<and> view_IsSpent v i)" for i
    by (auto simp: msp_fold_SetUnspent spent)
  show "mtx (fst (drop_tx t p v w)) = (mtx v)(t := None)" by (simp add: drop_tx_mapTx om_get_del fun_eq_iff)
  show "om_wf (view_mapTx (fst (drop_tx t p v w)))" using view_inv_wfT [OF inv] by (auto simp: drop_tx_mapTx)
  show "om_wf (view_mapSpent (fst (drop_tx t p v w)))"
    unfolding drop_tx_steps Let_def by (simp add: drop_output_wf om_wf_fold_SetUnspent view_inv_wfS [OF inv])
qed

lemma drop_tx_work:
  "set w \<subseteq> set (snd (drop_tx t p v w))"
  "set (snd (drop_tx t p v w)) \<subseteq> {CTxOutPoint t 0, CTxOutPoint t 1} \<union> set w"
  "view_IsSpent (fst (drop_tx t p v w)) (CTxOutPoint t 0) \<Longrightarrow> CTxOutPoint t 0 \<in> set (snd (drop_tx t p v w))"
  "view_IsSpent (fst (drop_tx t p v w)) (CTxOutPoint t 1) \<Longrightarrow> CTxOutPoint t 1 \<in> set (snd (drop_tx t p v w))"
proof -
  let ?s0 = "(fold view_SetUnspent (ptx_vInput p) v, w)"
  let ?s1 = "drop_output (CTxOutPoint t 0) ?s0"
  have snd: "snd (drop_tx t p v w) = snd (drop_output (CTxOutPoint t 1) ?s1)"
    by (simp add: drop_tx_steps Let_def)
  have same: "view_IsSpent (fst (drop_tx t p v w)) = view_IsSpent (fst ?s0)"
  proof -
    have "view_IsSpent (x\<lparr>view_mapTx := m\<rparr>) = view_IsSpent x" for x m by (simp add: view_IsSpent_def fun_eq_iff)
    then show ?thesis unfolding drop_tx_steps Let_def fst_conv by (simp add: drop_output_IsSpent)
  qed
  note w0 = drop_output_work [where s = ?s0 and out = "CTxOutPoint t 0"]
    and w1 = drop_output_work [where s = ?s1 and out = "CTxOutPoint t 1"]
  show "set w \<subseteq> set (snd (drop_tx t p v w))" using w0(1) w1(1) unfolding snd by simp
  show "set (snd (drop_tx t p v w)) \<subseteq> {CTxOutPoint t 0, CTxOutPoint t 1} \<union> set w"
    using w0(2) w1(2) unfolding snd snd_conv by blast
  show "CTxOutPoint t 0 \<in> set (snd (drop_tx t p v w))" if "view_IsSpent (fst (drop_tx t p v w)) (CTxOutPoint t 0)"
    using w0(3) w1(1) that unfolding snd same by blast
  show "CTxOutPoint t 1 \<in> set (snd (drop_tx t p v w))" if "view_IsSpent (fst (drop_tx t p v w)) (CTxOutPoint t 1)"
    using w1(3) that unfolding snd same drop_output_IsSpent by blast
qed

section \<open>What \<^verbatim>\<open>InvalidateSpent\<close> removes\<close>

text \<open>The pooled transactions that spend, directly or through others, one of some output points.\<close>

inductive depends :: "CTxPoolView \<Rightarrow> CTxOutPoint set \<Rightarrow> uint256 \<Rightarrow> bool" for v S where
  direct: "mtx v t = Some p \<Longrightarrow> i \<in> set (ptx_vInput p) \<Longrightarrow> i \<in> S \<Longrightarrow> depends v S t"
| through: "depends v S t \<Longrightarrow> mtx v t' = Some p \<Longrightarrow> CTxOutPoint t n \<in> set (ptx_vInput p) \<Longrightarrow> n = 0 \<or> n = 1 \<Longrightarrow>
    depends v S t'"

lemma depends_narrow:
  assumes "depends v' S' x" and sub: "\<And>t p. mtx v' t = Some p \<Longrightarrow> mtx v t = Some p"
    and S': "S' \<subseteq> S \<union> {CTxOutPoint t 0, CTxOutPoint t 1}" and t: "depends v S t"
  shows "depends v S x"
  using assms(1)
proof induction
  case (direct x p i)
  with S' consider "i \<in> S" | "i = CTxOutPoint t 0" | "i = CTxOutPoint t 1" by blast
  then show ?case
    using direct sub [of x p] t depends.direct [of v x p i S] depends.through [of v S t x p] by cases auto
next
  case (through y x p n)
  then show ?case using sub [of x p] depends.through [of v S y x p n] by blast
qed

definition spends_output_of :: "uint256 set \<Rightarrow> CTxOutPoint \<Rightarrow> bool" where
  "spends_output_of T i \<longleftrightarrow> op_hash i \<in> T \<and> (op_n i = 0 \<or> op_n i = 1)"

text \<open>What a run of the loop over the output points \<^verbatim>\<open>S\<close> does to a view.\<close>

definition dropped_from :: "CTxPoolView \<Rightarrow> CTxOutPoint set \<Rightarrow> CTxPoolView \<Rightarrow> uint256 list \<Rightarrow> bool" where
  "dropped_from v S v' ts \<longleftrightarrow> view_inv v' \<and> distinct ts \<and> mtx v' = mtx v |` (- set ts)
     \<and> (\<forall>t \<in> set ts. depends v S t)
     \<and> (\<forall>i. view_IsSpent v' i \<longrightarrow> view_IsSpent v i \<and> i \<notin> S \<and> \<not> spends_output_of (set ts) i)"

lemma dropped_skip:
  assumes "dropped_from v S v' ts" and "\<not> view_IsSpent v out"
  shows "dropped_from v (insert out S) v' ts"
proof -
  have "depends v (insert out S) t" if "depends v S t" for t
    using that by induction (auto intro: depends.intros)
  with assms show ?thesis unfolding dropped_from_def by auto
qed

lemma dropped_step:
  assumes t: "mtx v t = Some p" "out \<in> set (ptx_vInput p)" and d: "drop_tx t p v outs = (v1, outs1)"
    and run: "dropped_from v1 (set outs1) v' ts"
  shows "dropped_from v (insert out (set outs)) v' (t # ts)"
proof -
  have m1: "mtx v1 = (mtx v)(t := None)" using drop_tx_mapTx [of t p v outs] d by (simp add: om_get_del fun_eq_iff)
  have dep: "depends v (insert out (set outs)) t" using t by (auto intro: depends.direct)
  note work = drop_tx_work [where w = outs and t = t and p = p and v = v, unfolded d fst_conv snd_conv]
  have "depends v (insert out (set outs)) x" if "depends v1 (set outs1) x" for x
  proof (rule depends_narrow [OF that _ _ dep])
    show "mtx v1 y = Some q \<Longrightarrow> mtx v y = Some q" for y q using m1 by (simp split: if_splits)
    show "set outs1 \<subseteq> insert out (set outs) \<union> {CTxOutPoint t 0, CTxOutPoint t 1}" using work(2) by auto
  qed
  moreover have "\<not> depends v1 (set outs1) t"
    by (rule notI) (erule depends.cases; simp add: m1)
  moreover have "view_IsSpent v i \<and> i \<notin> insert out (set outs) \<and> \<not> spends_output_of (insert t (set ts)) i"
    if "view_IsSpent v' i" for i
  proof -
    have i: "view_IsSpent v1 i" "i \<notin> set outs1" "\<not> spends_output_of (set ts) i"
      using run that by (auto simp: dropped_from_def)
    then have "view_IsSpent v i" "i \<notin> set (ptx_vInput p)"
      using drop_tx_IsSpent [of t p v outs i] d by auto
    moreover have "i \<noteq> CTxOutPoint t 0" "i \<noteq> CTxOutPoint t 1" using i(1,2) work(3,4) by auto
    ultimately show ?thesis
      using i t(2) work(1) by (cases i) (auto simp: spends_output_of_def)
  qed
  moreover have "mtx v' = mtx v |` (- set (t # ts))"
    using run m1 by (auto simp: dropped_from_def restrict_map_def fun_eq_iff)
  ultimately show ?thesis
    using run dep unfolding dropped_from_def by auto
qed

lemma view_GetSpent_cases:
  assumes inv: "view_inv v"
  obtains (unspent) "\<not> view_IsSpent v out" "view_GetSpent v out 0 = (False, snd (view_GetSpent v out 0))"
  | (spent) t p where "view_GetSpent v out 0 = (True, t)" "view_Get v t = Some p" "mtx v t = Some p"
      "out \<in> set (ptx_vInput p)"
proof (cases "view_IsSpent v out")
  case False
  then show ?thesis
    by (intro unspent) (auto simp: view_GetSpent_def view_IsSpent_def split: option.splits)
next
  case True
  then obtain s p where "msp v out = Some s" "spent_IsSpent s" "mtx v (spent_txidNextTx s) = Some p" "out \<in> set (ptx_vInput p)"
    using view_inv_spender [OF inv] unfolding view_IsSpent_iff by blast
  then show ?thesis by (intro spent [of "spent_txidNextTx s" p]) (simp_all add: view_GetSpent_def view_Get_def)
qed

lemma invalidate_loop_inv:
  assumes "view_inv v"
  shows "\<exists>v' ts. invalidate_loop v outs acc = (v', acc @ ts) \<and> dropped_from v (set outs) v' ts"
  using assms
proof (induction v outs acc rule: invalidate_loop.induct)
  case (1 v acc)
  then show ?case by (auto simp: dropped_from_def spends_output_of_def restrict_map_def)
next
  case (2 v out outs acc)
  from 2(4) show ?case
  proof (cases rule: view_GetSpent_cases [of v out])
    case unspent
    obtain v' ts where "invalidate_loop v outs acc = (v', acc @ ts)" "dropped_from v (set outs) v' ts"
      using 2(3) [OF unspent(2) [symmetric] _ 2(4)] by blast
    then show ?thesis using dropped_skip [OF _ unspent(1)] unspent(2) by (auto split: prod.splits)
  next
    case (spent t p)
    obtain v1 outs1 where d: "drop_tx t p v outs = (v1, outs1)" by fastforce
    have "view_inv v1" using drop_tx_inv [OF 2(4) spent(3), of outs] d by simp
    then obtain v' ts where "invalidate_loop v1 outs1 (acc @ [t]) = (v', (acc @ [t]) @ ts)" "dropped_from v1 (set outs1) v' ts"
      using 2(2) [OF spent(1) [symmetric] TrueI spent(2) d [symmetric]] by blast
    then show ?thesis using dropped_step [OF spent(3,4) d] by (simp add: spent(1,2) d)
  qed
qed

lemma InvalidateSpent_removes:
  assumes inv: "view_inv v"
  shows "\<exists>v' ts. InvalidateSpent out (v, vInvolvedTx) = (v', vInvolvedTx @ ts) \<and> view_inv v' \<and> distinct ts
    \<and> set ts = {t. depends v {out} t} \<and> mtx v' = mtx v |` (- set ts)"
proof -
  obtain v' ts where l: "invalidate_loop v [out] vInvolvedTx = (v', vInvolvedTx @ ts)" "view_inv v'" "distinct ts"
      "mtx v' = mtx v |` (- set ts)" "\<forall>t \<in> set ts. depends v {out} t"
      "\<And>i. view_IsSpent v' i \<Longrightarrow> i \<noteq> out \<and> \<not> spends_output_of (set ts) i"
    using invalidate_loop_inv [OF inv, of "[out]" vInvolvedTx] by (auto simp: dropped_from_def)
  have "t \<in> set ts" if "depends v {out} t" for t
    using that
  proof induction
    case (direct t p i)
    then show ?case using l(6) [of i] view_inv_input_spent [OF l(2), of t p i] l(4) by (cases "t \<in> set ts") auto
  next
    case (through t t' p n)
    then show ?case using l(6) [of "CTxOutPoint t n"] view_inv_input_spent [OF l(2), of t' p "CTxOutPoint t n"] l(4)
      by (cases "t' \<in> set ts") (auto simp: spends_output_of_def)
  qed
  with l show ?thesis unfolding InvalidateSpent_def by auto
qed

section \<open>Adding a transaction\<close>

lemma SetSpent_mapTx [simp]: "view_mapTx (view_SetSpent i t v) = view_mapTx v"
  by (simp add: view_SetSpent_def)

lemma fold_SetSpent_mapTx [simp]: "view_mapTx (fold (\<lambda>i. view_SetSpent i t) outs v) = view_mapTx v"
  by (induction outs arbitrary: v) simp_all

lemma msp_fold_SetSpent:
  "msp (fold (\<lambda>i. view_SetSpent i t) outs v) i = (if i \<in> set outs then Some (spent_by t) else msp v i)"
  by (induction outs arbitrary: v) (auto simp: view_SetSpent_def om_get_set)

lemma om_wf_SetSpent: "om_wf (view_mapSpent v) \<Longrightarrow> om_wf (view_mapSpent (view_SetSpent i t v))"
  by (simp add: view_SetSpent_def om_wf_set)

lemma om_wf_fold_SetSpent: "om_wf (view_mapSpent v) \<Longrightarrow> om_wf (view_mapSpent (fold (\<lambda>i. view_SetSpent i t) outs v))"
  by (induction outs arbitrary: v) (simp_all add: om_wf_SetSpent)

lemma add_output_simps:
  "view_mapTx (add_output t p n v) = view_mapTx v"
  "msp (add_output t p n v) i = (if i = CTxOutPoint t n \<and> \<not> out_IsNull (GetOutput (ptx_atx p) (uint n))
     then Some (spent_of_output (GetOutput (ptx_atx p) (uint n))) else msp v i)"
  "om_wf (view_mapSpent v) \<Longrightarrow> om_wf (view_mapSpent (add_output t p n v))"
  by (auto simp: add_output_def Let_def om_get_set)

lemma mtx_AddNew: "mtx (view_AddNew t p v) = (mtx v)(t \<mapsto> p)"
  by (simp add: view_AddNew_def Let_def add_output_simps om_get_set fun_eq_iff)

lemma msp_AddNew:
  "msp (view_AddNew t p v) i =
     (if (i = CTxOutPoint t 0 \<or> i = CTxOutPoint t 1) \<and> \<not> out_IsNull (GetOutput (ptx_atx p) (uint (op_n i)))
      then Some (spent_of_output (GetOutput (ptx_atx p) (uint (op_n i))))
      else if i \<in> set (ptx_vInput p) then Some (spent_by t) else msp v i)"
  by (auto simp: view_AddNew_def Let_def add_output_simps msp_fold_SetSpent)

text \<open>A transaction that the view knows nothing about, and whose inputs nobody spends, can be added.\<close>

definition view_fresh :: "CTxPoolView \<Rightarrow> uint256 \<Rightarrow> bool" where
  "view_fresh v t \<longleftrightarrow> (\<forall>(i, s) \<in> set (view_mapSpent v). op_hash i \<noteq> t)"

lemma view_freshD: "view_fresh v t \<Longrightarrow> op_hash i = t \<Longrightarrow> msp v i = None"
  by (force simp: view_fresh_def map_of_eq_None_iff)

lemma view_AddNew_inv:
  assumes inv: "view_inv v" and t: "mtx v t = None" "t \<noteq> 0" "view_fresh v t"
    and i: "\<And>i. i \<in> set (ptx_vInput p) \<Longrightarrow> \<not> view_IsSpent v i \<and> op_hash i \<noteq> t"
  shows "view_inv (view_AddNew t p v)"
proof -
  have old: "msp (view_AddNew t p v) j = msp v j" if "mtx v x = Some q" "j \<in> set (ptx_vInput q)" for x q j
  proof -
    have "view_IsSpent v j" using view_inv_input_spent [OF inv] that by blast
    then have "op_hash j \<noteq> t" "j \<notin> set (ptx_vInput p)"
      using view_freshD [OF t(3)] i unfolding view_IsSpent_iff by fastforce+
    then show ?thesis by (auto simp: msp_AddNew)
  qed
  show ?thesis
    unfolding view_inv_iff
  proof (intro conjI allI impI)
    show "om_wf (view_mapTx (view_AddNew t p v))" "om_wf (view_mapSpent (view_AddNew t p v))"
      using view_inv_wfT [OF inv] view_inv_wfS [OF inv]
      by (auto simp: view_AddNew_def Let_def add_output_simps intro!: add_output_simps(3) om_wf_fold_SetSpent)
    show "x \<noteq> 0" if "mtx (view_AddNew t p v) x = Some q" for x q
      using that t(2) view_inv_nz [OF inv] by (auto simp: mtx_AddNew split: if_splits)
    show "\<exists>s. msp (view_AddNew t p v) j = Some s \<and> spent_txidNextTx s = x"
      if "mtx (view_AddNew t p v) x = Some q" "j \<in> set (ptx_vInput q)" for x q j
      using that i [of j] view_inv_marked [OF inv, of x q j] old [of x q j]
      by (cases "x = t") (auto simp: mtx_AddNew msp_AddNew)
    show "\<exists>q. mtx (view_AddNew t p v) (spent_txidNextTx s) = Some q \<and> j \<in> set (ptx_vInput q)"
      if "msp (view_AddNew t p v) j = Some s" "spent_IsSpent s" for j s
      using that view_inv_spender [OF inv, of j s] t(1) by (auto simp: mtx_AddNew msp_AddNew split: if_splits)
    show "spent_output s = GetOutput (ptx_atx q) (uint (op_n j))"
      if "msp (view_AddNew t p v) j = Some s" "\<not> spent_IsSpent s" "mtx (view_AddNew t p v) (op_hash j) = Some q" for j s q
      using that view_inv_output [OF inv, of j s q] view_freshD [OF t(3), of j] t(2)
      by (cases j) (auto simp: mtx_AddNew msp_AddNew split: if_splits)
  qed
qed

text \<open>The outputs found for the inputs of an accepted transaction.\<close>

lemma view_outputs_Some:
  "view_outputs v is = Some us \<longleftrightarrow> (\<forall>i \<in> set is. \<not> view_IsSpent v i) \<and> us = map (\<lambda>i. snd (view_GetUnspent v i out_null)) is"
  by (induction "is" arbitrary: us) auto

lemma check_prev_outputs_times:
  "check_prev_outputs tx d h us v = Inr w \<Longrightarrow> u \<in> set us \<Longrightarrow> out_nTxTime u \<le> tx_nTimeStamp tx"
  by (induction us arbitrary: v) (auto split: if_splits)

lemma VerifyTransaction_times:
  "VerifyTransaction env tx us h = Some MV_OK \<Longrightarrow> u \<in> set us \<Longrightarrow> out_nTxTime u \<le> tx_nTimeStamp tx"
proof -
  assume ok: "VerifyTransaction env tx us h = Some MV_OK" and u: "u \<in> set us"
  have "\<exists>w. check_prev_outputs tx (out_destTo (hd us)) h us 0 = Inr w"
  proof (cases "check_prev_outputs tx (out_destTo (hd us)) h us 0")
    case (Inl e)
    then show ?thesis
      using ok check_prev_outputs_Inl [OF Inl] by (cases us) (simp_all add: VerifyTransaction_def Let_def del: check_prev_outputs.simps)
  qed blast
  then show ?thesis using check_prev_outputs_times u by blast
qed

text \<open>An input that spends an output of a pooled transaction finds that output, unless the chain
  knows it too.\<close>

lemma pooled_input:
  assumes inv: "view_inv v" and us: "view_outputs v (tx_vInput tx) = Some us"
    and prev: "GetTxUnspent wl f (tx_vInput tx) us = Some vPrev" "\<not> list_ex out_IsNull vPrev"
    and db: "wl_unspent wl f = Some db" "db i = None"
    and i: "i \<in> set (tx_vInput tx)" and q: "mtx v (op_hash i) = Some q"
  shows "GetOutput (ptx_atx q) (uint (op_n i)) \<in> set vPrev"
proof -
  let ?g = "\<lambda>i. snd (view_GetUnspent v i out_null)"
  have u: "vPrev = map (\<lambda>i. if out_IsNull (?g i) then (case db i of Some u' \<Rightarrow> u' | None \<Rightarrow> ?g i) else ?g i) (tx_vInput tx)"
    using prev(1) us unfolding view_outputs_Some by (auto simp: GetTxUnspent_def db(1) zip_map2 zip_same_conv_map)
  have "(if out_IsNull (?g i) then (case db i of Some u' \<Rightarrow> u' | None \<Rightarrow> ?g i) else ?g i) \<in> set vPrev"
    unfolding u set_map by (rule imageI [OF i])
  then have mem: "?g i \<in> set vPrev" by (simp add: db(2) split: if_splits)
  then have nn: "\<not> out_IsNull (?g i)" using prev(2) unfolding list_ex_iff by blast
  have "out_IsNull out_null" by (simp add: out_IsNull_def out_null_def)
  with nn have "\<exists>s. msp v i = Some s \<and> \<not> spent_IsSpent s \<and> ?g i = spent_output s"
    unfolding view_GetUnspent_def by (cases "msp v i") (auto split: if_splits)
  then obtain s where s: "msp v i = Some s" "\<not> spent_IsSpent s" "?g i = spent_output s" by blast
  then show ?thesis using mem view_inv_output [OF inv s(1,2) q] by simp
qed

section \<open>The invariant of the pool\<close>

abbreviation ptx_time :: "CPooledTx \<Rightarrow> uint32" where "ptx_time p \<equiv> tx_nTimeStamp (ptx_tx p)"

text \<open>A transaction that spends an output of another one in the view comes after it.\<close>

definition view_ordered :: "CTxPoolView \<Rightarrow> bool" where
  "view_ordered v \<longleftrightarrow> (\<forall>t p i q. mtx v t = Some p \<longrightarrow> i \<in> set (ptx_vInput p) \<longrightarrow> mtx v (op_hash i) = Some q \<longrightarrow>
     ptx_nSequenceNumber q < ptx_nSequenceNumber p \<and> ptx_time q \<le> ptx_time p)"

abbreviation pool_txs :: "CTxPool \<Rightarrow> uint256 \<Rightarrow> CPooledTx option" where "pool_txs pool \<equiv> om_get (pool_mapTx pool)"

abbreviation views :: "CTxPool \<Rightarrow> uint256 \<Rightarrow> CTxPoolView option" where "views pool \<equiv> om_get (pool_mapPoolView pool)"

text \<open>The entries of the pool: the key is the identifier, sequence numbers are distinct and at most the
  last one handed out.\<close>

definition entries_ok :: "crypto_env \<Rightarrow> CTxPool \<Rightarrow> bool" where
  "entries_ok env pool \<longleftrightarrow> om_wf (pool_mapTx pool)
     \<and> (\<forall>t p. pool_txs pool t = Some p \<longrightarrow> t = tx_GetHash env (ptx_tx p)
          \<and> ptx_nSerializeSize p = Size_tx (ptx_tx p) \<and> ptx_nSequenceNumber p \<le> pool_nLastSequenceNumber pool)
     \<and> (\<forall>t p t' p'. pool_txs pool t = Some p \<longrightarrow> pool_txs pool t' = Some p' \<longrightarrow>
          ptx_nSequenceNumber p = ptx_nSequenceNumber p' \<longrightarrow> t = t')"

text \<open>The views: each is consistent and ordered, its entries are those of the pool (no pointer dangles),
  and a transaction is in at most one view.\<close>

definition views_ok :: "CTxPool \<Rightarrow> bool" where
  "views_ok pool \<longleftrightarrow> om_wf (pool_mapPoolView pool)
     \<and> (\<forall>f v. views pool f = Some v \<longrightarrow> view_inv v \<and> view_ordered v \<and> (\<forall>t p. mtx v t = Some p \<longrightarrow> pool_txs pool t = Some p))
     \<and> (\<forall>f v f' v' t. views pool f = Some v \<longrightarrow> views pool f' = Some v' \<longrightarrow> mtx v t \<noteq> None \<longrightarrow> mtx v' t \<noteq> None \<longrightarrow> f = f')"

definition pool_inv :: "crypto_env \<Rightarrow> CTxPool \<Rightarrow> bool" where
  "pool_inv env pool \<longleftrightarrow> entries_ok env pool \<and> views_ok pool"

lemma pool_view_views: "views pool f = Some v \<Longrightarrow> pool_view pool f = v" "views pool f = None \<Longrightarrow> pool_view pool f = view_Clear"
  by (simp_all add: pool_view_def)

lemma views_okD:
  assumes "views_ok pool"
  shows views_ok_inv: "view_inv (pool_view pool f)" and views_ok_ordered: "view_ordered (pool_view pool f)"
    and views_ok_entry: "mtx (pool_view pool f) t = Some p \<Longrightarrow> pool_txs pool t = Some p"
    and views_ok_once: "mtx (pool_view pool f) t \<noteq> None \<Longrightarrow> mtx (pool_view pool f') t \<noteq> None \<Longrightarrow> f = f'"
    and views_ok_wf: "om_wf (pool_mapPoolView pool)"
proof -
  have none: "mtx view_Clear t = None" "view_ordered view_Clear" for t by (simp_all add: view_ordered_def view_Clear_def)
  show "view_inv (pool_view pool f)" "view_ordered (pool_view pool f)"
    using assms none unfolding views_ok_def by (cases "views pool f"; simp add: pool_view_views)+
  show "pool_txs pool t = Some p" if "mtx (pool_view pool f) t = Some p"
    using assms that none unfolding views_ok_def by (cases "views pool f") (simp_all add: pool_view_views)
  show "f = f'" if "mtx (pool_view pool f) t \<noteq> None" "mtx (pool_view pool f') t \<noteq> None"
  proof (cases "views pool f"; cases "views pool f'")
    fix v v' assume "views pool f = Some v" "views pool f' = Some v'"
    then show ?thesis using assms that unfolding views_ok_def by (metis pool_view_views(1))
  qed (use that none in \<open>simp_all add: pool_view_views\<close>)
  show "om_wf (pool_mapPoolView pool)" using assms by (simp add: views_ok_def)
qed

text \<open>Replacing one view.\<close>

lemma views_set_view: "views (set_view f v pool) = (views pool)(f \<mapsto> v)"
  by (simp add: set_view_def om_get_set fun_eq_iff)

lemma set_view_simps [simp]:
  "pool_mapTx (set_view f v pool) = pool_mapTx pool"
  "pool_nLastSequenceNumber (set_view f v pool) = pool_nLastSequenceNumber pool"
  "pool_view (set_view f v pool) f' = (if f' = f then v else pool_view pool f')"
  by (auto simp: pool_view_def views_set_view) (simp_all add: set_view_def)

lemma pool_view_update [simp]:
  "pool_view (pool\<lparr>pool_mapTx := m\<rparr>) = pool_view pool" "pool_view (pool\<lparr>pool_nLastSequenceNumber := n\<rparr>) = pool_view pool"
  by (simp_all add: pool_view_def fun_eq_iff)

lemma entries_ok_set_view [simp]: "entries_ok env (set_view f v pool) = entries_ok env pool"
  by (simp add: entries_ok_def)

lemma views_ok_intro:
  assumes "om_wf (pool_mapPoolView pool)" and "\<And>f. view_inv (pool_view pool f)" and "\<And>f. view_ordered (pool_view pool f)"
    and "\<And>f t p. mtx (pool_view pool f) t = Some p \<Longrightarrow> pool_txs pool t = Some p"
    and "\<And>f f' t. mtx (pool_view pool f) t \<noteq> None \<Longrightarrow> mtx (pool_view pool f') t \<noteq> None \<Longrightarrow> f = f'"
  shows "views_ok pool"
  unfolding views_ok_def
proof (intro conjI allI impI)
  fix f v assume f: "views pool f = Some v"
  show "view_inv v" "view_ordered v" using assms(2,3) [of f] by (simp_all add: pool_view_views(1) [OF f])
  show "pool_txs pool t = Some p" if "mtx v t = Some p" for t p
    using assms(4) [of f t p] that by (simp add: pool_view_views(1) [OF f])
next
  fix f v f' v' t assume "views pool f = Some v" "views pool f' = Some v'" "mtx v t \<noteq> None" "mtx v' t \<noteq> None"
  then show "f = f'" using assms(5) [of f t f'] by (simp add: pool_view_views(1))
qed (rule assms(1))

lemma pool_view_touch: "pool_view (set_view f (pool_view pool f) pool) = pool_view pool"
  by (simp add: fun_eq_iff)

lemma pool_inv_touch:
  assumes "pool_inv env pool"
  shows "pool_inv env (set_view f (pool_view pool f) pool)"
proof -
  have ok: "views_ok pool" using assms by (simp add: pool_inv_def)
  have "views_ok (set_view f (pool_view pool f) pool)"
  proof (rule views_ok_intro, unfold pool_view_touch set_view_simps(1))
    show "om_wf (pool_mapPoolView (set_view f (pool_view pool f) pool))"
      using views_ok_wf [OF ok] by (simp add: set_view_def om_wf_set)
    show "view_inv (pool_view pool g)" "view_ordered (pool_view pool g)" for g by (rule views_okD [OF ok])+
    show "mtx (pool_view pool g) t = Some p \<Longrightarrow> pool_txs pool t = Some p" for g t p by (rule views_ok_entry [OF ok])
    show "mtx (pool_view pool g) t \<noteq> None \<Longrightarrow> mtx (pool_view pool g') t \<noteq> None \<Longrightarrow> g = g'" for g g' t
      by (rule views_ok_once [OF ok])
  qed
  with assms show ?thesis by (simp add: pool_inv_def)
qed

definition pool_insert :: "uint256 \<Rightarrow> uint256 \<Rightarrow> CPooledTx \<Rightarrow> CTxPool \<Rightarrow> CTxPool" where
  "pool_insert f t p pool =
     set_view f (view_AddNew t p (pool_view pool f))
       (pool\<lparr>pool_nLastSequenceNumber := ptx_nSequenceNumber p, pool_mapTx := om_set t p (pool_mapTx pool)\<rparr>)"

definition next_sequence :: "CTxPool \<Rightarrow> nat" where
  "next_sequence pool = Suc (if pool_mapTx pool = [] then 0 else pool_nLastSequenceNumber pool)"

lemma next_sequence_gt:
  "entries_ok env pool \<Longrightarrow> pool_txs pool t = Some q \<Longrightarrow> ptx_nSequenceNumber q < next_sequence pool"
  by (auto simp: entries_ok_def next_sequence_def less_Suc_eq_le)

lemma entries_ok_insert:
  assumes ok: "entries_ok env pool" and new: "pool_txs pool t = None" and t: "t = tx_GetHash env (ptx_tx p)"
    and size: "ptx_nSerializeSize p = Size_tx (ptx_tx p)" and seq: "ptx_nSequenceNumber p = next_sequence pool"
  shows "entries_ok env (pool_insert f t p pool)"
proof -
  have mapTx: "pool_txs (pool_insert f t p pool) = (pool_txs pool)(t \<mapsto> p)"
    by (simp add: pool_insert_def om_get_set fun_eq_iff)
  have last: "pool_nLastSequenceNumber (pool_insert f t p pool) = next_sequence pool"
    by (simp add: pool_insert_def seq)
  show ?thesis
    unfolding entries_ok_def mapTx last
  proof (intro conjI allI impI)
    show "om_wf (pool_mapTx (pool_insert f t p pool))"
      using ok by (auto simp: pool_insert_def entries_ok_def)
  next
    fix x q assume q: "((pool_txs pool)(t \<mapsto> p)) x = Some q"
    then show "x = tx_GetHash env (ptx_tx q)" "ptx_nSerializeSize q = Size_tx (ptx_tx q)"
      using ok t size by (auto simp: entries_ok_def split: if_splits)
    show "ptx_nSequenceNumber q \<le> next_sequence pool"
      using q next_sequence_gt [OF ok, of x q] seq by (auto split: if_splits)
  next
    fix x q x' q' assume q: "((pool_txs pool)(t \<mapsto> p)) x = Some q" "((pool_txs pool)(t \<mapsto> p)) x' = Some q'"
        "ptx_nSequenceNumber q = ptx_nSequenceNumber q'"
    then show "x = x'"
      using next_sequence_gt [OF ok, of x q] next_sequence_gt [OF ok, of x' q'] seq ok
      by (auto simp: entries_ok_def split: if_splits)
  qed
qed

lemma view_ordered_AddNew:
  assumes "view_ordered v" and "view_inv v" and "view_fresh v t"
    and "\<And>i q. i \<in> set (ptx_vInput p) \<Longrightarrow> mtx v (op_hash i) = Some q \<Longrightarrow>
      ptx_nSequenceNumber q < ptx_nSequenceNumber p \<and> ptx_time q \<le> ptx_time p"
    and "\<And>i. i \<in> set (ptx_vInput p) \<Longrightarrow> op_hash i \<noteq> t"
  shows "view_ordered (view_AddNew t p v)"
  unfolding view_ordered_def mtx_AddNew
proof (intro allI impI)
  fix x q i r assume q: "((mtx v)(t \<mapsto> p)) x = Some q" "i \<in> set (ptx_vInput q)" "((mtx v)(t \<mapsto> p)) (op_hash i) = Some r"
  have "op_hash i \<noteq> t" if "mtx v x = Some q"
    using view_inv_marked [OF assms(2) that q(2)] view_freshD [OF assms(3), of i] by auto
  with q show "ptx_nSequenceNumber r < ptx_nSequenceNumber q \<and> ptx_time r \<le> ptx_time q"
    using assms(1,4,5) unfolding view_ordered_def by (cases "x = t"; cases "op_hash i = t") auto
qed

lemma pool_insert_inv:
  assumes inv: "pool_inv env pool" and new: "pool_txs pool t = None" and t: "t = tx_GetHash env (ptx_tx p)" "t \<noteq> 0"
    and p: "ptx_nSerializeSize p = Size_tx (ptx_tx p)" "ptx_nSequenceNumber p = next_sequence pool"
    and fresh: "view_fresh (pool_view pool f) t"
    and i: "\<And>i. i \<in> set (ptx_vInput p) \<Longrightarrow> \<not> view_IsSpent (pool_view pool f) i \<and> op_hash i \<noteq> t"
    and time: "\<And>i q. i \<in> set (ptx_vInput p) \<Longrightarrow> mtx (pool_view pool f) (op_hash i) = Some q \<Longrightarrow> ptx_time q \<le> ptx_time p"
  shows "pool_inv env (pool_insert f t p pool)"
proof -
  have ent: "entries_ok env pool" and ok: "views_ok pool" using inv by (simp_all add: pool_inv_def)
  let ?v = "pool_view pool f" and ?pool = "pool_insert f t p pool"
  have mapTx: "pool_txs ?pool = (pool_txs pool)(t \<mapsto> p)" by (simp add: pool_insert_def om_get_set fun_eq_iff)
  have view: "pool_view ?pool g = (if g = f then view_AddNew t p ?v else pool_view pool g)" for g
    by (simp add: pool_insert_def)
  have absent: "mtx (pool_view pool g) t = None" for g
    using views_ok_entry [OF ok, of g t] new by (cases "mtx (pool_view pool g) t") auto
  have vi: "view_inv (view_AddNew t p ?v)"
    by (rule view_AddNew_inv [OF views_ok_inv [OF ok] absent t(2) fresh i])
  have vo: "view_ordered (view_AddNew t p ?v)"
  proof (rule view_ordered_AddNew [OF views_ok_ordered [OF ok] views_ok_inv [OF ok] fresh])
    fix j q assume "j \<in> set (ptx_vInput p)" "mtx ?v (op_hash j) = Some q"
    then show "ptx_nSequenceNumber q < ptx_nSequenceNumber p \<and> ptx_time q \<le> ptx_time p"
      using time next_sequence_gt [OF ent views_ok_entry [OF ok, of f "op_hash j" q]] p(2) by simp
  qed (use i in simp)
  have "views_ok ?pool"
  proof (rule views_ok_intro)
    show "om_wf (pool_mapPoolView ?pool)"
      using views_ok_wf [OF ok] by (auto simp: pool_insert_def set_view_def)
    show "view_inv (pool_view ?pool g)" "view_ordered (pool_view ?pool g)" for g
      using vi vo views_ok_inv [OF ok, of g] views_ok_ordered [OF ok, of g] by (auto simp: view)
    show "pool_txs ?pool x = Some q" if "mtx (pool_view ?pool g) x = Some q" for g x q
      using that absent [of g] views_ok_entry [OF ok, of g x q]
      by (auto simp: view mapTx mtx_AddNew split: if_splits)
    show "g = g'" if "mtx (pool_view ?pool g) x \<noteq> None" "mtx (pool_view ?pool g') x \<noteq> None" for g g' x
      using that absent [of g] absent [of g'] views_ok_once [OF ok, of g x g'] views_ok_once [OF ok, of f x g']
        views_ok_once [OF ok, of f x g]
      by (auto simp: view mtx_AddNew simp del: not_None_eq split: if_splits)
  qed
  then show ?thesis using entries_ok_insert [OF ent new t(1) p] by (simp add: pool_inv_def)
qed

text \<open>\<^verbatim>\<open>AddNew\<close> either leaves the pool alone or inserts the transaction.\<close>

lemma pool_AddNew_cases:
  assumes add: "pool_AddNew env wl f t tx h pool = Some (err, pool')" and new: "pool_txs pool t = None"
  obtains (rejected) "err \<noteq> MV_OK" "pool' = pool"
  | (added) us vPrev where "err = MV_OK" "view_outputs (pool_view pool f) (tx_vInput tx) = Some us"
      "GetTxUnspent wl f (tx_vInput tx) us = Some vPrev" "\<not> list_ex out_IsNull vPrev"
      "VerifyTransaction env tx vPrev h = Some MV_OK"
      "pool' = pool_insert f t (ptx_of_tx tx (- 1) (next_sequence pool) (out_destTo (hd vPrev))
         (sum_list (map out_nAmount vPrev))) pool"
proof (cases "err = MV_OK")
  case False
  then have "pool' = pool"
    using add by (auto simp: pool_AddNew_def Let_def split_def split: option.splits if_splits)
  with False show ?thesis by (rule rejected)
next
  case True
  then obtain us vPrev where *: "view_outputs (pool_view pool f) (tx_vInput tx) = Some us"
      "GetTxUnspent wl f (tx_vInput tx) us = Some vPrev" "\<not> list_ex out_IsNull vPrev"
      "VerifyTransaction env tx vPrev h = Some MV_OK"
    using add by (auto simp: pool_AddNew_def split: option.splits if_splits)
  have "pool' = pool_insert f t (ptx_of_tx tx (- 1) (next_sequence pool) (out_destTo (hd vPrev))
         (sum_list (map out_nAmount vPrev))) pool"
    using add * new
    by (simp add: pool_AddNew_def Let_def split_def GetSequenceNumber_def next_sequence_def pool_insert_def om_ins_def
        om_has_def om_get_set ptx_of_tx_def ptx_of_atx_def pool_view_def set_view_def)
  with True * show ?thesis by (rule added)
qed

section \<open>Every operation keeps the invariant\<close>

text \<open>The chain does not know the outputs of the transactions of the view, nor those of \<open>t\<close>.\<close>

definition off_chain :: "world_line \<Rightarrow> uint256 \<Rightarrow> CTxPoolView \<Rightarrow> uint256 \<Rightarrow> bool" where
  "off_chain wl f v t \<longleftrightarrow> (\<forall>db i. wl_unspent wl f = Some db \<longrightarrow> op_hash i = t \<or> mtx v (op_hash i) \<noteq> None \<longrightarrow> db i = None)"

lemma off_chain_prev:
  assumes fresh: "view_fresh v t" and off: "off_chain wl f v t"
    and us: "view_outputs v (tx_vInput tx) = Some us"
    and prev: "GetTxUnspent wl f (tx_vInput tx) us = Some vPrev" "\<not> list_ex out_IsNull vPrev"
    and i: "i \<in> set (tx_vInput tx)"
  shows "op_hash i \<noteq> t"
proof
  assume t: "op_hash i = t"
  obtain db where db: "wl_unspent wl f = Some db" using prev(1) by (auto simp: GetTxUnspent_def split: option.splits)
  let ?g = "\<lambda>i. snd (view_GetUnspent v i out_null)"
  have u: "vPrev = map (\<lambda>i. if out_IsNull (?g i) then (case db i of Some u' \<Rightarrow> u' | None \<Rightarrow> ?g i) else ?g i) (tx_vInput tx)"
    using prev(1) us unfolding view_outputs_Some by (auto simp: GetTxUnspent_def db zip_map2 zip_same_conv_map)
  have "?g i = out_null" using view_freshD [OF fresh t] by (simp add: view_GetUnspent_def)
  moreover have "db i = None" using off db t by (simp add: off_chain_def)
  moreover have "out_IsNull out_null" by (simp add: out_IsNull_def out_null_def)
  ultimately have "out_null \<in> set vPrev" unfolding u using i by (force simp: image_iff)
  with \<open>out_IsNull out_null\<close> prev(2) show False unfolding list_ex_iff by blast
qed

lemma GetOutput_time: "\<not> out_IsNull (GetOutput a n) \<Longrightarrow> out_nTxTime (GetOutput a n) = tx_nTimeStamp (atx_tx a)"
  by (auto simp: GetOutput_def out_null_def out_IsNull_def split: if_splits)

lemma pool_AddNew_inv:
  assumes inv: "pool_inv env pool" and new: "pool_txs pool t = None" and t: "t = tx_GetHash env tx" "t \<noteq> 0"
    and fresh: "view_fresh (pool_view pool f) t" and off: "off_chain wl f (pool_view pool f) t"
    and add: "pool_AddNew env wl f t tx h pool = Some (err, pool')"
  shows "pool_inv env pool'"
  using add new
proof (cases rule: pool_AddNew_cases)
  case (added us vPrev)
  let ?p = "ptx_of_tx tx (- 1) (next_sequence pool) (out_destTo (hd vPrev)) (sum_list (map out_nAmount vPrev))"
  let ?v = "pool_view pool f"
  have vi: "view_inv ?v" using inv by (simp add: pool_inv_def views_ok_inv)
  have p: "ptx_tx ?p = tx" by (simp add: ptx_of_tx_def ptx_of_atx_def)
  obtain db where db: "wl_unspent wl f = Some db" using added(3) by (auto simp: GetTxUnspent_def split: option.splits)
  show ?thesis
    unfolding added(6)
  proof (rule pool_insert_inv [OF inv new _ t(2) _ _ fresh])
    show "t = tx_GetHash env (ptx_tx ?p)" using t(1) p by simp
    show "ptx_nSerializeSize ?p = Size_tx (ptx_tx ?p)" "ptx_nSequenceNumber ?p = next_sequence pool"
      by (simp_all add: ptx_of_tx_def ptx_of_atx_def)
    show "\<not> view_IsSpent ?v i \<and> op_hash i \<noteq> t" if "i \<in> set (ptx_vInput ?p)" for i
      using that added(2) off_chain_prev [OF fresh off added(2-4)] unfolding p view_outputs_Some by blast
    show "ptx_time q \<le> ptx_time ?p" if i: "i \<in> set (ptx_vInput ?p)" and q: "mtx ?v (op_hash i) = Some q" for i q
    proof -
      have "db i = None" using off db q by (auto simp: off_chain_def)
      then have mem: "GetOutput (ptx_atx q) (uint (op_n i)) \<in> set vPrev"
        using pooled_input [OF vi added(2-4) db] i q unfolding p by blast
      then have "\<not> out_IsNull (GetOutput (ptx_atx q) (uint (op_n i)))" using added(4) unfolding list_ex_iff by blast
      then show ?thesis using VerifyTransaction_times [OF added(5) mem] unfolding p by (simp add: GetOutput_time)
    qed
  qed
qed (simp add: inv)

lemma pool_Push_inv:
  assumes inv: "pool_inv env pool" and nz: "tx_GetHash env tx \<noteq> 0"
    and ok: "\<And>f h. wl_GetBlockLocation wl (tx_hashAnchor tx) = Some (f, h) \<Longrightarrow>
      view_fresh (pool_view pool f) (tx_GetHash env tx) \<and> off_chain wl f (pool_view pool f) (tx_GetHash env tx)"
    and push: "pool_Push env wl tx ret pool = Some (err, ret', pool')"
  shows "pool_inv env pool'"
proof (cases "om_has (pool_mapTx pool) (tx_GetHash env tx) \<or> IsMintTx tx \<or> wl_GetBlockLocation wl (tx_hashAnchor tx) = None")
  case True
  then have "pool' = pool" using push by (auto simp: pool_Push_def Let_def split: if_splits)
  with inv show ?thesis by simp
next
  case False
  then obtain f h where loc: "wl_GetBlockLocation wl (tx_hashAnchor tx) = Some (f, h)" by auto
  let ?pool = "set_view f (pool_view pool f) pool" and ?t = "tx_GetHash env tx"
  obtain err' where add: "pool_AddNew env wl f ?t tx h ?pool = Some (err', pool')"
    using push False loc by (auto simp: pool_Push_def Let_def split: option.splits if_splits)
  show ?thesis
  proof (rule pool_AddNew_inv [OF pool_inv_touch [OF inv] _ refl nz _ _ add])
    show "pool_txs ?pool ?t = None" using False by (simp add: om_has_def)
  qed (use ok [OF loc] in simp_all)
qed

text \<open>Shrinking one view, and the pool with it.\<close>

lemma view_ordered_mono: "mtx v' \<subseteq>\<^sub>m mtx v \<Longrightarrow> view_ordered v \<Longrightarrow> view_ordered v'"
  unfolding view_ordered_def map_le_def by (metis domI)

lemma pool_shrink_inv:
  assumes inv: "pool_inv env pool" and v: "view_inv v'" "mtx v' \<subseteq>\<^sub>m mtx (pool_view pool f)"
    and m: "om_wf m" "om_get m \<subseteq>\<^sub>m pool_txs pool"
    and keep: "\<And>t. mtx v' t \<noteq> None \<Longrightarrow> om_get m t \<noteq> None"
      "\<And>g t. g \<noteq> f \<Longrightarrow> mtx (pool_view pool g) t \<noteq> None \<Longrightarrow> om_get m t \<noteq> None"
  shows "pool_inv env (set_view f v' (pool\<lparr>pool_mapTx := m\<rparr>))"
proof -
  have ent: "entries_ok env pool" and ok: "views_ok pool" using inv by (simp_all add: pool_inv_def)
  let ?pool = "set_view f v' (pool\<lparr>pool_mapTx := m\<rparr>)"
  have view: "pool_view ?pool g = (if g = f then v' else pool_view pool g)" for g
    by simp
  have sub: "pool_txs pool t = Some p" if "om_get m t = Some p" for t p
    using m(2) that unfolding map_le_def by (metis domI)
  have old: "mtx (pool_view pool g) t = Some p" if "mtx (pool_view ?pool g) t = Some p" for g t p
    using that v(2) unfolding view map_le_def by (auto split: if_splits) (metis domI)
  have "entries_ok env ?pool"
    using ent m(1) sub unfolding entries_ok_def by simp blast
  moreover have "views_ok ?pool"
  proof (rule views_ok_intro)
    show "om_wf (pool_mapPoolView ?pool)" using views_ok_wf [OF ok] by (auto simp: set_view_def)
    show "view_inv (pool_view ?pool g)" "view_ordered (pool_view ?pool g)" for g
      using v(1) views_ok_inv [OF ok, of g] views_ok_ordered [OF ok] view_ordered_mono [OF v(2)] by (auto simp: view)
    show "pool_txs ?pool t = Some p" if p: "mtx (pool_view ?pool g) t = Some p" for g t p
    proof -
      have "om_get m t \<noteq> None" using p keep unfolding view by (auto split: if_splits)
      then obtain q where q: "om_get m t = Some q" by blast
      then show ?thesis using sub [OF q] views_ok_entry [OF ok old [OF p]] by simp
    qed
    show "g = g'" if "mtx (pool_view ?pool g) t \<noteq> None" "mtx (pool_view ?pool g') t \<noteq> None" for g g' t
      using that old views_ok_once [OF ok, of g t g'] by blast
  qed
  ultimately show ?thesis by (simp add: pool_inv_def)
qed

text \<open>Invalidating some output points.\<close>

lemma depends_pooled: "depends v S x \<Longrightarrow> x \<in> dom (mtx v)"
  by (erule depends.cases) auto

lemma InvalidateSpent_shrinks:
  "view_inv v \<Longrightarrow> \<exists>v' ts. InvalidateSpent out (v, acc) = (v', acc @ ts) \<and> view_inv v'
     \<and> set ts \<subseteq> dom (mtx v) \<and> mtx v' = mtx v |` (- set ts)"
  using InvalidateSpent_removes [of v out acc] depends_pooled [of v "{out}"] by blast

lemma fold_InvalidateSpent_shrinks:
  "view_inv v \<Longrightarrow> \<exists>v' ts. fold InvalidateSpent outs (v, acc) = (v', acc @ ts) \<and> view_inv v'
     \<and> set ts \<subseteq> dom (mtx v) \<and> mtx v' = mtx v |` (- set ts)"
proof (induction outs arbitrary: v acc)
  case (Cons out outs)
  obtain v1 ts where 1: "InvalidateSpent out (v, acc) = (v1, acc @ ts)" "view_inv v1" "set ts \<subseteq> dom (mtx v)"
      "mtx v1 = mtx v |` (- set ts)"
    using InvalidateSpent_shrinks [OF Cons.prems, of out acc] by blast
  obtain v2 us where 2: "fold InvalidateSpent outs (v1, acc @ ts) = (v2, (acc @ ts) @ us)" "view_inv v2"
      "set us \<subseteq> dom (mtx v1)" "mtx v2 = mtx v1 |` (- set us)"
    using Cons.IH [OF 1(2), of "acc @ ts"] by blast
  have "mtx v2 = mtx v |` (- set (ts @ us))" "set (ts @ us) \<subseteq> dom (mtx v)"
    using 1(3,4) 2(3,4) by (auto simp: restrict_map_def fun_eq_iff split: if_splits)
  then show ?case using 1(1) 2(1,2) by (intro exI [of _ v2] exI [of _ "ts @ us"]) simp
qed (auto simp: restrict_map_def)

lemma fold_del_get: "om_get (fold om_del ts m) = om_get m |` (- set ts)"
  by (induction ts arbitrary: m) (auto simp: om_get_del restrict_map_def fun_eq_iff)

lemma fold_del_wf: "om_wf m \<Longrightarrow> om_wf (fold om_del ts m)"
  by (induction ts arbitrary: m) auto

text \<open>Dropping from the pool only transactions that were dropped from one view.\<close>

lemma pool_drop_inv:
  assumes inv: "pool_inv env pool" and v: "view_inv v'" "mtx v' = mtx (pool_view pool f) |` (- T)"
    and T: "set us \<subseteq> T" "set us \<subseteq> dom (mtx (pool_view pool f))"
  shows "pool_inv env (set_view f v' (pool\<lparr>pool_mapTx := fold om_del us (pool_mapTx pool)\<rparr>))"
proof (rule pool_shrink_inv [OF inv v(1)])
  have ok: "views_ok pool" "om_wf (pool_mapTx pool)" using inv by (auto simp: pool_inv_def entries_ok_def)
  show "mtx v' \<subseteq>\<^sub>m mtx (pool_view pool f)" using v(2) by (auto simp: map_le_def restrict_map_def split: if_splits)
  show "om_wf (fold om_del us (pool_mapTx pool))" using ok(2) by (rule fold_del_wf)
  show "om_get (fold om_del us (pool_mapTx pool)) \<subseteq>\<^sub>m pool_txs pool"
    by (auto simp: fold_del_get map_le_def restrict_map_def split: if_splits)
  show "om_get (fold om_del us (pool_mapTx pool)) t \<noteq> None" if "mtx v' t \<noteq> None" for t
    using that v(2) T(1) views_ok_entry [OF ok(1), of f t] by (auto simp: fold_del_get restrict_map_def split: if_splits)
  show "om_get (fold om_del us (pool_mapTx pool)) t \<noteq> None" if "g \<noteq> f" "mtx (pool_view pool g) t \<noteq> None" for g t
    using that T(2) views_ok_entry [OF ok(1), of g t] views_ok_once [OF ok(1), of g t f]
    by (auto simp: fold_del_get restrict_map_def split: if_splits)
qed

lemma pool_Pop_inv:
  assumes inv: "pool_inv env pool"
  shows "pool_inv env (pool_Pop wl txid pool)"
proof (cases "pool_txs pool txid")
  case (Some p)
  show ?thesis
  proof (cases "wl_GetBlockLocation wl (tx_hashAnchor (ptx_tx p))")
    case loc: (Some fh)
    then obtain f h where fh: "fh = (f, h)" by fastforce
    let ?v = "pool_view pool f"
    have vi: "view_inv (view_Remove txid ?v)"
      using inv by (simp add: pool_inv_def views_ok_inv view_Remove_inv)
    obtain v' ts where i: "fold InvalidateSpent [CTxOutPoint txid 0, CTxOutPoint txid 1] (view_Remove txid ?v, []) = (v', [] @ ts)"
        "view_inv v'" "set ts \<subseteq> dom (mtx (view_Remove txid ?v))" "mtx v' = mtx (view_Remove txid ?v) |` (- set ts)"
      using fold_InvalidateSpent_shrinks [OF vi] by blast
    then have "pool_Pop wl txid pool = set_view f v' (pool\<lparr>pool_mapTx := fold om_del ts (pool_mapTx pool)\<rparr>)"
      by (simp add: pool_Pop_def Some loc fh)
    moreover have "mtx v' = mtx ?v |` (- insert txid (set ts))" "set ts \<subseteq> dom (mtx ?v)"
      using i(3,4) by (auto simp: mtx_Remove restrict_map_def fun_eq_iff split: if_splits)
    ultimately show ?thesis using pool_drop_inv [OF inv i(2), of f "insert txid (set ts)" ts] by auto
  qed (simp add: pool_Pop_def Some inv)
qed (simp add: pool_Pop_def inv)

text \<open>The loop over the new blocks: the pool is consistent, and what is to be forgotten is in no view.\<close>

definition sync_inv :: "crypto_env \<Rightarrow> sync_state \<Rightarrow> bool" where
  "sync_inv env st \<longleftrightarrow> pool_inv env (sy_pool st)
     \<and> (\<forall>t \<in> set (sy_vInvalidTx st). \<forall>f. mtx (pool_view (sy_pool st) f) t = None)"

lemma sync_inv_note [simp]:
  "sync_inv env (note_update t h st) = sync_inv env st" "sync_inv env (note_new a st) = sync_inv env st"
  by (simp_all add: sync_inv_def note_update_def note_new_def)

lemma sync_add_tx_inv:
  assumes "sync_inv env st"
  shows "sync_inv env (sync_add_tx env upd h (tx, c) st)"
proof -
  let ?f = "upd_hashFork upd" and ?t = "tx_GetHash env tx" and ?pool = "sy_pool st"
  let ?v = "pool_view ?pool ?f"
  have inv: "pool_inv env ?pool" and gone: "\<And>t g. t \<in> set (sy_vInvalidTx st) \<Longrightarrow> mtx (pool_view ?pool g) t = None"
    using assms by (auto simp: sync_inv_def)
  have vi: "view_inv ?v" and once: "\<And>g t. mtx (pool_view ?pool g) t \<noteq> None \<Longrightarrow> mtx ?v t \<noteq> None \<Longrightarrow> g = ?f"
    using inv views_ok_inv views_ok_once unfolding pool_inv_def by blast+
  consider "?t \<in> upd_setTxUpdate upd" | "?t \<notin> upd_setTxUpdate upd" "view_Exists ?v ?t"
    | "?t \<notin> upd_setTxUpdate upd" "\<not> view_Exists ?v ?t" by blast
  then show ?thesis
  proof cases
    case 1
    then show ?thesis using assms by (simp add: sync_add_tx_def)
  next
    case 2
    have "pool_inv env (set_view ?f (view_Remove ?t ?v) (?pool\<lparr>pool_mapTx := fold om_del [?t] (pool_mapTx ?pool)\<rparr>))"
    proof (rule pool_drop_inv [OF inv view_Remove_inv [OF vi]])
      show "mtx (view_Remove ?t ?v) = mtx ?v |` (- {?t})" by (auto simp: mtx_Remove restrict_map_def fun_eq_iff)
      show "set [?t] \<subseteq> dom (mtx ?v)" using 2(2) by (auto simp: view_Exists_def om_has_def)
    qed simp
    moreover have "set_view ?f w ?pool\<lparr>pool_mapTx := m\<rparr> = set_view ?f w (?pool\<lparr>pool_mapTx := m\<rparr>)" for w m
      by (simp add: set_view_def)
    ultimately have "sync_inv env (sync_view ?f (\<lambda>(v, inv). (view_Remove ?t v, inv)) st
        \<lparr>sy_pool := sy_pool (sync_view ?f (\<lambda>(v, inv). (view_Remove ?t v, inv)) st)
           \<lparr>pool_mapTx := om_del ?t (pool_mapTx (sy_pool (sync_view ?f (\<lambda>(v, inv). (view_Remove ?t v, inv)) st)))\<rparr>\<rparr>)"
      using gone by (auto simp: sync_inv_def sync_view_def mtx_Remove)
    then show ?thesis using 2 by (simp add: sync_add_tx_def Let_def)
  next
    case 3
    obtain v' ts where i: "fold InvalidateSpent (tx_vInput tx) (?v, sy_vInvalidTx st) = (v', sy_vInvalidTx st @ ts)"
        "view_inv v'" "set ts \<subseteq> dom (mtx ?v)" "mtx v' = mtx ?v |` (- set ts)"
      using fold_InvalidateSpent_shrinks [OF vi] by blast
    have "pool_inv env (set_view ?f v' ?pool)"
      using pool_drop_inv [OF inv i(2,4), of "[]"] by simp
    moreover have "mtx (pool_view (set_view ?f v' ?pool) g) t = None" if "t \<in> set (sy_vInvalidTx st) \<union> set ts" for t g
    proof (cases "t \<in> set ts")
      case True
      then have "mtx ?v t \<noteq> None" using i(3) by blast
      with True show ?thesis using once [of g t] i(4) by (cases "mtx (pool_view ?pool g) t") auto
    next
      case False
      then show ?thesis using that gone [of t g] gone [of t ?f] i(4) by simp
    qed
    ultimately have "sync_inv env (sync_view ?f (fold InvalidateSpent (tx_vInput tx)) st)"
      by (simp add: sync_inv_def sync_view_def i(1))
    then show ?thesis using 3 by (simp add: sync_add_tx_def)
  qed
qed

lemma ofold_inv: "ofold f xs s = Some s' \<Longrightarrow> P s \<Longrightarrow> (\<And>x s s'. f x s = Some s' \<Longrightarrow> P s \<Longrightarrow> P s') \<Longrightarrow> P s'"
  by (induction xs arbitrary: s) (auto split: option.splits)

lemma fold_inv: "P s \<Longrightarrow> (\<And>x s. P s \<Longrightarrow> P (f x s)) \<Longrightarrow> P (fold f xs s)"
  by (induction xs arbitrary: s) auto

lemma sync_add_block_inv:
  "sync_add_block env upd b (h, st) = Some (h', st') \<Longrightarrow> sync_inv env st \<Longrightarrow> sync_inv env st'"
proof -
  assume st': "sync_add_block env upd b (h, st) = Some (h', st')" and inv: "sync_inv env st"
  have step: "sync_inv env s \<Longrightarrow> sync_inv env (sync_add_tx env upd h x s)" for x s
    using sync_add_tx_inv by (cases x) simp
  let ?m = "blk_txMint (bex_block b)"
  let ?s = "if tx_nAmount ?m \<noteq> 0 then note_new \<lparr>atx_tx = ?m, atx_destIn = dest_null, atx_nValueIn = 0, atx_nBlockHeight = h\<rparr> st else st"
  have "sync_inv env ?s" "st' = fold (sync_add_tx env upd h) (zip (blk_vtx (bex_block b)) (bex_vTxContxt b)) ?s"
    using st' inv by (auto simp: sync_add_block_def Let_def split: if_splits)
  then show ?thesis using fold_inv [where P = "sync_inv env" and f = "sync_add_tx env upd h"] step by blast
qed

text \<open>Forgetting transactions that are in no view.\<close>

lemma forget_tx_inv:
  assumes inv: "pool_inv env pool" and gone: "\<And>f. mtx (pool_view pool f) t = None"
  shows "pool_inv env (fst (forget_tx t (pool, vTx))) \<and> pool_view (fst (forget_tx t (pool, vTx))) = pool_view pool"
proof -
  let ?pool = "pool\<lparr>pool_mapTx := om_del t (pool_mapTx pool)\<rparr>"
  have ent: "entries_ok env pool" and ok: "views_ok pool" using inv by (simp_all add: pool_inv_def)
  have "entries_ok env ?pool"
    using ent unfolding entries_ok_def by (auto simp: om_get_del split: if_splits)
  moreover have "views_ok ?pool"
  proof (rule views_ok_intro, unfold pool_view_update)
    show "pool_txs ?pool x = Some p" if "mtx (pool_view pool f) x = Some p" for f x p
      using that gone [of f] views_ok_entry [OF ok that] by (cases "x = t") (simp_all add: om_get_del)
  qed (use views_ok_wf [OF ok] views_ok_inv [OF ok] views_ok_ordered [OF ok] views_ok_once [OF ok] in \<open>simp_all\<close>)
  ultimately have "pool_inv env ?pool" by (simp add: pool_inv_def)
  then show ?thesis using inv by (simp add: forget_tx_def split: option.splits)
qed

lemma forget_all_inv:
  assumes "pool_inv env pool" and "\<And>t f. t \<in> set ts \<Longrightarrow> mtx (pool_view pool f) t = None"
  shows "pool_inv env (fst (fold forget_tx ts (pool, vTx)))"
  using assms
proof (induction ts arbitrary: pool vTx)
  case (Cons t ts)
  obtain pool' vTx' where f: "forget_tx t (pool, vTx) = (pool', vTx')" by fastforce
  have "pool_inv env pool' \<and> pool_view pool' = pool_view pool"
    using forget_tx_inv [OF Cons.prems(1), of t vTx] Cons.prems(2) f by simp
  then show ?case using Cons.IH [of pool' vTx'] Cons.prems(2) f by simp
qed simp

text \<open>A chain that only grows keeps the pool consistent.\<close>

lemma SynchronizeWorldLine_inv:
  assumes inv: "pool_inv env pool" and grow: "upd_vBlockRemove upd = []"
    and sync: "SynchronizeWorldLine env wl upd pool = Some (change, pool')"
  shows "pool_inv env pool'"
proof -
  let ?st = "\<lparr>sy_pool = set_view (upd_hashFork upd) (pool_view pool (upd_hashFork upd)) pool,
    sy_change = \<lparr>chg_hashFork = upd_hashFork upd, chg_mapTxUpdate = [], chg_vTxAddNew = [], chg_vTxRemove = []\<rparr>,
    sy_vInvalidTx = [], sy_vTxRemove = []\<rparr>"
  obtain h st where st: "ofold (sync_add_block env upd) (rev (upd_vBlockAddNew upd))
        (upd_nLastBlockHeight upd - int (length (upd_vBlockAddNew upd)) + 1, ?st) = Some (h, st)"
      "pool' = fst (fold forget_tx (rev (sy_vInvalidTx st)) (sy_pool st, []))"
    using sync grow by (auto simp: SynchronizeWorldLine_def Let_def split_def split: option.splits)
  have "sync_inv env ?st" using pool_inv_touch [OF inv] by (simp add: sync_inv_def)
  then have "sync_inv env (snd (h, st))"
    using ofold_inv [OF st(1), of "\<lambda>x. sync_inv env (snd x)"] sync_add_block_inv by (metis prod.collapse snd_conv)
  then show ?thesis
    unfolding st(2) sync_inv_def by (intro forget_all_inv) auto
qed

section \<open>Reachable pools\<close>

definition pool_init :: CTxPool where
  "pool_init = \<lparr>pool_mapPoolView = [], pool_mapTx = [], pool_nLastSequenceNumber = 0\<rparr>"

text \<open>The life of a pool while the chain grows: transactions are pushed, whether they are accepted or not,
  popped, fetched, arranged, and removed when blocks confirm them.  A pushed transaction is new to
  the view, its identifier is not 0, and neither it nor the transactions of the view are on the
  chain.\<close>

inductive pool_run :: "crypto_env \<Rightarrow> CTxPool \<Rightarrow> bool" for env where
  start: "pool_run env pool_init"
| push: "pool_run env pool \<Longrightarrow> tx_GetHash env tx \<noteq> 0 \<Longrightarrow>
    (\<And>f h. wl_GetBlockLocation wl (tx_hashAnchor tx) = Some (f, h) \<Longrightarrow>
      view_fresh (pool_view pool f) (tx_GetHash env tx) \<and> off_chain wl f (pool_view pool f) (tx_GetHash env tx)) \<Longrightarrow>
    pool_Push env wl tx ret pool = Some (err, ret', pool') \<Longrightarrow> pool_run env pool'"
| pop: "pool_run env pool \<Longrightarrow> pool_run env (pool_Pop wl txid pool)"
| arrange: "pool_run env pool \<Longrightarrow> pool_run env (snd (pool_ArrangeBlockTx pool f nBlockTime nMaxSize))"
| fetch: "pool_run env pool \<Longrightarrow> pool_run env (snd (pool_FetchInputs wl f tx pool))"
| grow: "pool_run env pool \<Longrightarrow> upd_vBlockRemove upd = [] \<Longrightarrow>
    SynchronizeWorldLine env wl upd pool = Some (change, pool') \<Longrightarrow> pool_run env pool'"
| clear: "pool_run env pool \<Longrightarrow> pool_run env (pool_Clear pool)"

lemma pool_inv_Clear: "pool_inv env (pool\<lparr>pool_mapPoolView := [], pool_mapTx := []\<rparr>)"
  by (simp add: pool_inv_def entries_ok_def views_ok_def)

lemma pool_run_inv: "pool_run env pool \<Longrightarrow> pool_inv env pool"
proof (induction rule: pool_run.induct)
  case start
  show ?case by (simp add: pool_init_def pool_inv_def entries_ok_def views_ok_def)
next
  case (push pool tx wl ret err ret' pool')
  then show ?case using pool_Push_inv [of env pool tx wl ret err ret' pool'] by blast
next
  case (grow pool upd wl change pool')
  then show ?case using SynchronizeWorldLine_inv by blast
qed (simp_all add: pool_Pop_inv pool_ArrangeBlockTx_def pool_FetchInputs_def pool_inv_touch pool_Clear_def pool_inv_Clear)

section \<open>Arranging a block\<close>

lemma fold_om_ins_wf: "om_wf m \<Longrightarrow> om_wf (fold (\<lambda>e. om_ins (k e) (g e)) xs m)"
  by (induction xs arbitrary: m) (auto simp: om_wf_ins)

lemma fold_om_ins_get:
  assumes "inj_on k (set xs)" and "\<And>e. e \<in> set xs \<Longrightarrow> om_get m (k e) = None \<or> om_get m (k e) = Some e"
  shows "om_get (fold (\<lambda>e. om_ins (k e) e) xs m) n = Some x \<longleftrightarrow> om_get m n = Some x \<or> x \<in> set xs \<and> k x = n"
  using assms
proof (induction xs arbitrary: m)
  case (Cons e xs)
  have "om_get (om_ins (k e) e m) (k e') = None \<or> om_get (om_ins (k e) e m) (k e') = Some e'" if "e' \<in> set xs" for e'
    using that Cons.prems by (auto simp: om_get_ins om_has_def inj_on_def)
  then have "om_get (fold (\<lambda>e. om_ins (k e) e) (e # xs) m) n = Some x \<longleftrightarrow>
      om_get (om_ins (k e) e m) n = Some x \<or> x \<in> set xs \<and> k x = n"
    using Cons.IH [of "om_ins (k e) e m"] Cons.prems(1) by (simp add: inj_on_def)
  then show ?case using Cons.prems(2) [of e] by (auto simp: om_get_ins om_has_def split: if_splits)
qed simp

lemma by_sequence_wf: "om_wf (by_sequence P v)"
  unfolding by_sequence_def by (rule fold_om_ins_wf) simp

lemma by_sequence_mem:
  assumes wf: "om_wf (view_mapTx v)"
    and inj: "\<And>t p t' p'. mtx v t = Some p \<Longrightarrow> mtx v t' = Some p' \<Longrightarrow> ptx_nSequenceNumber p = ptx_nSequenceNumber p' \<Longrightarrow> t = t'"
  shows "(n, t, p) \<in> set (by_sequence P v) \<longleftrightarrow> mtx v t = Some p \<and> P (t, p) \<and> ptx_nSequenceNumber p = n"
proof -
  have "inj_on (\<lambda>e. ptx_nSequenceNumber (snd e)) (set (filter P (view_mapTx v)))"
    using inj by (force simp: inj_on_def om_wf_mem [OF wf])
  then show ?thesis
    unfolding om_wf_mem [OF by_sequence_wf] unfolding by_sequence_def
    by (subst fold_om_ins_get) (auto simp: om_wf_mem [OF wf])
qed

lemma om_wf_earlier:
  assumes "om_wf es" and "j < length es" and "e \<in> set es" and "fst e < fst (es ! j)"
  shows "\<exists>l < j. es ! l = e"
proof -
  obtain l where l: "l < length es" "es ! l = e" using assms(3) by (auto simp: in_set_conv_nth)
  have sorted: "sorted_wrt (<) (map fst es)" using assms(1) by (simp add: om_wf_def)
  have "l < j"
  proof (rule ccontr)
    assume "\<not> l < j"
    then consider "j < l" | "j = l" by linarith
    then have "fst (es ! j) \<le> fst (es ! l)"
      using sorted_wrt_nth_less [OF sorted, of j l] l(1) by cases auto
    then show False using assms(4) l(2) by simp
  qed
  with l(2) show ?thesis by blast
qed

text \<open>The loop takes the longest prefix that fits.\<close>

lemma arrange_loop_prefix:
  "\<exists>k \<le> length es. arrange_loop nMax es tot vtx fee =
     (vtx @ map (\<lambda>(_, _, p). ptx_tx p) (take k es), fee + sum_list (map (\<lambda>(_, _, p). tx_nTxFee (ptx_tx p)) (take k es)))
     \<and> (tot \<le> nMax \<longrightarrow> tot + sum_list (map (\<lambda>(_, _, p). ptx_nSerializeSize p) (take k es)) \<le> nMax)
     \<and> (k < length es \<longrightarrow> nMax < tot + sum_list (map (\<lambda>(_, _, p). ptx_nSerializeSize p) (take (Suc k) es)))"
proof (induction es arbitrary: tot vtx fee)
  case (Cons e es)
  obtain n t p where e: "e = (n, t, p)" by (cases e) auto
  show ?case
  proof (cases "tot + ptx_nSerializeSize p > nMax")
    case True
    then show ?thesis by (intro exI [of _ 0]) (simp add: e)
  next
    case False
    obtain k where k: "k \<le> length es"
        "arrange_loop nMax es (tot + ptx_nSerializeSize p) (vtx @ [ptx_tx p]) (fee + tx_nTxFee (ptx_tx p)) =
          ((vtx @ [ptx_tx p]) @ map (\<lambda>(_, _, p). ptx_tx p) (take k es),
           fee + tx_nTxFee (ptx_tx p) + sum_list (map (\<lambda>(_, _, p). tx_nTxFee (ptx_tx p)) (take k es)))"
        "tot + ptx_nSerializeSize p \<le> nMax \<longrightarrow>
          tot + ptx_nSerializeSize p + sum_list (map (\<lambda>(_, _, p). ptx_nSerializeSize p) (take k es)) \<le> nMax"
        "k < length es \<longrightarrow>
          nMax < tot + ptx_nSerializeSize p + sum_list (map (\<lambda>(_, _, p). ptx_nSerializeSize p) (take (Suc k) es))"
      using Cons.IH [of "tot + ptx_nSerializeSize p" "vtx @ [ptx_tx p]" "fee + tx_nTxFee (ptx_tx p)"] by blast
    then show ?thesis using False by (intro exI [of _ "Suc k"]) (simp add: e add.assoc)
  qed
qed simp

text \<open>The candidates for a block, in the order of their sequence numbers.\<close>

definition candidates :: "CTxPoolView \<Rightarrow> int \<Rightarrow> (nat, uint256 \<times> CPooledTx) omap" where
  "candidates v nBlockTime = by_sequence (\<lambda>(_, p). uint (ptx_time p) \<le> nBlockTime) v"

lemma pool_inv_entry:
  assumes "pool_inv env pool" and "mtx (pool_view pool f) t = Some p"
  shows "pool_txs pool t = Some p" "t = tx_GetHash env (ptx_tx p)" "ptx_nSerializeSize p = Size_tx (ptx_tx p)"
  using assms views_ok_entry [of pool f t p] unfolding pool_inv_def entries_ok_def by blast+

lemma pool_inv_sequence:
  assumes inv: "pool_inv env pool" and "mtx (pool_view pool f) t = Some p" and "mtx (pool_view pool f) t' = Some p'"
    and "ptx_nSequenceNumber p = ptx_nSequenceNumber p'"
  shows "t = t'"
  using pool_inv_entry(1) [OF assms(1,2)] pool_inv_entry(1) [OF assms(1,3)] assms(1,4) unfolding pool_inv_def entries_ok_def by blast

lemma candidates_mem:
  assumes inv: "pool_inv env pool"
  shows "(n, t, p) \<in> set (candidates (pool_view pool f) nBlockTime) \<longleftrightarrow>
    mtx (pool_view pool f) t = Some p \<and> uint (ptx_time p) \<le> nBlockTime \<and> ptx_nSequenceNumber p = n"
proof -
  have "om_wf (view_mapTx (pool_view pool f))"
    using inv views_ok_inv [of pool f] view_inv_wfT unfolding pool_inv_def by blast
  then show ?thesis
    unfolding candidates_def by (subst by_sequence_mem) (use pool_inv_sequence [OF inv] in auto)
qed

lemma candidates_wf: "om_wf (candidates v nBlockTime)"
  unfolding candidates_def by (rule by_sequence_wf)

lemma candidate_parent_first:
  assumes inv: "pool_inv env pool" and es: "es = candidates (pool_view pool f) nBlockTime"
    and j: "j < length es" "es ! j = (n, t, p)" and i: "i \<in> set (ptx_vInput p)" "mtx (pool_view pool f) (op_hash i) = Some q"
  shows "\<exists>l < j. es ! l = (ptx_nSequenceNumber q, op_hash i, q)"
proof -
  have mem: "(m, u, r) \<in> set es \<longleftrightarrow> mtx (pool_view pool f) u = Some r \<and> uint (ptx_time r) \<le> nBlockTime \<and> ptx_nSequenceNumber r = m"
    for m u r unfolding es by (rule candidates_mem [OF inv])
  have "(n, t, p) \<in> set es" using nth_mem [OF j(1)] by (simp only: j(2))
  then have p: "mtx (pool_view pool f) t = Some p" "uint (ptx_time p) \<le> nBlockTime" "ptx_nSequenceNumber p = n"
    by (simp_all only: mem)
  have "view_ordered (pool_view pool f)" using views_ok_ordered [of pool f] inv by (simp add: pool_inv_def)
  then have q: "ptx_nSequenceNumber q < n" "ptx_time q \<le> ptx_time p"
    using p(1,3) i unfolding view_ordered_def by blast+
  then have "(ptx_nSequenceNumber q, op_hash i, q) \<in> set es"
    unfolding mem using p(2) i(2) by (simp add: word_le_def)
  moreover have "om_wf es" unfolding es by (rule candidates_wf)
  ultimately show ?thesis using om_wf_earlier [of es j "(ptx_nSequenceNumber q, op_hash i, q)"] j q(1) by simp
qed

lemma ArrangeBlockTx_prefix:
  obtains k where "fst (ArrangeBlockTx v nBlockTime nMaxSize) = map (\<lambda>(_, _, p). ptx_tx p) (take k (candidates v nBlockTime))"
    "snd (ArrangeBlockTx v nBlockTime nMaxSize) = sum_list (map (\<lambda>(_, _, p). tx_nTxFee (ptx_tx p)) (take k (candidates v nBlockTime)))"
    "sum_list (map (\<lambda>(_, _, p). ptx_nSerializeSize p) (take k (candidates v nBlockTime))) \<le> nMaxSize"
    "k \<le> length (candidates v nBlockTime)"
proof -
  obtain k where "k \<le> length (candidates v nBlockTime)" "arrange_loop nMaxSize (candidates v nBlockTime) 0 [] 0 =
      ([] @ map (\<lambda>(_, _, p). ptx_tx p) (take k (candidates v nBlockTime)),
       0 + sum_list (map (\<lambda>(_, _, p). tx_nTxFee (ptx_tx p)) (take k (candidates v nBlockTime))))"
    "0 + sum_list (map (\<lambda>(_, _, p). ptx_nSerializeSize p) (take k (candidates v nBlockTime))) \<le> nMaxSize"
    using arrange_loop_prefix [of "candidates v nBlockTime" nMaxSize 0 "[]" 0] by blast
  then show ?thesis
    using that [of k] unfolding ArrangeBlockTx_def candidates_def [symmetric] by (simp only: fst_conv snd_conv append_Nil add_0)
qed

section \<open>An example\<close>

text \<open>Transactions of the key 7 on a chain with one unspent output.\<close>

definition example_wl :: world_line where
  "example_wl = \<lparr>wl_GetBlockLocation = \<lambda>_. Some (1, 10),
     wl_unspent = \<lambda>f. if f = 1 then Some (\<lambda>i. if i = CTxOutPoint 77 0 then Some example_output else None) else None\<rparr>"

lemma example_accepts:
  assumes "tx_vchSig tx = Save_uint (7 :: uint256) @ replicate 32 0" and "out_destTo u = dest_pubkey 7"
    and "out_nTxTime u \<le> tx_nTimeStamp tx" and "out_nLockUntil u = 0" and "MoneyRange (out_nAmount u)"
    and "tx_nAmount tx + tx_nTxFee tx \<le> out_nAmount u" and "\<not> dest_IsTemplate (tx_sendTo tx)"
  shows "VerifyTransaction example_env tx [u] 10 = Some MV_OK"
proof -
  have h: "idx_nHeight example_index = 10" by simp
  have "dest_VerifyTx example_env (dest_pubkey 7) x a d (Save_uint (7 :: uint256) @ replicate 32 0)" for x a d
    by (simp add: dest_VerifyTx_iff dest_VerifyTxSignature_pubkey CPubKey_Verify_def CryptoVerify_def
        example_env_def length_Save_uint)
  moreover have "tx_sig_part tx (dest_pubkey 7) = Some (Save_uint (7 :: uint256) @ replicate 32 0)"
    using assms(1,7) by (simp add: tx_sig_part_def IsDestInRecorded_def dest_IsTemplate_def dest_pubkey_def)
  ultimately have "VerifyBlockTx example_env tx \<lparr>ctx_destIn = dest_pubkey 7, ctx_vin = map inc_of_output [u]\<rparr> example_index = MV_OK"
    unfolding VerifyBlockTx_iff using assms
    by (simp add: GetValueIn_def inc_of_output_def inc_IsLocked_def lock_active_def)
  moreover have "\<not> IsLockedCoin (dest_pubkey 7)" by (simp add: IsLockedCoin_def dest_IsTemplate_def dest_pubkey_def)
  ultimately show ?thesis
    using VerifyTransaction_iff [OF h, of "[u]" example_env tx] assms(2) by simp
qed

abbreviation example_txid :: uint256 where "example_txid \<equiv> tx_GetHash example_env example_signed"

definition example_child :: CTransaction where
  "example_child = example_signed\<lparr>tx_nTimeStamp := 1515745300, tx_vInput := [CTxOutPoint example_txid 1],
     tx_nAmount := 900000\<rparr>"

lemma tx_GetHash_time: "ucast (drop_bit 224 (tx_GetHash env tx)) = tx_nTimeStamp tx"
  by (simp add: tx_GetHash_def high_low_parts)

lemma tx_GetHash_nonzero: "tx_nTimeStamp tx \<noteq> 0 \<Longrightarrow> tx_GetHash env tx \<noteq> 0"
  using tx_GetHash_time [of env tx] by auto

lemma example_ids: "example_txid \<noteq> 0" "tx_GetHash example_env example_child \<noteq> 0"
    "tx_GetHash example_env example_child \<noteq> example_txid" "example_txid \<noteq> 77"
proof -
  have t: "tx_nTimeStamp example_signed = 1515745200" "tx_nTimeStamp example_child = 1515745300"
    by (simp_all add: example_signed_def example_child_def example_tx_def)
  show "example_txid \<noteq> 0" "tx_GetHash example_env example_child \<noteq> 0" by (rule tx_GetHash_nonzero; simp add: t)+
  show "tx_GetHash example_env example_child \<noteq> example_txid" "example_txid \<noteq> 77"
    using tx_GetHash_time [of example_env example_signed] tx_GetHash_time [of example_env example_child] t by auto
qed

abbreviation pushed :: "CTransaction \<Rightarrow> CTxOutput \<Rightarrow> CTxPool" where
  "pushed tx u \<equiv> pool_insert 1 (tx_GetHash example_env tx) (ptx_of_tx tx (- 1) 1 (out_destTo u) (out_nAmount u)) pool_init"

lemma push_first:
  assumes "VerifyTransaction example_env tx [u] 10 = Some MV_OK" and "tx_vInput tx = [i]" and "\<not> IsMintTx tx"
    and "wl_GetBlockLocation wl (tx_hashAnchor tx) = Some (1, 10)" and "wl_unspent wl 1 = Some db" and "db i = Some u"
    and "\<not> out_IsNull u"
  shows "pool_Push example_env wl tx ret pool_init = Some (MV_OK, (1, out_destTo u, out_nAmount u), pushed tx u)"
proof -
  have none: "pool_view pool_init f = view_Clear" "\<not> view_IsSpent view_Clear i" "view_GetUnspent view_Clear i w = (False, w)" for f i w
    by (simp_all add: pool_view_def pool_init_def view_Clear_def view_IsSpent_def view_GetUnspent_def)
  have null: "out_IsNull out_null" by (simp add: out_IsNull_def out_null_def)
  let ?t = "tx_GetHash example_env tx" and ?p = "ptx_of_tx tx (- 1) 1 (out_destTo u) (out_nAmount u)"
  have "pool_AddNew example_env wl 1 ?t tx 10 (set_view 1 view_Clear pool_init) = Some (MV_OK, pushed tx u)"
    by (simp add: pool_AddNew_def none null assms GetTxUnspent_def GetSequenceNumber_def Let_def split_def om_ins_def om_has_def
        pool_insert_def) (simp add: set_view_def pool_init_def pool_view_def ptx_of_tx_def ptx_of_atx_def)
  moreover have "view_Get (pool_view (pushed tx u) 1) ?t = Some ?p"
    by (simp add: pool_insert_def view_Get_def mtx_AddNew)
  moreover have "ptx_atx ?p = \<lparr>atx_tx = tx, atx_destIn = out_destTo u, atx_nValueIn = out_nAmount u, atx_nBlockHeight = - 1\<rparr>"
    by (simp add: ptx_of_tx_def ptx_of_atx_def)
  ultimately show ?thesis
    by (simp add: pool_Push_def Let_def none assms om_has_def) (simp add: pool_init_def)
qed

lemma pushed_run:
  fixes wl :: world_line
  assumes "VerifyTransaction example_env tx [u] 10 = Some MV_OK" and "tx_vInput tx = [i]" and "\<not> IsMintTx tx"
    and "wl_GetBlockLocation wl (tx_hashAnchor tx) = Some (1, 10)" and "wl_unspent wl 1 = Some db" and "db i = Some u"
    and "\<not> out_IsNull u" and "\<And>j. op_hash j = tx_GetHash example_env tx \<Longrightarrow> db j = None" and "tx_GetHash example_env tx \<noteq> 0"
  shows "pool_run example_env (pushed tx u)"
proof (rule pool_run.push [OF pool_run.start assms(9) _ push_first [OF assms(1-7)]])
  fix f h assume "wl_GetBlockLocation wl (tx_hashAnchor tx) = Some (f, h)"
  then have "f = 1" using assms(4) by simp
  moreover have "pool_view pool_init f = view_Clear" by (simp add: pool_view_def pool_init_def)
  ultimately show "view_fresh (pool_view pool_init f) (tx_GetHash example_env tx) \<and> off_chain wl f (pool_view pool_init f) (tx_GetHash example_env tx)"
    using assms(5,8) by (simp add: view_fresh_def off_chain_def view_Clear_def)
qed

lemma example_pool_run: "pool_run example_env (pushed example_signed example_output)"
proof (rule pushed_run [where wl = example_wl])
  show "VerifyTransaction example_env example_signed [example_output] 10 = Some MV_OK" by (rule example_signed_accepted)
  show "tx_vInput example_signed = [CTxOutPoint 77 0]" by (simp add: example_signed_def)
  show "\<not> IsMintTx example_signed" by (simp add: IsMintTx_def example_signed_def example_tx_def tx_null_def)
  show "wl_unspent example_wl 1 = Some (\<lambda>i. if i = CTxOutPoint 77 0 then Some example_output else None)"
    by (simp add: example_wl_def)
  show "\<not> out_IsNull example_output" by (simp add: out_IsNull_def example_output_def dest_IsNull_def dest_pubkey_def)
qed (use example_ids in \<open>auto simp: example_wl_def\<close>)

section \<open>Properties\<close>





end
