(* ===== verification/PoolSync.thy ===== *)
theory PoolSync
  imports PoolInvariant
begin

text \<open>
  What the pool does with dependent transactions when one of them leaves: the transactions that
  \<^verbatim>\<open>InvalidateSpent\<close> removes, what \<^verbatim>\<open>Pop\<close> leaves behind, and two places of \<^verbatim>\<open>SynchronizeWorldLine\<close> where the
  record of spent outputs and the pooled transactions part.
\<close>

section \<open>Leaving the pool\<close>

lemma InvalidateSpent_unspent:
  "\<not> view_IsSpent v out \<Longrightarrow> InvalidateSpent out (v, acc) = (v, acc)"
  by (cases "msp v out") (simp_all add: InvalidateSpent_def view_GetSpent_def view_IsSpent_def)

text \<open>What depends on two outputs is what depends on the first, and on the second after that is gone.\<close>

lemma depends_mono:
  assumes "depends v S t" and "S \<subseteq> S'" and "\<And>t p. mtx v t = Some p \<Longrightarrow> mtx v' t = Some p"
  shows "depends v' S' t"
  using assms(1)
proof induction
  case (direct t p i)
  then show ?case using depends.direct [of v' t p i S'] assms(2,3) by blast
next
  case (through t t' p n)
  then show ?case using depends.through [of v' S' t t' p n] assms(3) by blast
qed

lemma depends_two:
  assumes "mtx v1 = mtx v |` (- {t. depends v {a} t})"
  shows "depends v {a, b} t \<longleftrightarrow> depends v {a} t \<or> depends v1 {b} t"
proof
  assume "depends v {a, b} t"
  then show "depends v {a} t \<or> depends v1 {b} t"
  proof induction
    case (direct t p i)
    then show ?case
      using depends.direct [of v t p i "{a}"] depends.direct [of v1 t p i "{b}"] assms by (cases "depends v {a} t") auto
  next
    case (through t t' p n)
    then show ?case
      using depends.through [of v "{a}" t t' p n] depends.through [of v1 "{b}" t t' p n] assms by (cases "depends v {a} t'") auto
  qed
next
  have sub: "mtx v x = Some p" if "mtx v1 x = Some p" for x p using that by (auto simp: assms restrict_map_def split: if_splits)
  assume "depends v {a} t \<or> depends v1 {b} t"
  then show "depends v {a, b} t" using depends_mono [of v "{a}" t "{a, b}" v] depends_mono [of v1 "{b}" t "{a, b}" v] sub by blast
qed

text \<open>A transaction whose outputs are lost may as well be gone itself.\<close>

lemma depends_Remove:
  assumes "x \<noteq> txid"
  shows "depends (view_Remove txid v) {CTxOutPoint txid 0, CTxOutPoint txid 1} x \<longleftrightarrow> depends v {CTxOutPoint txid 0, CTxOutPoint txid 1} x"
    (is "depends ?v0 ?S x \<longleftrightarrow> _")
proof
  assume "depends ?v0 ?S x"
  then show "depends v ?S x" by (rule depends_mono) (auto simp: mtx_Remove split: if_splits)
next
  assume "depends v ?S x"
  then show "depends ?v0 ?S x"
    using assms
  proof induction
    case (direct t p i)
    then show ?case using depends.direct [of ?v0 t p i ?S] by (simp add: mtx_Remove)
  next
    case (through t t' p n)
    then have p: "mtx ?v0 t' = Some p" by (simp add: mtx_Remove)
    show ?case
    proof (cases "t = txid")
      case True
      then show ?thesis using depends.direct [OF p through(3)] through(4) by auto
    next
      case False
      then show ?thesis using depends.through [OF _ p through(3,4)] through(5) by blast
    qed
  qed
qed

lemma pool_Pop_view:
  assumes inv: "pool_inv env pool" and p: "pool_txs pool txid = Some p"
    and loc: "wl_GetBlockLocation wl (tx_hashAnchor (ptx_tx p)) = Some (f, h)"
  obtains v ts where "pool_Pop wl txid pool = set_view f v (pool\<lparr>pool_mapTx := fold om_del ts (pool_mapTx pool)\<rparr>)"
    "mtx v = mtx (pool_view pool f) |` (- insert txid (set ts))" "txid \<notin> set ts"
    "\<forall>t. t \<noteq> txid \<longrightarrow> t \<in> set ts \<longleftrightarrow> depends (pool_view pool f) {CTxOutPoint txid 0, CTxOutPoint txid 1} t"
proof -
  let ?v = "pool_view pool f"
  let ?w = "view_Remove txid ?v" and ?a = "CTxOutPoint txid 0" and ?b = "CTxOutPoint txid 1"
  have v0: "view_inv ?w" using inv views_ok_inv [of pool f] view_Remove_inv by (auto simp: pool_inv_def)
  obtain v1 ts1 where 1: "InvalidateSpent ?a (?w, []) = (v1, [] @ ts1)" "view_inv v1"
      "set ts1 = {t. depends ?w {?a} t}" "mtx v1 = mtx ?w |` (- set ts1)"
    using InvalidateSpent_removes [OF v0, of ?a "[]"] by blast
  obtain v2 ts2 where 2: "InvalidateSpent ?b (v1, ts1) = (v2, ts1 @ ts2)"
      "set ts2 = {t. depends v1 {?b} t}" "mtx v2 = mtx v1 |` (- set ts2)"
    using InvalidateSpent_removes [OF 1(2), of ?b ts1] by blast
  have dep: "t \<in> set (ts1 @ ts2) \<longleftrightarrow> depends ?w {?a, ?b} t" for t
    using depends_two [of v1 ?w ?a ?b t] 1(3,4) 2(2) by simp
  show ?thesis
  proof (rule that [of v2 "ts1 @ ts2"])
    show "pool_Pop wl txid pool = set_view f v2 (pool\<lparr>pool_mapTx := fold om_del (ts1 @ ts2) (pool_mapTx pool)\<rparr>)"
      using 1(1) 2(1) p loc by (simp add: pool_Pop_def)
    show "mtx v2 = mtx ?v |` (- insert txid (set (ts1 @ ts2)))"
      unfolding 2(3) 1(4) mtx_Remove by (auto simp: fun_eq_iff restrict_map_def)
    show "txid \<notin> set (ts1 @ ts2)" using dep [of txid] depends_pooled [of ?w "{?a, ?b}" txid] by (auto simp: mtx_Remove dom_def)
    show "\<forall>t. t \<noteq> txid \<longrightarrow> t \<in> set (ts1 @ ts2) \<longleftrightarrow> depends ?v {?a, ?b} t" using dep depends_Remove [of _ txid ?v] by blast
  qed
qed

section \<open>Outputs of confirmed transactions\<close>

text \<open>An unspent output of a transaction that is not pooled survives \<^verbatim>\<open>InvalidateSpent\<close>.\<close>

lemma drop_tx_keeps:
  assumes "view_inv v" and "mtx v t = Some p" and "\<not> view_IsSpent v i" and "op_hash i \<noteq> t"
  shows "msp (fst (drop_tx t p v w)) i = msp v i"
proof -
  have "i \<notin> set (ptx_vInput p)" using view_inv_input_spent [OF assms(1,2)] assms(3) by blast
  moreover have "i \<noteq> CTxOutPoint t n" for n using assms(4) by auto
  ultimately show ?thesis unfolding drop_tx_steps Let_def by (simp add: msp_drop_output msp_fold_SetUnspent)
qed

lemma invalidate_loop_keeps:
  assumes "view_inv v" and "\<not> view_IsSpent v i" and "mtx v (op_hash i) = None"
  shows "msp (fst (invalidate_loop v outs acc)) i = msp v i"
  using assms
proof (induction v outs acc rule: invalidate_loop.induct)
  case (2 v out outs acc)
  from 2(4) show ?case
  proof (cases rule: view_GetSpent_cases [of v out])
    case unspent
    then show ?thesis using 2(3) [OF unspent(2) [symmetric] _ 2(4-6)] by (auto split: prod.splits)
  next
    case (spent t p)
    obtain v1 outs1 where d: "drop_tx t p v outs = (v1, outs1)" by fastforce
    have keep: "msp v1 i = msp v i" using drop_tx_keeps [OF 2(4) spent(3) 2(5), of outs] 2(6) spent(3) d by force
    have "mtx v1 (op_hash i) = None" using drop_tx_mapTx [of t p v outs] d 2(6) by (simp add: om_get_del)
    moreover have "view_inv v1" using drop_tx_inv [OF 2(4) spent(3), of outs] d by simp
    moreover have "\<not> view_IsSpent v1 i" using 2(5) keep by (simp add: view_IsSpent_iff)
    ultimately show ?thesis
      using 2(2) [OF spent(1) [symmetric] TrueI spent(2) d [symmetric]] keep by (simp add: spent(1,2) d)
  qed
qed simp

lemma fold_InvalidateSpent_keeps:
  assumes "view_inv v" and "\<not> view_IsSpent v i" and "mtx v (op_hash i) = None"
  shows "msp (fst (fold InvalidateSpent outs (v, acc))) i = msp v i"
  using assms
proof (induction outs arbitrary: v acc)
  case (Cons out outs)
  obtain v1 ts where 1: "InvalidateSpent out (v, acc) = (v1, acc @ ts)" "view_inv v1" "mtx v1 = mtx v |` (- set ts)"
    using InvalidateSpent_shrinks [OF Cons.prems(1), of out acc] by blast
  have keep: "msp v1 i = msp v i"
    using invalidate_loop_keeps [OF Cons.prems, of "[out]" acc] 1(1) by (simp add: InvalidateSpent_def)
  then have "\<not> view_IsSpent v1 i" "mtx v1 (op_hash i) = None" using Cons.prems 1(3) by (simp_all add: view_IsSpent_iff restrict_map_def)
  then show ?case using Cons.IH [OF 1(2)] keep 1(1) by simp
qed simp

lemma view_Remove_keeps:
  assumes "view_inv v" and "\<not> view_IsSpent v i"
  shows "msp (view_Remove t v) i = msp v i"
proof (cases "mtx v t")
  case (Some p)
  then have "i \<notin> set (ptx_vInput p)" using view_inv_input_spent [OF assms(1)] assms(2) by blast
  then show ?thesis by (simp add: view_Remove_def view_Get_def Some msp_fold_SetUnspent)
qed (simp add: view_Remove_def view_Get_def)

section \<open>Rolling back\<close>

lemma sync_remove_tx_added:
  assumes add: "pool_AddNew env wl (upd_hashFork upd) (tx_GetHash env tx) tx (upd_nLastBlockHeight upd) (sy_pool st) = Some (MV_OK, pool')"
    and "tx_GetHash env tx \<notin> upd_setTxUpdate upd"
    and un0: "\<not> view_IsSpent (pool_view (sy_pool st) (upd_hashFork upd)) (CTxOutPoint (tx_GetHash env tx) 0)"
    and sp1: "view_IsSpent (pool_view (sy_pool st) (upd_hashFork upd)) (CTxOutPoint (tx_GetHash env tx) 1)"
  obtains st' where "sync_remove_tx env wl upd tx st = Some st'"
    "sy_pool st' = set_view (upd_hashFork upd) (view_SetSpent (CTxOutPoint (tx_GetHash env tx) 1) 0 (pool_view pool' (upd_hashFork upd))) pool'"
proof -
  have "snd (view_GetSpent (pool_view (sy_pool st) (upd_hashFork upd)) (CTxOutPoint (tx_GetHash env tx) 0) 0) = 0"
    using un0 by (auto simp: view_IsSpent_def view_GetSpent_def spent_IsSpent_def split: option.splits)
  moreover have "snd (view_GetSpent (pool_view (sy_pool st) (upd_hashFork upd)) (CTxOutPoint (tx_GetHash env tx) 1) 0) \<noteq> 0"
    using sp1 by (auto simp: view_IsSpent_def view_GetSpent_def spent_IsSpent_def split: option.splits)
  ultimately have "\<exists>st'. sync_remove_tx env wl upd tx st = Some st' \<and>
      sy_pool st' = set_view (upd_hashFork upd) (view_SetSpent (CTxOutPoint (tx_GetHash env tx) 1) 0 (pool_view pool' (upd_hashFork upd))) pool'"
    using assms(2) by (simp add: sync_remove_tx_def Let_def add sync_view_def note_update_def)
  then show ?thesis using that by blast
qed

section \<open>Properties\<close>





text \<open>Property C35: when a block is rolled back and one of its transactions returns to the pool while a
  pooled transaction spends only its second output, \<^verbatim>\<open>SynchronizeWorldLine\<close> records the spender of the
  first output for the second one.  The second output counts as unspent, the spender is no longer
  reached by \<^verbatim>\<open>InvalidateSpent\<close>, and it is numbered before the transaction it spends.\<close>

theorem rollback_forgets_change_spender:
  assumes "pool_run env (sy_pool st)" and "f = upd_hashFork upd" and "txid = tx_GetHash env tx"
    and "view_Get (pool_view (sy_pool st) f) child = Some q" and "CTxOutPoint txid 1 \<in> set (ptx_vInput q)"
    and "\<not> view_IsSpent (pool_view (sy_pool st) f) (CTxOutPoint txid 0)"
    and "\<not> pool_Exists (sy_pool st) txid" and "txid \<notin> upd_setTxUpdate upd"
    and "map_option fst (pool_AddNew env wl f txid tx (upd_nLastBlockHeight upd) (sy_pool st)) = Some MV_OK"
  shows "\<exists>st' v' p. sync_remove_tx env wl upd tx st = Some st' \<and> v' = pool_view (sy_pool st') f
    \<and> view_Get v' txid = Some p \<and> view_Get v' child = Some q \<and> ptx_nSequenceNumber q < ptx_nSequenceNumber p
    \<and> \<not> view_IsSpent v' (CTxOutPoint txid 1) \<and> InvalidateSpent (CTxOutPoint txid 1) (v', []) = (v', [])"
proof -
  let ?v = "pool_view (sy_pool st) f"
  have inv: "pool_inv env (sy_pool st)" by (rule pool_run_inv [OF assms(1)])
  have vi: "view_inv ?v" using inv views_ok_inv [of "sy_pool st" f] by (simp add: pool_inv_def)
  have q: "mtx ?v child = Some q" using assms(4) by (simp add: view_Get_def)
  have none: "pool_txs (sy_pool st) txid = None" using assms(7) by (simp add: pool_Exists_def om_has_def)
  obtain pool' where add: "pool_AddNew env wl f txid tx (upd_nLastBlockHeight upd) (sy_pool st) = Some (MV_OK, pool')"
    using assms(9) by auto
  obtain p where pool': "pool' = pool_insert f txid p (sy_pool st)" and p: "ptx_nSequenceNumber p = next_sequence (sy_pool st)"
    by (rule pool_AddNew_cases [OF add none]) (simp_all add: ptx_of_tx_def ptx_of_atx_def)
  obtain st' where st': "sync_remove_tx env wl upd tx st = Some st'"
      "sy_pool st' = set_view f (view_SetSpent (CTxOutPoint txid 1) 0 (pool_view pool' f)) pool'"
    using sync_remove_tx_added [OF add [unfolded assms(2,3)] assms(8,6) [unfolded assms(2,3)]]
      view_inv_input_spent [OF vi q assms(5)] unfolding assms(2,3) by blast
  have child: "child \<noteq> txid" "pool_txs (sy_pool st) child = Some q" using pool_inv_entry(1) [OF inv q] none by auto
  have "view_Get (pool_view (sy_pool st') f) txid = Some p" "view_Get (pool_view (sy_pool st') f) child = Some q"
    using child(1) q by (simp_all add: st'(2) pool' pool_insert_def view_Get_def mtx_AddNew)
  moreover have "ptx_nSequenceNumber q < ptx_nSequenceNumber p"
    using next_sequence_gt [of env, OF _ child(2)] inv by (simp add: p pool_inv_def)
  moreover have un: "\<not> view_IsSpent (pool_view (sy_pool st') f) (CTxOutPoint txid 1)"
    by (simp add: st'(2) view_SetSpent_def view_IsSpent_def om_get_set spent_by_def spent_IsSpent_def)
  ultimately show ?thesis using st'(1) InvalidateSpent_unspent [OF un] by blast
qed

text \<open>The chain in which the parent is confirmed: its change is unspent.\<close>

definition example_change :: CTxOutput where
  "example_change = \<lparr>out_destTo = dest_pubkey 7, out_nAmount = 999900, out_nTxTime = 1515745200, out_nLockUntil = 0\<rparr>"

definition example_wl2 :: world_line where
  "example_wl2 = example_wl\<lparr>wl_unspent := (\<lambda>f. if f = 1 then Some (\<lambda>i. if i = CTxOutPoint example_txid 1 then Some example_change else None) else None)\<rparr>"

lemma example_child_run: "pool_run example_env (pushed example_child example_change)"
proof (rule pushed_run [where wl = example_wl2])
  show "VerifyTransaction example_env example_child [example_change] 10 = Some MV_OK"
    by (rule example_accepts) (simp_all add: example_child_def example_change_def example_signed_def example_tx_def
      MoneyRange_def dest_IsTemplate_def dest_pubkey_def tx_null_def)
  show "tx_vInput example_child = [CTxOutPoint example_txid 1]" by (simp add: example_child_def)
  show "\<not> IsMintTx example_child" by (simp add: IsMintTx_def example_child_def example_signed_def example_tx_def tx_null_def)
  show "wl_unspent example_wl2 1 = Some (\<lambda>i. if i = CTxOutPoint example_txid 1 then Some example_change else None)"
    by (simp add: example_wl2_def)
  show "\<not> out_IsNull example_change" by (simp add: out_IsNull_def example_change_def dest_IsNull_def dest_pubkey_def)
qed (use example_ids in \<open>auto simp: example_wl2_def example_wl_def\<close>)

definition example_upd :: CWorldLineUpdate where
  "example_upd = \<lparr>upd_hashFork = 1, upd_nLastBlockHeight = 10, upd_setTxUpdate = {}, upd_vBlockAddNew = [], upd_vBlockRemove = []\<rparr>"

definition example_sync :: "CTxPool \<Rightarrow> sync_state" where
  "example_sync pool = \<lparr>sy_pool = pool, sy_change = \<lparr>chg_hashFork = 1, chg_mapTxUpdate = [], chg_vTxAddNew = [], chg_vTxRemove = []\<rparr>,
     sy_vInvalidTx = [], sy_vTxRemove = []\<rparr>"

lemma example_child_id: "tx_GetHash example_env example_child \<noteq> 77"
  using tx_GetHash_time [of example_env example_child] by (auto simp: example_child_def)

lemma example_readded:
  "map_option fst (pool_AddNew example_env example_wl 1 example_txid example_signed 10 (pushed example_child example_change)) = Some MV_OK"
proof -
  let ?v = "pool_view (pushed example_child example_change) 1"
  have "msp ?v (CTxOutPoint 77 0) = None"
    using example_ids example_child_id by (simp add: pool_insert_def msp_AddNew ptx_of_tx_def ptx_of_atx_def)
      (simp add: pool_view_def pool_init_def view_Clear_def example_child_def)
  then have "view_outputs ?v (tx_vInput example_signed) = Some [out_null]"
    by (simp add: view_IsSpent_def view_GetUnspent_def example_signed_def)
  moreover have "GetTxUnspent example_wl 1 (tx_vInput example_signed) [out_null] = Some [example_output]"
    by (simp add: GetTxUnspent_def example_wl_def example_signed_def out_IsNull_def out_null_def)
  moreover have "\<not> out_IsNull example_output" by (simp add: out_IsNull_def example_output_def dest_IsNull_def dest_pubkey_def)
  ultimately show ?thesis
    by (simp add: pool_AddNew_def example_signed_accepted split_def Let_def)
qed

theorem rollback_forgets_change_spender_witness:
  "\<exists>st'. sync_remove_tx example_env example_wl example_upd example_signed (example_sync (pushed example_child example_change)) = Some st'
     \<and> view_Exists (pool_view (sy_pool st') 1) (tx_GetHash example_env example_child)
     \<and> \<not> view_IsSpent (pool_view (sy_pool st') 1) (CTxOutPoint example_txid 1)"
proof -
  let ?pool = "pushed example_child example_change" and ?c = "tx_GetHash example_env example_child"
  let ?q = "ptx_of_tx example_child (- 1) 1 (out_destTo example_change) (out_nAmount example_change)"
  have un0: "\<not> view_IsSpent (pool_view ?pool 1) (CTxOutPoint example_txid 0)"
    using example_ids by (simp add: view_IsSpent_def pool_insert_def msp_AddNew ptx_of_tx_def ptx_of_atx_def example_child_def)
      (simp add: pool_view_def pool_init_def view_Clear_def)
  have q: "view_Get (pool_view ?pool 1) ?c = Some ?q" by (simp add: pool_insert_def view_Get_def mtx_AddNew)
  have i: "CTxOutPoint example_txid 1 \<in> set (ptx_vInput ?q)" by (simp add: ptx_of_tx_def ptx_of_atx_def example_child_def)
  have ex: "\<not> pool_Exists ?pool example_txid"
    using example_ids by (simp add: pool_Exists_def om_has_def pool_insert_def set_view_def om_get_set pool_init_def)
  show ?thesis
    using rollback_forgets_change_spender [where st = "example_sync ?pool" and upd = example_upd and f = 1 and tx = example_signed
        and child = ?c and q = ?q and env = example_env and wl = example_wl and txid = example_txid] example_child_run un0 q i ex example_readded
    by (auto simp: example_sync_def example_upd_def view_Exists_def om_has_def view_Get_def)
qed

text \<open>Property C36: when the chain confirms a pooled transaction and later a transaction that the pool has never
  seen spends one of its outputs, the pool still lists this output as unspent, and hands it to every new
  transaction without asking the chain, which only supplies outputs the pool does not know.\<close>

theorem confirmed_output_respendable:
  assumes "pool_run env (sy_pool st)" and "f = upd_hashFork upd" and "i = CTxOutPoint (tx_GetHash env tx) n"
    and "view_Exists (pool_view (sy_pool st) f) (tx_GetHash env tx)"
    and "view_GetUnspent (pool_view (sy_pool st) f) i out_null = (True, u)"
    and "tx_GetHash env tx \<notin> upd_setTxUpdate upd" and "tx_GetHash env tx2 \<notin> upd_setTxUpdate upd"
    and "\<not> view_Exists (pool_view (sy_pool st) f) (tx_GetHash env tx2)" and "i \<in> set (tx_vInput tx2)"
    and "wl_unspent wl f = Some db" and "db i = None"
    and "st' = sync_add_tx env upd h2 (tx2, c2) (sync_add_tx env upd h (tx, c) st)"
  shows "view_outputs (pool_view (sy_pool st') f) [i] = Some [u] \<and> GetTxUnspent wl f [i] [u] = Some [u]"
proof -
  let ?t = "tx_GetHash env tx" and ?v = "pool_view (sy_pool st) f"
  let ?v1 = "view_Remove ?t ?v"
  have vi: "view_inv ?v" using pool_run_inv [OF assms(1)] views_ok_inv [of "sy_pool st" f] by (simp add: pool_inv_def)
  obtain s where s: "msp ?v i = Some s" "\<not> spent_IsSpent s" "spent_output s = u" "\<not> out_IsNull u"
    using assms(5) by (auto simp: view_GetUnspent_def split: option.splits if_splits)
  have un: "\<not> view_IsSpent ?v i" using s by (simp add: view_IsSpent_iff)
  have v1: "pool_view (sy_pool (sync_add_tx env upd h (tx, c) st)) f = ?v1"
    using assms(2,4,6) by (simp add: sync_add_tx_def Let_def sync_view_def note_update_def)
  have m1: "mtx ?v1 = (mtx ?v)(?t := None)" by (rule mtx_Remove)
  have k1: "msp ?v1 i = Some s" using view_Remove_keeps [OF vi un] s(1) by simp
  have un1: "\<not> view_IsSpent ?v1 i" using k1 s(2) by (simp add: view_IsSpent_iff)
  have "\<not> view_Exists ?v1 (tx_GetHash env tx2)" using assms(8) by (simp add: view_Exists_def om_has_def m1)
  then have "pool_view (sy_pool st') f = fst (fold InvalidateSpent (tx_vInput tx2) (?v1, sy_vInvalidTx (sync_add_tx env upd h (tx, c) st)))"
    using v1 assms(2,7) unfolding assms(12) by (simp add: sync_add_tx_def [of env upd h2] Let_def sync_view_def note_new_def split_def)
  then have "msp (pool_view (sy_pool st') f) i = Some s"
    using fold_InvalidateSpent_keeps [OF view_Remove_inv [OF vi] un1] m1 k1 assms(3) by simp
  then show ?thesis using s assms(10) by (simp add: view_IsSpent_def view_GetUnspent_def GetTxUnspent_def)
qed

theorem confirmed_output_respendable_witness:
  "\<exists>u. view_outputs (pool_view (sy_pool (sync_add_tx example_env example_upd 12 (example_child, ctx_null)
       (sync_add_tx example_env example_upd 11 (example_signed, ctx_null) (example_sync (pushed example_signed example_output))))) 1)
       [CTxOutPoint example_txid 1] = Some [u]"
proof -
  let ?pool = "pushed example_signed example_output"
  let ?p = "ptx_of_tx example_signed (- 1) 1 (out_destTo example_output) (out_nAmount example_output)"
  let ?u = "GetOutput (ptx_atx ?p) 1"
  have u: "\<not> out_IsNull ?u"
    by (simp add: GetOutput_def ptx_of_tx_def ptx_of_atx_def out_IsNull_def example_signed_def example_tx_def example_output_def
        atx_GetChange_def dest_IsNull_def dest_pubkey_def tx_null_def)
  have v: "pool_view ?pool 1 = view_AddNew example_txid ?p (pool_view pool_init 1)" by (simp add: pool_insert_def)
  have get: "view_GetUnspent (pool_view ?pool 1) (CTxOutPoint example_txid 1) out_null = (True, ?u)"
    unfolding v view_GetUnspent_def msp_AddNew using u by simp
  have ex: "view_Exists (pool_view ?pool 1) example_txid" "\<not> view_Exists (pool_view ?pool 1) (tx_GetHash example_env example_child)"
    unfolding v view_Exists_def om_has_def mtx_AddNew using example_ids by simp_all (simp add: pool_view_def pool_init_def view_Clear_def)
  have "view_outputs (pool_view (sy_pool (sync_add_tx example_env example_upd 12 (example_child, ctx_null)
       (sync_add_tx example_env example_upd 11 (example_signed, ctx_null) (example_sync ?pool)))) 1) [CTxOutPoint example_txid 1] = Some [?u]
     \<and> GetTxUnspent example_wl 1 [CTxOutPoint example_txid 1] [?u] = Some [?u]"
  proof (rule confirmed_output_respendable [where upd = example_upd and n = 1 and tx = example_signed and st = "example_sync ?pool" and f = 1])
    show "wl_unspent example_wl 1 = Some (\<lambda>i. if i = CTxOutPoint 77 0 then Some example_output else None)"
      by (simp add: example_wl_def)
  qed (use example_pool_run get ex example_ids in \<open>simp_all add: example_sync_def example_upd_def example_child_def\<close>)
  then show ?thesis by blast
qed

end
