(* ===== verification/BlockView.thy ===== *)
theory BlockView
  imports TxPool
begin

text \<open>
  \<^verbatim>\<open>CBlockView\<close> (\<^verbatim>\<open>storage/blockbase.h\<close>, \<^verbatim>\<open>blockbase.cpp\<close>): the changes that the blocks of a branch make to the unspent
  outputs of a fork, kept apart from the database until they are committed.  Every output point that a
  transaction touches has an entry with the output and a counter of the changes; only entries with a counter
  other than zero are written.

  The specification is a map of unspent outputs on which a transaction is applied or taken back.  The view
  over a database answers like this map, and writing the changes makes the database equal to it.
\<close>

section \<open>The view\<close>

record CTxUnspent =
  unspent_out :: CTxOutPoint
  unspent_output :: CTxOutput

record CUnspent =
  cu_output :: CTxOutput
  cu_nOpt :: int

definition cu_new :: CUnspent where
  "cu_new = \<lparr>cu_output = out_null, cu_nOpt = 0\<rparr>"

definition cu_Enable :: "CTxOutput \<Rightarrow> CUnspent \<Rightarrow> CUnspent" where
  "cu_Enable u c = \<lparr>cu_output = u, cu_nOpt = cu_nOpt c + 1\<rparr>"

definition cu_Disable :: "CUnspent \<Rightarrow> CUnspent" where
  "cu_Disable c = \<lparr>cu_output = out_null, cu_nOpt = cu_nOpt c - 1\<rparr>"

definition cu_IsModified :: "CUnspent \<Rightarrow> bool" where
  "cu_IsModified c \<longleftrightarrow> cu_nOpt c \<noteq> 0"

record CBlockView =
  bv_spFork :: "uint256 option"
  bv_hashFork :: uint256
  bv_fCommittable :: bool
  bv_mapTx :: "(uint256, CTransaction) omap"
  bv_mapUnspent :: "(CTxOutPoint, CUnspent) omap"
  bv_vTxRemove :: "uint256 list"
  bv_vTxAddNew :: "uint256 list"

text \<open>\<^verbatim>\<open>Initialize\<close> on a new view: nothing has changed yet.  The fork is named by its key in the container.\<close>

definition bv_Initialize :: "uint256 option \<Rightarrow> uint256 \<Rightarrow> bool \<Rightarrow> CBlockView" where
  "bv_Initialize spFork hashFork fCommittable =
     \<lparr>bv_spFork = spFork, bv_hashFork = hashFork, bv_fCommittable = fCommittable, bv_mapTx = [], bv_mapUnspent = [],
      bv_vTxRemove = [], bv_vTxAddNew = []\<rparr>"

text \<open>The questions to the container behind the view are arguments: whether it has a transaction, the
  transaction, and an unspent output of the fork.\<close>

definition bv_ExistsTx :: "(uint256 \<Rightarrow> bool) \<Rightarrow> CBlockView \<Rightarrow> uint256 \<Rightarrow> bool" where
  "bv_ExistsTx existsTx v txid =
     (case om_get (bv_mapTx v) txid of Some tx \<Rightarrow> \<not> tx_IsNull tx | None \<Rightarrow> existsTx txid)"

definition bv_RetrieveTx :: "(uint256 \<Rightarrow> bool \<times> CTransaction) \<Rightarrow> CBlockView \<Rightarrow> uint256 \<Rightarrow> bool \<times> CTransaction" where
  "bv_RetrieveTx retrieveTx v txid =
     (case om_get (bv_mapTx v) txid of Some tx \<Rightarrow> (\<not> tx_IsNull tx, tx) | None \<Rightarrow> retrieveTx txid)"

definition bv_RetrieveUnspent ::
  "(CTxOutPoint \<Rightarrow> CTxOutput option) \<Rightarrow> CBlockView \<Rightarrow> CTxOutPoint \<Rightarrow> CTxOutput \<Rightarrow> bool \<times> CTxOutput" where
  "bv_RetrieveUnspent db v out unspent =
     (case om_get (bv_mapUnspent v) out of
        Some c \<Rightarrow> (\<not> out_IsNull (cu_output c), cu_output c)
      | None \<Rightarrow> (case db out of Some u \<Rightarrow> (True, u) | None \<Rightarrow> (False, unspent)))"

text \<open>\<^verbatim>\<open>mapUnspent[out]\<close> creates the entry when it is missing.\<close>

definition bv_upd :: "CTxOutPoint \<Rightarrow> (CUnspent \<Rightarrow> CUnspent) \<Rightarrow> CBlockView \<Rightarrow> CBlockView" where
  "bv_upd out f v =
     v\<lparr>bv_mapUnspent := om_set out (f (case om_get (bv_mapUnspent v) out of Some c \<Rightarrow> c | None \<Rightarrow> cu_new)) (bv_mapUnspent v)\<rparr>"

definition bv_Enable :: "CTxOutPoint \<Rightarrow> CTxOutput \<Rightarrow> CBlockView \<Rightarrow> CBlockView" where
  "bv_Enable out u v = (if out_IsNull u then v else bv_upd out (cu_Enable u) v)"

definition bv_AddTx :: "uint256 \<Rightarrow> CTransaction \<Rightarrow> CDestination \<Rightarrow> int \<Rightarrow> CBlockView \<Rightarrow> CBlockView" where
  "bv_AddTx txid tx destIn nValueIn v =
     (let v = v\<lparr>bv_mapTx := om_set txid tx (bv_mapTx v), bv_vTxAddNew := bv_vTxAddNew v @ [txid]\<rparr>;
          v = fold (\<lambda>i. bv_upd i cu_Disable) (tx_vInput tx) v
      in bv_Enable (CTxOutPoint txid 1) (out_change tx destIn nValueIn) (bv_Enable (CTxOutPoint txid 0) (out_of_tx tx) v))"

text \<open>The output that an input context describes.\<close>

definition out_of_inc :: "CDestination \<Rightarrow> CTxInContxt \<Rightarrow> CTxOutput" where
  "out_of_inc destIn c =
     \<lparr>out_destTo = destIn, out_nAmount = inc_nAmount c, out_nTxTime = inc_nTxTime c, out_nLockUntil = inc_nLockUntil c\<rparr>"

text \<open>\<^verbatim>\<open>RemoveTx\<close> reads one context for every input; with fewer contexts it would read past the vector (\<^const>\<open>None\<close>).\<close>

definition bv_RemoveTx :: "uint256 \<Rightarrow> CTransaction \<Rightarrow> CTxContxt \<Rightarrow> CBlockView \<Rightarrow> CBlockView option" where
  "bv_RemoveTx txid tx txContxt v =
     (if length (ctx_vin txContxt) < length (tx_vInput tx) then None
      else let v = v\<lparr>bv_mapTx := om_set txid tx_null (bv_mapTx v), bv_vTxRemove := bv_vTxRemove v @ [txid]\<rparr>;
               v = fold (\<lambda>(i, c). bv_upd i (cu_Enable (out_of_inc (ctx_destIn txContxt) c))) (zip (tx_vInput tx) (ctx_vin txContxt)) v
           in Some (bv_upd (CTxOutPoint txid 1) cu_Disable (bv_upd (CTxOutPoint txid 0) cu_Disable v)))"

definition GetUnspentChanges :: "CBlockView \<Rightarrow> CTxUnspent list \<times> CTxOutPoint list" where
  "GetUnspentChanges v =
     (let modified = filter (\<lambda>(_, c). cu_IsModified c) (bv_mapUnspent v)
      in (map (\<lambda>(out, c). \<lparr>unspent_out = out, unspent_output = cu_output c\<rparr>) (filter (\<lambda>(_, c). \<not> out_IsNull (cu_output c)) modified),
          map fst (filter (\<lambda>(_, c). out_IsNull (cu_output c)) modified)))"

text \<open>\<^verbatim>\<open>mapTx[txid]\<close> in the next two functions creates an entry when it is missing, which does not happen for a removed
  transaction; the functions only read.\<close>

definition tx_in_view :: "CBlockView \<Rightarrow> uint256 \<Rightarrow> CTransaction" where
  "tx_in_view v txid = (case om_get (bv_mapTx v) txid of Some tx \<Rightarrow> tx | None \<Rightarrow> tx_null)"

definition GetTxUpdated :: "CBlockView \<Rightarrow> uint256 set" where
  "GetTxUpdated v = set (filter (\<lambda>txid. \<not> tx_IsNull (tx_in_view v txid)) (bv_vTxRemove v))"

definition GetTxRemoved :: "CBlockView \<Rightarrow> uint256 list" where
  "GetTxRemoved v = filter (\<lambda>txid. tx_IsNull (tx_in_view v txid)) (bv_vTxRemove v)"

section \<open>The specification: a map of unspent outputs\<close>

type_synonym utxo = "CTxOutPoint \<Rightarrow> CTxOutput option"

definition some_output :: "CTxOutput \<Rightarrow> CTxOutput option" where
  "some_output u = (if out_IsNull u then None else Some u)"

text \<open>A transaction in a branch: added with the sender and the value of its inputs, or taken back with their contexts.\<close>

datatype view_op =
    AddOp uint256 CTransaction CDestination int
  | RemoveOp uint256 CTransaction CTxContxt

fun utxo_op :: "view_op \<Rightarrow> utxo \<Rightarrow> utxo" where
  "utxo_op (AddOp txid tx destIn nValueIn) U = (\<lambda>i.
     if i = CTxOutPoint txid 0 then some_output (out_of_tx tx)
     else if i = CTxOutPoint txid 1 then some_output (out_change tx destIn nValueIn)
     else if i \<in> set (tx_vInput tx) then None else U i)"
| "utxo_op (RemoveOp txid tx c) U = (\<lambda>i.
     if i = CTxOutPoint txid 0 \<or> i = CTxOutPoint txid 1 then None
     else case map_of (zip (tx_vInput tx) (ctx_vin c)) i of Some x \<Rightarrow> Some (out_of_inc (ctx_destIn c) x) | None \<Rightarrow> U i)"

text \<open>A transaction may be added if it spends different unspent outputs, none its own, and is new; it may be taken
  back if its outputs are unspent and its inputs are not.  An output point stands for one output only (\<^verbatim>\<open>val\<close>): the
  identifier of a transaction is the hash of its contents.\<close>

fun op_ok :: "(CTxOutPoint \<Rightarrow> CTxOutput option) \<Rightarrow> view_op \<Rightarrow> utxo \<Rightarrow> bool" where
  "op_ok val (AddOp txid tx destIn nValueIn) U \<longleftrightarrow>
     distinct (tx_vInput tx) \<and> (\<forall>i \<in> set (tx_vInput tx). U i \<noteq> None \<and> op_hash i \<noteq> txid)
     \<and> U (CTxOutPoint txid 0) = None \<and> U (CTxOutPoint txid 1) = None
     \<and> val (CTxOutPoint txid 0) = some_output (out_of_tx tx)
     \<and> val (CTxOutPoint txid 1) = some_output (out_change tx destIn nValueIn)"
| "op_ok val (RemoveOp txid tx c) U \<longleftrightarrow>
     distinct (tx_vInput tx) \<and> length (ctx_vin c) = length (tx_vInput tx)
     \<and> (\<forall>i \<in> set (tx_vInput tx). U i = None \<and> op_hash i \<noteq> txid)
     \<and> (\<forall>(i, x) \<in> set (zip (tx_vInput tx) (ctx_vin c)). val i = Some (out_of_inc (ctx_destIn c) x))
     \<and> U (CTxOutPoint txid 0) = val (CTxOutPoint txid 0) \<and> U (CTxOutPoint txid 1) = val (CTxOutPoint txid 1)"

fun ops_ok :: "(CTxOutPoint \<Rightarrow> CTxOutput option) \<Rightarrow> view_op list \<Rightarrow> utxo \<Rightarrow> bool" where
  "ops_ok val [] U = True"
| "ops_ok val (x # xs) U \<longleftrightarrow> op_ok val x U \<and> ops_ok val xs (utxo_op x U)"

text \<open>The calls that the container makes on a view.\<close>

fun apply_op :: "view_op \<Rightarrow> CBlockView \<Rightarrow> CBlockView option" where
  "apply_op (AddOp txid tx destIn nValueIn) v = Some (bv_AddTx txid tx destIn nValueIn v)"
| "apply_op (RemoveOp txid tx c) v = bv_RemoveTx txid tx c v"

text \<open>The changes written to a database.\<close>

definition utxo_commit :: "CTxUnspent list \<times> CTxOutPoint list \<Rightarrow> utxo \<Rightarrow> utxo" where
  "utxo_commit = (\<lambda>(vAddNew, vRemove) U.
     fold (\<lambda>i U. U(i := None)) vRemove (fold (\<lambda>x U. U(unspent_out x \<mapsto> unspent_output x)) vAddNew U))"

section \<open>One output point\<close>

text \<open>The entry \<^verbatim>\<open>c\<close> of an output point that stands for \<^verbatim>\<open>x\<close>, is \<^verbatim>\<open>d\<close> in the database and \<^verbatim>\<open>u\<close> in the branch.\<close>

fun point_ok :: "CTxOutput option \<Rightarrow> CTxOutput option \<Rightarrow> CTxOutput option \<Rightarrow> CUnspent option \<Rightarrow> bool" where
  "point_ok x d u None \<longleftrightarrow> u = d"
| "point_ok x d u (Some c) \<longleftrightarrow> some_output (cu_output c) = u
     \<and> (if x = None then cu_nOpt c \<le> 0 else cu_nOpt c = of_bool (u \<noteq> None) - of_bool (d \<noteq> None))"

definition stands :: "CTxOutput option \<Rightarrow> CTxOutput option \<Rightarrow> bool" where
  "stands x u \<longleftrightarrow> u = None \<or> u = x"

lemma stands_simps [simp]: "stands x None" "stands x x"
  by (simp_all add: stands_def)

lemma some_output_simps [simp]: "some_output out_null = None" "\<not> out_IsNull u \<Longrightarrow> some_output u = Some u"
  by (simp_all add: some_output_def out_IsNull_def out_null_def)

lemma some_output_Some: "some_output u = Some w \<longleftrightarrow> w = u \<and> \<not> out_IsNull u"
  by (auto simp: some_output_def)

abbreviation entry_of :: "CUnspent option \<Rightarrow> CUnspent" where
  "entry_of c \<equiv> (case c of Some c \<Rightarrow> c | None \<Rightarrow> cu_new)"

lemma point_disable:
  assumes "point_ok x d u c" and "stands x d" and "u = x \<or> u \<noteq> None" and "stands x u"
  shows "point_ok x d None (Some (cu_Disable (entry_of c)))"
  using assms by (cases c; cases x) (auto simp: stands_def cu_Disable_def cu_new_def)

lemma point_enable:
  assumes "point_ok (Some w) d None c" and "stands (Some w) d" and "\<not> out_IsNull w"
  shows "point_ok (Some w) d (Some w) (Some (cu_Enable w (entry_of c)))"
  using assms by (cases c) (auto simp: stands_def cu_Enable_def cu_new_def)

lemma point_commit:
  assumes "point_ok x d u c" and "stands x d" and "stands x u"
  shows "(case c of Some c \<Rightarrow> if cu_IsModified c then some_output (cu_output c) else d | None \<Rightarrow> d) = u"
  using assms by (cases c; cases x; cases u; cases d) (auto simp: stands_def cu_IsModified_def)

declare point_ok.simps [simp del]

section \<open>The whole view\<close>

abbreviation mun :: "CBlockView \<Rightarrow> CTxOutPoint \<Rightarrow> CUnspent option" where
  "mun v \<equiv> om_get (bv_mapUnspent v)"

definition view_rel :: "(CTxOutPoint \<Rightarrow> CTxOutput option) \<Rightarrow> utxo \<Rightarrow> utxo \<Rightarrow> CBlockView \<Rightarrow> bool" where
  "view_rel val D U v \<longleftrightarrow> om_wf (bv_mapUnspent v)
     \<and> (\<forall>i. stands (val i) (D i) \<and> stands (val i) (U i) \<and> point_ok (val i) (D i) (U i) (mun v i))
     \<and> (\<forall>i w. val i = Some w \<longrightarrow> \<not> out_IsNull w)"

lemma mun_upd: "mun (bv_upd out f v) = (mun v)(out \<mapsto> f (entry_of (mun v out)))"
  by (simp add: bv_upd_def om_get_set fun_eq_iff)

lemma mun_other [simp]:
  "mun (v\<lparr>bv_mapTx := a, bv_vTxAddNew := b\<rparr>) = mun v" "mun (v\<lparr>bv_mapTx := a, bv_vTxRemove := b\<rparr>) = mun v"
  by simp_all

lemma mun_fold_upd:
  "distinct outs \<Longrightarrow> mun (fold (\<lambda>i. bv_upd i f) outs v) i = (if i \<in> set outs then Some (f (entry_of (mun v i))) else mun v i)"
  by (induction outs arbitrary: v) (auto simp: mun_upd)

lemma mun_fold_upd_zip:
  "distinct (map fst xs) \<Longrightarrow> mun (fold (\<lambda>(i, c). bv_upd i (f c)) xs v) i =
     (case map_of xs i of Some c \<Rightarrow> Some (f c (entry_of (mun v i))) | None \<Rightarrow> mun v i)"
proof (induction xs arbitrary: v)
  case (Cons x xs)
  obtain j c where x: "x = (j, c)" by (cases x)
  have "map_of xs j = None" using Cons.prems by (simp add: x map_of_eq_None_iff)
  then show ?case using Cons.IH [of "bv_upd j (f c) v"] Cons.prems by (auto simp: x mun_upd split: option.splits)
qed simp

lemma wf_upd: "om_wf (bv_mapUnspent v) \<Longrightarrow> om_wf (bv_mapUnspent (bv_upd out f v))"
  by (auto simp: bv_upd_def)

lemma wf_fold_upd: "om_wf (bv_mapUnspent v) \<Longrightarrow> om_wf (bv_mapUnspent (fold (\<lambda>x. bv_upd (k x) (f x)) xs v))"
  by (induction xs arbitrary: v) (auto simp: wf_upd)

lemma mun_Enable:
  "mun (bv_Enable out u v) = (if out_IsNull u then mun v else (mun v)(out \<mapsto> cu_Enable u (entry_of (mun v out))))"
  by (simp add: bv_Enable_def mun_upd fun_eq_iff)

lemma wf_Enable: "om_wf (bv_mapUnspent v) \<Longrightarrow> om_wf (bv_mapUnspent (bv_Enable out u v))"
  by (simp add: bv_Enable_def wf_upd)

lemma bv_AddTx_wf: "om_wf (bv_mapUnspent v) \<Longrightarrow> om_wf (bv_mapUnspent (bv_AddTx txid tx destIn nValueIn v))"
  unfolding bv_AddTx_def Let_def by (intro wf_Enable wf_fold_upd) simp

text \<open>What adding and removing do to an output point.\<close>

lemma mun_AddTx:
  assumes "distinct (tx_vInput tx)" and "\<forall>i \<in> set (tx_vInput tx). op_hash i \<noteq> txid"
  shows "mun (bv_AddTx txid tx destIn nValueIn v) i =
    (if i = CTxOutPoint txid 0 then if out_IsNull (out_of_tx tx) then mun v i else Some (cu_Enable (out_of_tx tx) (entry_of (mun v i)))
     else if i = CTxOutPoint txid 1 then if out_IsNull (out_change tx destIn nValueIn) then mun v i
       else Some (cu_Enable (out_change tx destIn nValueIn) (entry_of (mun v i)))
     else if i \<in> set (tx_vInput tx) then Some (cu_Disable (entry_of (mun v i))) else mun v i)"
proof -
  have "CTxOutPoint txid n \<notin> set (tx_vInput tx)" for n using assms(2) by force
  then show ?thesis
    unfolding bv_AddTx_def Let_def by (simp add: mun_Enable mun_fold_upd [OF assms(1)])
qed

lemma mun_RemoveTx:
  assumes "distinct (tx_vInput tx)" and "\<forall>i \<in> set (tx_vInput tx). op_hash i \<noteq> txid" and "length (ctx_vin c) = length (tx_vInput tx)"
  obtains v' where "bv_RemoveTx txid tx c v = Some v'" "om_wf (bv_mapUnspent v) \<Longrightarrow> om_wf (bv_mapUnspent v')"
    "\<And>i. mun v' i = (if i = CTxOutPoint txid 0 \<or> i = CTxOutPoint txid 1 then Some (cu_Disable (entry_of (mun v i)))
       else case map_of (zip (tx_vInput tx) (ctx_vin c)) i of
              Some x \<Rightarrow> Some (cu_Enable (out_of_inc (ctx_destIn c) x) (entry_of (mun v i))) | None \<Rightarrow> mun v i)"
proof -
  let ?xs = "zip (tx_vInput tx) (ctx_vin c)"
  let ?v1 = "fold (\<lambda>(i, x). bv_upd i (cu_Enable (out_of_inc (ctx_destIn c) x))) ?xs
     (v\<lparr>bv_mapTx := om_set txid tx_null (bv_mapTx v), bv_vTxRemove := bv_vTxRemove v @ [txid]\<rparr>)"
  have d: "distinct (map fst ?xs)" using assms(1,3) by simp
  have "CTxOutPoint txid n \<notin> set (tx_vInput tx)" for n using assms(2) by force
  then have none: "map_of ?xs (CTxOutPoint txid n) = None" for n
    unfolding map_of_eq_None_iff by (metis fst_conv imageE set_zip_leftD surj_pair)
  have wf: "om_wf (bv_mapUnspent ?v1)" if "om_wf (bv_mapUnspent v)"
    using wf_fold_upd [of _ fst "\<lambda>x. cu_Enable (out_of_inc (ctx_destIn c) (snd x))" ?xs] that by (simp add: split_def)
  have get: "mun ?v1 i = (case map_of ?xs i of
      Some x \<Rightarrow> Some (cu_Enable (out_of_inc (ctx_destIn c) x) (entry_of (mun v i))) | None \<Rightarrow> mun v i)" for i
    unfolding mun_fold_upd_zip [OF d] by (simp only: mun_other)
  show ?thesis
  proof (rule that)
    show "bv_RemoveTx txid tx c v = Some (bv_upd (CTxOutPoint txid 1) cu_Disable (bv_upd (CTxOutPoint txid 0) cu_Disable ?v1))"
      using assms(3) by (simp add: bv_RemoveTx_def)
  qed (auto simp: mun_upd get none intro: wf_upd wf)
qed

lemma view_relD:
  assumes "view_rel val D U v"
  shows "om_wf (bv_mapUnspent v)" "stands (val i) (D i)" "stands (val i) (U i)" "point_ok (val i) (D i) (U i) (mun v i)"
    "val i = Some w \<Longrightarrow> \<not> out_IsNull w"
  using assms unfolding view_rel_def by blast+

lemma view_rel_add:
  assumes rel: "view_rel val D U v" and ok: "op_ok val (AddOp txid tx destIn nValueIn) U"
  shows "view_rel val D (utxo_op (AddOp txid tx destIn nValueIn) U) (bv_AddTx txid tx destIn nValueIn v)"
    (is "view_rel val D ?U ?v")
proof -
  note r = view_relD [OF rel]
  have in': "\<forall>i \<in> set (tx_vInput tx). op_hash i \<noteq> txid" and d: "distinct (tx_vInput tx)" using ok by auto
  have out: "point_ok (val i) (D i) (some_output u) (if out_IsNull u then mun v i else Some (cu_Enable u (entry_of (mun v i))))"
    if "val i = some_output u" "U i = None" for i u
    using that r(2,4) [of i] point_enable [of u "D i" "mun v i"] by (cases "out_IsNull u") (auto simp: some_output_def)
  have inp: "point_ok (val i) (D i) None (Some (cu_Disable (entry_of (mun v i))))" if "i \<in> set (tx_vInput tx)" for i
    using that ok r(2,3,4) [of i] point_disable [of "val i" "D i" "U i" "mun v i"] by auto
  have point: "stands (val i) (?U i) \<and> point_ok (val i) (D i) (?U i) (mun ?v i)" for i
  proof -
    consider "i = CTxOutPoint txid 0" | "i = CTxOutPoint txid 1" | "i \<noteq> CTxOutPoint txid 0" "i \<noteq> CTxOutPoint txid 1" by blast
    then show ?thesis
    proof cases
      case 1
      then show ?thesis using ok out [of i "out_of_tx tx"] unfolding mun_AddTx [OF d in'] by (simp add: stands_def)
    next
      case 2
      then show ?thesis using ok out [of i "out_change tx destIn nValueIn"] unfolding mun_AddTx [OF d in'] by (simp add: stands_def)
    next
      case 3
      then show ?thesis using inp [of i] r(3,4) [of i] unfolding mun_AddTx [OF d in'] by (simp add: stands_def)
    qed
  qed
  show ?thesis unfolding view_rel_def using point r(1,2,5) bv_AddTx_wf by blast
qed

lemma view_rel_remove:
  assumes rel: "view_rel val D U v" and ok: "op_ok val (RemoveOp txid tx c) U"
  obtains v' where "bv_RemoveTx txid tx c v = Some v'" "view_rel val D (utxo_op (RemoveOp txid tx c) U) v'"
proof -
  note r = view_relD [OF rel]
  let ?xs = "zip (tx_vInput tx) (ctx_vin c)" and ?U = "utxo_op (RemoveOp txid tx c) U"
  have in': "\<forall>i \<in> set (tx_vInput tx). op_hash i \<noteq> txid" and d: "distinct (tx_vInput tx)"
    and len: "length (ctx_vin c) = length (tx_vInput tx)" and spent: "\<forall>i \<in> set (tx_vInput tx). U i = None"
    and vals: "\<forall>(i, x) \<in> set ?xs. val i = Some (out_of_inc (ctx_destIn c) x)" using ok by simp_all
  obtain v' where v': "bv_RemoveTx txid tx c v = Some v'" "om_wf (bv_mapUnspent v) \<Longrightarrow> om_wf (bv_mapUnspent v')"
    "\<And>i. mun v' i = (if i = CTxOutPoint txid 0 \<or> i = CTxOutPoint txid 1 then Some (cu_Disable (entry_of (mun v i)))
       else case map_of ?xs i of Some x \<Rightarrow> Some (cu_Enable (out_of_inc (ctx_destIn c) x) (entry_of (mun v i))) | None \<Rightarrow> mun v i)"
    by (rule mun_RemoveTx [OF d in' len, of v]) (rule that)
  have inp: "stands (val i) (Some w) \<and> point_ok (val i) (D i) (Some w) (Some (cu_Enable w (entry_of (mun v i))))"
    if "map_of ?xs i = Some x" "w = out_of_inc (ctx_destIn c) x" for i x w
  proof -
    have m: "(i, x) \<in> set ?xs" using that(1) by (rule map_of_SomeD)
    then have "val i = Some w" "U i = None" using vals spent that(2) by (auto dest: set_zip_leftD)
    then show ?thesis using r(2,4) [of i] r(5) [of i w] point_enable [of w "D i" "mun v i"] by (simp add: stands_def)
  qed
  have outp: "point_ok (val i) (D i) None (Some (cu_Disable (entry_of (mun v i))))" if "i = CTxOutPoint txid 0 \<or> i = CTxOutPoint txid 1" for i
    using that ok r(2,3,4) [of i] point_disable [of "val i" "D i" "U i" "mun v i"] by auto
  have "stands (val i) (?U i) \<and> point_ok (val i) (D i) (?U i) (mun v' i)" for i
    using inp [of i] outp [of i] r(3,4) [of i] unfolding v'(3) by (cases "map_of ?xs i") simp_all
  then have "view_rel val D ?U v'" unfolding view_rel_def using v'(2) r(1,2,5) by blast
  with v'(1) show ?thesis by (rule that)
qed

lemma view_rel_ops:
  "view_rel val D U v \<Longrightarrow> ops_ok val ops U \<Longrightarrow> \<exists>v'. ofold apply_op ops v = Some v' \<and> view_rel val D (fold utxo_op ops U) v'"
proof (induction ops arbitrary: U v)
  case (Cons x xs)
  obtain v1 where "apply_op x v = Some v1" "view_rel val D (utxo_op x U) v1"
  proof (cases x)
    case (AddOp txid tx destIn nValueIn)
    then show ?thesis using that view_rel_add [OF Cons.prems(1)] Cons.prems(2) by (simp del: utxo_op.simps op_ok.simps)
  next
    case (RemoveOp txid tx c)
    then have "op_ok val (RemoveOp txid tx c) U" using Cons.prems(2) by simp
    then show ?thesis
      by (rule view_rel_remove [OF Cons.prems(1)]) (rule that; simp add: RemoveOp del: utxo_op.simps)
  qed
  then show ?case using Cons.IH [of "utxo_op x U" v1] Cons.prems(2) by simp
qed simp

lemma view_rel_init:
  assumes "\<And>i. stands (val i) (D i)" and "\<And>i w. val i = Some w \<Longrightarrow> \<not> out_IsNull w"
  shows "view_rel val D D (bv_Initialize spFork hashFork fCommittable)"
  using assms unfolding view_rel_def by (simp add: bv_Initialize_def point_ok.simps)

lemma view_rel_retrieve:
  assumes "view_rel val D U v"
  shows "fst (bv_RetrieveUnspent D v i w) \<longleftrightarrow> U i \<noteq> None" "U i = Some u \<Longrightarrow> bv_RetrieveUnspent D v i w = (True, u)"
proof -
  have p: "point_ok (val i) (D i) (U i) (mun v i)" by (rule view_relD(4) [OF assms])
  show "fst (bv_RetrieveUnspent D v i w) \<longleftrightarrow> U i \<noteq> None"
    using p by (cases "mun v i"; cases "U i") (auto simp: bv_RetrieveUnspent_def some_output_def point_ok.simps split: option.splits if_splits)
  show "bv_RetrieveUnspent D v i w = (True, u)" if "U i = Some u"
    using p that by (cases "mun v i"; cases "D i") (auto simp: bv_RetrieveUnspent_def some_output_Some point_ok.simps)
qed

section \<open>Writing the changes\<close>

lemma fold_erase: "fold (\<lambda>i U. U(i := None)) xs U = U |` (- set xs)"
  by (induction xs arbitrary: U) (auto simp: restrict_map_def fun_eq_iff)

lemma fold_store:
  "distinct (map unspent_out xs) \<Longrightarrow> fold (\<lambda>x U. U(unspent_out x \<mapsto> unspent_output x)) xs U i =
     (case map_of (map (\<lambda>x. (unspent_out x, unspent_output x)) xs) i of Some u \<Rightarrow> Some u | None \<Rightarrow> U i)"
proof (induction xs arbitrary: U)
  case (Cons x xs)
  then have "map_of (map (\<lambda>x. (unspent_out x, unspent_output x)) xs) (unspent_out x) = None"
    by (auto simp: map_of_eq_None_iff)
  with Cons show ?case by (auto split: option.splits)
qed simp

lemma option_of_iff: "(\<And>x. a = Some x \<longleftrightarrow> x = c \<and> P) \<Longrightarrow> a = (if P then Some c else None)"
  by (cases a) auto

lemma utxo_commit_get:
  assumes wf: "om_wf (bv_mapUnspent v)"
  shows "utxo_commit (GetUnspentChanges v) D i =
    (case mun v i of Some c \<Rightarrow> if cu_IsModified c then some_output (cu_output c) else D i | None \<Rightarrow> D i)"
proof -
  let ?m = "filter (\<lambda>(_, c). cu_IsModified c) (bv_mapUnspent v)"
  let ?a = "filter (\<lambda>(_, c). \<not> out_IsNull (cu_output c)) ?m" and ?r = "filter (\<lambda>(_, c). out_IsNull (cu_output c)) ?m"
  let ?new = "map (\<lambda>(out, c). \<lparr>unspent_out = out, unspent_output = cu_output c\<rparr>) ?a"
  have a: "om_wf ?a" using wf by auto
  have keys: "map unspent_out ?new = map fst ?a" by auto
  have pairs: "map (\<lambda>x. (unspent_out x, unspent_output x)) ?new = map (\<lambda>(out, c). (out, cu_output c)) ?a" by auto
  have "distinct (map unspent_out ?new)" unfolding keys by (rule om_wf_distinct [OF a])
  note store = fold_store [OF this, of D i, unfolded pairs map_of_map]
  have mem: "om_get ?a i = Some c \<longleftrightarrow> mun v i = Some c \<and> cu_IsModified c \<and> \<not> out_IsNull (cu_output c)" for c
    using om_wf_mem [OF a, of i c] om_wf_mem [OF wf, of i c] by auto
  have rem: "i \<in> set (map fst ?r) \<longleftrightarrow> (\<exists>c. mun v i = Some c \<and> cu_IsModified c \<and> out_IsNull (cu_output c))"
    using om_wf_mem [OF wf, of i] by force
  have "utxo_commit (GetUnspentChanges v) D i =
      (if i \<in> set (map fst ?r) then None else case map_option cu_output (om_get ?a i) of Some u \<Rightarrow> Some u | None \<Rightarrow> D i)"
    unfolding utxo_commit_def GetUnspentChanges_def Let_def prod.case fold_erase restrict_map_def using store
    by (simp add: comp_def)
  also have "\<dots> = (case mun v i of Some c \<Rightarrow> if cu_IsModified c then some_output (cu_output c) else D i | None \<Rightarrow> D i)"
  proof (cases "mun v i")
    case None
    then have "om_get ?a i = None" using option_of_iff [of "om_get ?a i" undefined False] mem by simp
    moreover have "i \<notin> set (map fst ?r)" using rem None by simp
    ultimately show ?thesis by (simp only: None option.map option.case if_False)
  next
    case (Some c)
    have "om_get ?a i = (if cu_IsModified c \<and> \<not> out_IsNull (cu_output c) then Some c else None)"
      by (rule option_of_iff) (use mem Some in auto)
    moreover have "i \<in> set (map fst ?r) \<longleftrightarrow> cu_IsModified c \<and> out_IsNull (cu_output c)" using rem Some by simp
    ultimately show ?thesis
      by (cases "cu_IsModified c"; cases "out_IsNull (cu_output c)") (simp_all only: Some some_output_def option.map option.case if_True if_False simp_thms)
  qed
  finally show ?thesis .
qed

lemma view_rel_commit:
  assumes "view_rel val D U v"
  shows "utxo_commit (GetUnspentChanges v) D = U"
proof
  fix i
  show "utxo_commit (GetUnspentChanges v) D i = U i"
    unfolding utxo_commit_get [OF view_relD(1) [OF assms]]
    by (rule point_commit [OF view_relD(4,2,3) [OF assms]])
qed

section \<open>Properties\<close>

text \<open>Property C7: after any sequence of transactions added to and removed from a view over a database, the view
  answers for every output point what the map of unspent outputs has after the same sequence, and writing the
  changes of the view to the database turns it into this map.\<close>

theorem block_view_refines_utxo:
  assumes "ops_ok val ops D" and "\<forall>i. D i = None \<or> D i = val i" and "\<forall>i w. val i = Some w \<longrightarrow> \<not> out_IsNull w"
  shows "\<exists>v. ofold apply_op ops (bv_Initialize spFork hashFork fCommittable) = Some v
    \<and> (\<forall>i w. fst (bv_RetrieveUnspent D v i w) \<longleftrightarrow> fold utxo_op ops D i \<noteq> None)
    \<and> (\<forall>i w u. fold utxo_op ops D i = Some u \<longrightarrow> bv_RetrieveUnspent D v i w = (True, u))
    \<and> utxo_commit (GetUnspentChanges v) D = fold utxo_op ops D"
proof -
  have "view_rel val D D (bv_Initialize spFork hashFork fCommittable)"
    using view_rel_init [of val D] assms(2,3) by (simp add: stands_def)
  from view_rel_ops [OF this assms(1)]
  obtain v where v: "ofold apply_op ops (bv_Initialize spFork hashFork fCommittable) = Some v" "view_rel val D (fold utxo_op ops D) v"
    by blast
  show ?thesis
    by (intro exI [of _ v] conjI allI impI v(1) view_rel_retrieve [OF v(2)] view_rel_commit [OF v(2)])
qed

text \<open>A payment of the key 7 that is added, taken back and added again.\<close>

definition view_example_tx :: CTransaction where
  "view_example_tx = tx_null\<lparr>tx_vInput := [CTxOutPoint 77 0], tx_sendTo := dest_pubkey 9, tx_nAmount := 5, tx_nTxFee := 1\<rparr>"

definition view_example_output :: CTxOutput where
  "view_example_output = \<lparr>out_destTo = dest_pubkey 7, out_nAmount = 10, out_nTxTime = 3, out_nLockUntil = 0\<rparr>"

definition view_example_ops :: "view_op list" where
  "view_example_ops = [AddOp 78 view_example_tx (dest_pubkey 7) 10,
     RemoveOp 78 view_example_tx \<lparr>ctx_destIn = dest_pubkey 7, ctx_vin = [inc_of_output view_example_output]\<rparr>,
     AddOp 78 view_example_tx (dest_pubkey 7) 10]"

definition view_example_val :: utxo where
  "view_example_val = [CTxOutPoint 77 0 \<mapsto> view_example_output, CTxOutPoint 78 0 \<mapsto> out_of_tx view_example_tx,
     CTxOutPoint 78 1 \<mapsto> out_change view_example_tx (dest_pubkey 7) 10]"

lemma view_example_nonnull:
  "\<not> out_IsNull view_example_output" "\<not> out_IsNull (out_of_tx view_example_tx)"
  "\<not> out_IsNull (out_change view_example_tx (dest_pubkey 7) 10)"
  by (simp_all add: out_IsNull_def view_example_output_def out_of_tx_def out_change_def view_example_tx_def tx_null_def
      dest_IsNull_def dest_pubkey_def tx_GetChange_def)

theorem block_view_refines_utxo_witness:
  "\<exists>v. ofold apply_op view_example_ops (bv_Initialize (Some 1) 1 True) = Some v
    \<and> bv_RetrieveUnspent [CTxOutPoint 77 0 \<mapsto> view_example_output] v (CTxOutPoint 78 1) out_null
        = (True, out_change view_example_tx (dest_pubkey 7) 10)
    \<and> \<not> fst (bv_RetrieveUnspent [CTxOutPoint 77 0 \<mapsto> view_example_output] v (CTxOutPoint 77 0) out_null)"
proof -
  let ?D = "[CTxOutPoint 77 0 \<mapsto> view_example_output]"
  have inputs: "tx_vInput view_example_tx = [CTxOutPoint 77 0]" by (simp add: view_example_tx_def)
  have val: "\<forall>i w. view_example_val i = Some w \<longrightarrow> \<not> out_IsNull w"
    using view_example_nonnull by (auto simp: view_example_val_def split: if_splits)
  have D: "\<forall>i. ?D i = None \<or> ?D i = view_example_val i" by (simp add: view_example_val_def)
  have ok: "ops_ok view_example_val view_example_ops ?D"
    using view_example_nonnull
    by (simp add: view_example_ops_def inputs) (simp add: view_example_val_def out_of_inc_def inc_of_output_def view_example_output_def)
  have U: "fold utxo_op view_example_ops ?D (CTxOutPoint 78 1) = Some (out_change view_example_tx (dest_pubkey 7) 10)"
      "fold utxo_op view_example_ops ?D (CTxOutPoint 77 0) = None"
    using view_example_nonnull by (simp_all add: view_example_ops_def inputs)
  show ?thesis
    using block_view_refines_utxo [OF ok D val, where spFork = "Some 1" and hashFork = 1 and fCommittable = True] U by blast
qed

end
