(* ===== verification/RWLock.thy ===== *)
theory RWLock
  imports Prelude
begin

text \<open>
  \<^verbatim>\<open>CWalleveRWAccess\<close> (\<^verbatim>\<open>walleve/rwlock.h\<close>): a lock with readers, writers and one upgradable reader, made of a mutex, four
  variables and three condition variables.  Every section under the mutex is one function on the variables; a
  loop around \<^verbatim>\<open>wait\<close> is an attempt that fails (the thread sleeps on the condition variable) or succeeds, and
  is repeated when the thread is woken.

  The threads are a step relation in which any thread may call any function its state allows, and a sleeping thread may
  also wake without being notified.  The unlocking functions notify after they have released the mutex, so an
  unlock is two steps, between which the other threads run.  The lemmas show exclusion, and that no wake-up is
  lost: when threads wait and nobody holds the lock, a waiting thread can take it at once, or a notification is on its way
  that wakes one which can.
\<close>

section \<open>The lock\<close>

record CWalleveRWAccess =
  rw_nRead :: nat
  rw_nWrite :: nat
  rw_fExclusive :: bool
  rw_fUpgraded :: bool

definition rw_init :: CWalleveRWAccess where
  "rw_init = \<lparr>rw_nRead = 0, rw_nWrite = 0, rw_fExclusive = False, rw_fUpgraded = False\<rparr>"

datatype notify = NotifyNone | NotifyOneWrite | NotifyOneUpgrade | NotifyAllRead

text \<open>An attempt returns \<^const>\<open>None\<close> when the thread has to wait.\<close>

definition ReadLock :: "CWalleveRWAccess \<Rightarrow> CWalleveRWAccess option" where
  "ReadLock s = (if rw_nWrite s \<noteq> 0 \<or> rw_fUpgraded s then None else Some (s\<lparr>rw_nRead := rw_nRead s + 1\<rparr>))"

definition ReadTryLock :: "CWalleveRWAccess \<Rightarrow> bool \<times> CWalleveRWAccess" where
  "ReadTryLock s = (if rw_nWrite s \<noteq> 0 \<or> rw_fUpgraded s then (False, s) else (True, s\<lparr>rw_nRead := rw_nRead s + 1\<rparr>))"

definition ReadUnlock :: "CWalleveRWAccess \<Rightarrow> CWalleveRWAccess \<times> notify" where
  "ReadUnlock s =
     (let s = s\<lparr>rw_nRead := rw_nRead s - 1\<rparr>;
          fNotifyWrite = (rw_nRead s = 0 \<and> rw_nWrite s \<noteq> 0);
          fNotifyUpgrade = (rw_nRead s = 0 \<and> rw_fExclusive s)
      in (s, if fNotifyUpgrade then NotifyOneUpgrade else if fNotifyWrite then NotifyOneWrite else NotifyNone))"

text \<open>\<^verbatim>\<open>WriteLock\<close> announces the writer once, and then tries.\<close>

definition WriteLock_announce :: "CWalleveRWAccess \<Rightarrow> CWalleveRWAccess" where
  "WriteLock_announce s = s\<lparr>rw_nWrite := rw_nWrite s + 1\<rparr>"

definition WriteLock :: "CWalleveRWAccess \<Rightarrow> CWalleveRWAccess option" where
  "WriteLock s = (if rw_nRead s \<noteq> 0 \<or> rw_fExclusive s then None else Some (s\<lparr>rw_fExclusive := True\<rparr>))"

definition WriteUnlock :: "CWalleveRWAccess \<Rightarrow> CWalleveRWAccess \<times> notify" where
  "WriteUnlock s =
     (let s = s\<lparr>rw_nWrite := rw_nWrite s - 1, rw_fExclusive := False\<rparr>
      in (s, if rw_nWrite s \<noteq> 0 then NotifyOneWrite else NotifyAllRead))"

definition UpgradeLock :: "CWalleveRWAccess \<Rightarrow> CWalleveRWAccess option" where
  "UpgradeLock s = (if rw_fExclusive s then None else Some (s\<lparr>rw_fExclusive := True\<rparr>))"

definition UpgradeToWriteLock_announce :: "CWalleveRWAccess \<Rightarrow> CWalleveRWAccess" where
  "UpgradeToWriteLock_announce s = s\<lparr>rw_fUpgraded := True\<rparr>"

definition UpgradeToWriteLock :: "CWalleveRWAccess \<Rightarrow> CWalleveRWAccess option" where
  "UpgradeToWriteLock s = (if rw_nRead s \<noteq> 0 then None else Some s)"

definition UpgradeUnlock :: "CWalleveRWAccess \<Rightarrow> CWalleveRWAccess \<times> notify" where
  "UpgradeUnlock s =
     (let fNotifyWrite = (rw_nWrite s \<noteq> 0);
          fNotifyWrite = (if \<not> rw_fUpgraded s then fNotifyWrite \<and> rw_nRead s = 0 else fNotifyWrite)
      in (s\<lparr>rw_fExclusive := False, rw_fUpgraded := False\<rparr>, if fNotifyWrite then NotifyOneWrite else NotifyAllRead))"

section \<open>The threads\<close>

text \<open>Where a thread is.  The flag of a waiting thread tells whether it sleeps.  A thread that has released the lock and the
  mutex has a notification left to send.\<close>

datatype pc =
    Out
  | WaitRead bool | Reading
  | WaitWrite bool | Writing
  | WaitUpgrade bool | Upgradable
  | WaitToWrite bool | Upgraded
  | Notifying notify

fun attempt :: "CWalleveRWAccess \<Rightarrow> CWalleveRWAccess option \<Rightarrow> (bool \<Rightarrow> pc) \<Rightarrow> pc \<Rightarrow> CWalleveRWAccess \<times> pc" where
  "attempt s None wait held = (s, wait True)"
| "attempt s (Some s') wait held = (s', held)"

text \<open>What a notification does: one sleeping thread of the condition variable wakes, or all of them.\<close>

inductive notified :: "notify \<Rightarrow> ('t \<Rightarrow> pc) \<Rightarrow> ('t \<Rightarrow> pc) \<Rightarrow> bool" where
  none: "notified NotifyNone P P"
| one_write: "P t = WaitWrite True \<Longrightarrow> notified NotifyOneWrite P (P(t := WaitWrite False))"
| no_write: "(\<And>t. P t \<noteq> WaitWrite True) \<Longrightarrow> notified NotifyOneWrite P P"
| one_upgrade: "P t = WaitToWrite True \<Longrightarrow> notified NotifyOneUpgrade P (P(t := WaitToWrite False))"
| no_upgrade: "(\<And>t. P t \<noteq> WaitToWrite True) \<Longrightarrow> notified NotifyOneUpgrade P P"
| all_read: "notified NotifyAllRead P (\<lambda>t. case P t of WaitRead _ \<Rightarrow> WaitRead False | WaitUpgrade _ \<Rightarrow> WaitUpgrade False | p \<Rightarrow> p)"

fun awake :: "pc \<Rightarrow> pc" where
  "awake (WaitRead _) = WaitRead False"
| "awake (WaitWrite _) = WaitWrite False"
| "awake (WaitUpgrade _) = WaitUpgrade False"
| "awake (WaitToWrite _) = WaitToWrite False"
| "awake p = p"

inductive rw_step :: "CWalleveRWAccess \<times> ('t \<Rightarrow> pc) \<Rightarrow> CWalleveRWAccess \<times> ('t \<Rightarrow> pc) \<Rightarrow> bool" where
  read_call: "P t = Out \<or> P t = WaitRead False \<Longrightarrow> attempt s (ReadLock s) WaitRead Reading = (s', p) \<Longrightarrow> rw_step (s, P) (s', P(t := p))"
| try_read: "P t = Out \<Longrightarrow> ReadTryLock s = (ok, s') \<Longrightarrow> rw_step (s, P) (s', if ok then P(t := Reading) else P)"
| read_unlock: "P t = Reading \<Longrightarrow> ReadUnlock s = (s', n) \<Longrightarrow> rw_step (s, P) (s', P(t := Notifying n))"
| write_call: "P t = Out \<Longrightarrow> s1 = WriteLock_announce s \<Longrightarrow> attempt s1 (WriteLock s1) WaitWrite Writing = (s', p) \<Longrightarrow>
    rw_step (s, P) (s', P(t := p))"
| write_again: "P t = WaitWrite False \<Longrightarrow> attempt s (WriteLock s) WaitWrite Writing = (s', p) \<Longrightarrow> rw_step (s, P) (s', P(t := p))"
| write_unlock: "P t = Writing \<Longrightarrow> WriteUnlock s = (s', n) \<Longrightarrow> rw_step (s, P) (s', P(t := Notifying n))"
| upgrade_call: "P t = Out \<or> P t = WaitUpgrade False \<Longrightarrow> attempt s (UpgradeLock s) WaitUpgrade Upgradable = (s', p) \<Longrightarrow>
    rw_step (s, P) (s', P(t := p))"
| to_write_call: "P t = Upgradable \<Longrightarrow> s1 = UpgradeToWriteLock_announce s \<Longrightarrow>
    attempt s1 (UpgradeToWriteLock s1) WaitToWrite Upgraded = (s', p) \<Longrightarrow> rw_step (s, P) (s', P(t := p))"
| to_write_again: "P t = WaitToWrite False \<Longrightarrow> attempt s (UpgradeToWriteLock s) WaitToWrite Upgraded = (s', p) \<Longrightarrow>
    rw_step (s, P) (s', P(t := p))"
| upgrade_unlock: "P t = Upgradable \<or> P t = Upgraded \<Longrightarrow> UpgradeUnlock s = (s', n) \<Longrightarrow> rw_step (s, P) (s', P(t := Notifying n))"
| notify: "P t = Notifying n \<Longrightarrow> notified n (P(t := Out)) P' \<Longrightarrow> rw_step (s, P) (s, P')"
| spurious: "rw_step (s, P) (s, P(t := awake (P t)))"

inductive rw_run :: "CWalleveRWAccess \<times> ('t \<Rightarrow> pc) \<Rightarrow> bool" where
  start: "rw_run (rw_init, \<lambda>_. Out)"
| step: "rw_run c \<Longrightarrow> rw_step c c' \<Longrightarrow> rw_run c'"

section \<open>Counting the threads\<close>

fun writer :: "pc \<Rightarrow> bool" where
  "writer (WaitWrite _) = True" | "writer Writing = True" | "writer _ = False"

fun exclusive :: "pc \<Rightarrow> bool" where
  "exclusive Writing = True" | "exclusive Upgradable = True" | "exclusive (WaitToWrite _) = True" | "exclusive Upgraded = True"
| "exclusive _ = False"

fun upgrading :: "pc \<Rightarrow> bool" where
  "upgrading (WaitToWrite _) = True" | "upgrading Upgraded = True" | "upgrading _ = False"

abbreviation count :: "(pc \<Rightarrow> bool) \<Rightarrow> ('t \<Rightarrow> pc) \<Rightarrow> nat" where
  "count Q P \<equiv> card {t. Q (P t)}"

lemma count_upd:
  assumes "finite {t. Q (P t)}"
  shows "count Q (P(t := p)) + of_bool (Q (P t)) = count Q P + of_bool (Q p)" "finite {x. Q ((P(t := p)) x)}"
proof -
  have "{x. Q ((P(t := p)) x)} = (if Q p then insert t {x. Q (P x)} else {x. Q (P x)} - {t})" by auto
  moreover have "t \<in> {x. Q (P x)} \<longleftrightarrow> Q (P t)" by simp
  ultimately show "count Q (P(t := p)) + of_bool (Q (P t)) = count Q P + of_bool (Q p)"
    using assms card_Suc_Diff1 [OF assms, of t] by (auto simp: card_insert_if)
  show "finite {x. Q ((P(t := p)) x)}" using assms by (auto intro: rev_finite_subset [of "insert t {x. Q (P x)}"])
qed

text \<open>A notification changes nothing but the flags.\<close>

lemma notified_flags: "notified n P P' \<Longrightarrow> awake (P' t) = awake (P t)"
  by (induction rule: notified.induct) (auto split: pc.splits)

definition flagless :: "(pc \<Rightarrow> bool) \<Rightarrow> bool" where
  "flagless Q \<longleftrightarrow> (\<forall>p. Q (awake p) = Q p)"

lemma flagless_simps [simp]: "flagless writer" "flagless exclusive" "flagless upgrading" "flagless ((=) Reading)"
  "flagless ((=) Writing)" "flagless ((=) Upgraded)" "flagless ((=) Upgradable)" "flagless ((=) Out)"
  "flagless ((=) (Notifying k))"
  unfolding flagless_def by (intro allI; case_tac p; simp)+

lemma notified_same: "notified n P P' \<Longrightarrow> flagless Q \<Longrightarrow> Q (P' t) = Q (P t)"
  using notified_flags [of n P P' t] by (metis flagless_def)

section \<open>Exclusion\<close>

text \<open>The variables count the threads, at most one thread is exclusive, and it has no readers beside it once it writes.\<close>

definition lock_inv :: "CWalleveRWAccess \<Rightarrow> ('t \<Rightarrow> pc) \<Rightarrow> bool" where
  "lock_inv s P \<longleftrightarrow> finite {t. P t \<noteq> Out}
     \<and> rw_nRead s = count ((=) Reading) P \<and> rw_nWrite s = count writer P
     \<and> (rw_fExclusive s \<longleftrightarrow> (\<exists>t. exclusive (P t))) \<and> (\<forall>t t'. exclusive (P t) \<longrightarrow> exclusive (P t') \<longrightarrow> t = t')
     \<and> (rw_fUpgraded s \<longleftrightarrow> (\<exists>t. upgrading (P t)))
     \<and> (\<forall>t t'. P t = Writing \<or> P t = Upgraded \<longrightarrow> P t' \<noteq> Reading)"

lemma lock_invD:
  assumes "lock_inv s P"
  shows "finite {t. P t \<noteq> Out}" "rw_nRead s = count ((=) Reading) P" "rw_nWrite s = count writer P"
    "rw_fExclusive s \<longleftrightarrow> (\<exists>t. exclusive (P t))" "exclusive (P t) \<Longrightarrow> exclusive (P t') \<Longrightarrow> t = t'"
    "rw_fUpgraded s \<longleftrightarrow> (\<exists>t. upgrading (P t))" "P t = Writing \<or> P t = Upgraded \<Longrightarrow> P t' \<noteq> Reading"
    "finite {t. Reading = P t}" "finite {t. writer (P t)}"
proof -
  show fin: "finite {t. P t \<noteq> Out}" using assms by (simp add: lock_inv_def)
  show "finite {t. Reading = P t}" "finite {t. writer (P t)}" by (rule rev_finite_subset [OF fin]; auto)+
  show "rw_nRead s = count ((=) Reading) P" "rw_nWrite s = count writer P"
    "rw_fExclusive s \<longleftrightarrow> (\<exists>t. exclusive (P t))" "rw_fUpgraded s \<longleftrightarrow> (\<exists>t. upgrading (P t))"
    using assms by (simp_all add: lock_inv_def)
  show "exclusive (P t) \<Longrightarrow> exclusive (P t') \<Longrightarrow> t = t'" "P t = Writing \<or> P t = Upgraded \<Longrightarrow> P t' \<noteq> Reading"
    using assms unfolding lock_inv_def by blast+
qed

lemma lock_inv_flags:
  assumes "lock_inv s P" and "\<And>t. awake (P' t) = awake (P t)"
  shows "lock_inv s P'"
proof -
  have same: "Q (P' t) = Q (P t)" if "flagless Q" for Q t using that assms(2) [of t] by (metis flagless_def)
  have "(P' t = Out) = (P t = Out)" "(P' t = Reading) = (P t = Reading)" "(P' t = Writing) = (P t = Writing)"
    "(P' t = Upgraded) = (P t = Upgraded)" for t
    using same [of "(=) Out" t] same [of "(=) Reading" t] same [of "(=) Writing" t] same [of "(=) Upgraded" t] by auto
  then show ?thesis
    using assms(1) same [of writer] same [of exclusive] same [of upgrading] same [of "(=) Reading"] unfolding lock_inv_def by simp
qed

lemma upgrading_exclusive: "upgrading p \<Longrightarrow> exclusive p"
  by (cases p) auto

lemma not_reading_iff: "lock_inv s P \<Longrightarrow> rw_nRead s = 0 \<longleftrightarrow> (\<forall>t. P t \<noteq> Reading)"
  using lock_invD(2,8) [of s P] by (simp add: eq_commute [of Reading])

lemma no_writer_iff: "lock_inv s P \<Longrightarrow> rw_nWrite s = 0 \<longleftrightarrow> (\<forall>t. \<not> writer (P t))"
  using lock_invD(3,9) [of s P] by auto

text \<open>One thread moves.\<close>

lemma lock_inv_move:
  assumes inv: "lock_inv s P"
    and "rw_nRead s' + of_bool (P t = Reading) = rw_nRead s + of_bool (p = Reading)"
    and "rw_nWrite s' + of_bool (writer (P t)) = rw_nWrite s + of_bool (writer p)"
    and "rw_fExclusive s' \<longleftrightarrow> exclusive p \<or> rw_fExclusive s \<and> \<not> exclusive (P t)" and "exclusive p \<Longrightarrow> exclusive (P t) \<or> \<not> rw_fExclusive s"
    and "rw_fUpgraded s' \<longleftrightarrow> upgrading p \<or> rw_fUpgraded s \<and> \<not> upgrading (P t)"
    and "p = Writing \<or> p = Upgraded \<Longrightarrow> rw_nRead s = 0" and "p = Reading \<Longrightarrow> rw_nWrite s = 0 \<and> \<not> rw_fUpgraded s"
  shows "lock_inv s' (P(t := p))"
proof -
  note I = lock_invD [OF inv]
  have "finite {x. (P(t := p)) x \<noteq> Out}" using I(1) by (auto intro: rev_finite_subset [of "insert t {x. P x \<noteq> Out}"])
  moreover have "rw_nRead s' = count ((=) Reading) (P(t := p))"
    using count_upd(1) [of "(=) Reading" P t p, OF I(8)] assms(2) I(2) by (simp only: eq_commute [of Reading])
  moreover have "rw_nWrite s' = count writer (P(t := p))"
    using count_upd(1) [of writer P t p, OF I(9)] assms(3) I(3) by linarith
  moreover have "rw_fExclusive s' \<longleftrightarrow> (\<exists>x. exclusive ((P(t := p)) x))"
    unfolding assms(4) I(4) using I(5) by (auto simp: fun_upd_def) metis+
  moreover have "\<forall>x y. exclusive ((P(t := p)) x) \<longrightarrow> exclusive ((P(t := p)) y) \<longrightarrow> x = y"
    using I(4,5) assms(5) by (auto simp: fun_upd_def)
  moreover have "rw_fUpgraded s' \<longleftrightarrow> (\<exists>x. upgrading ((P(t := p)) x))"
    unfolding assms(6) I(6) using I(5) upgrading_exclusive by (auto simp: fun_upd_def) metis+
  moreover have "\<forall>x y. (P(t := p)) x = Writing \<or> (P(t := p)) x = Upgraded \<longrightarrow> (P(t := p)) y \<noteq> Reading"
    using I(7) assms(7,8) not_reading_iff [OF inv] no_writer_iff [OF inv] I(6)
    by (auto simp: fun_upd_def) (metis writer.simps(2), metis upgrading.simps(2))
  ultimately show ?thesis unfolding lock_inv_def by blast
qed

lemma attempt_cases:
  assumes "attempt s r wait held = (s', p)"
  obtains "r = None" "s' = s" "p = wait True" | "r = Some s'" "p = held"
  using assms by (cases r) auto

lemma lock_inv_notified: "lock_inv s P \<Longrightarrow> notified n P P' \<Longrightarrow> lock_inv s P'"
  using lock_inv_flags [of s P P'] notified_flags [of n P P'] by simp

lemma lock_inv_holds:
  assumes "lock_inv s P"
  shows "P t = Reading \<Longrightarrow> rw_nRead s > 0" "writer (P t) \<Longrightarrow> rw_nWrite s > 0" "exclusive (P t) \<Longrightarrow> rw_fExclusive s"
    "upgrading (P t) \<Longrightarrow> rw_fUpgraded s" "exclusive (P t) \<Longrightarrow> \<not> upgrading (P t) \<Longrightarrow> \<not> rw_fUpgraded s"
    "P t = Writing \<or> P t = Upgraded \<Longrightarrow> rw_nRead s = 0"
proof -
  show "P t = Reading \<Longrightarrow> rw_nRead s > 0" using not_reading_iff [OF assms] by auto
  show "writer (P t) \<Longrightarrow> rw_nWrite s > 0" using no_writer_iff [OF assms] by auto
  show "exclusive (P t) \<Longrightarrow> rw_fExclusive s" "upgrading (P t) \<Longrightarrow> rw_fUpgraded s" using lock_invD(4,6) [OF assms] by auto
  show "exclusive (P t) \<Longrightarrow> \<not> upgrading (P t) \<Longrightarrow> \<not> rw_fUpgraded s"
    using lock_invD(5,6) [OF assms] upgrading_exclusive by metis
  show "P t = Writing \<or> P t = Upgraded \<Longrightarrow> rw_nRead s = 0" using not_reading_iff [OF assms] lock_invD(7) [OF assms] by blast
qed

lemmas rw_defs = ReadLock_def ReadTryLock_def ReadUnlock_def WriteLock_announce_def WriteLock_def WriteUnlock_def UpgradeLock_def
  UpgradeToWriteLock_announce_def UpgradeToWriteLock_def UpgradeUnlock_def Let_def

lemma lock_inv_step:
  assumes "rw_step c c'" and "lock_inv (fst c) (snd c)"
  shows "lock_inv (fst c') (snd c')"
  using assms
proof (induction rule: rw_step.induct)
  case (read_call P t s s' p)
  then show ?case unfolding fst_conv snd_conv by (elim attempt_cases; intro lock_inv_move [of s P]) (auto simp: rw_defs split: if_splits)
next
  case (try_read P t s ok s')
  have "lock_inv s' (P(t := Reading))" if "ok"
    using try_read that by (intro lock_inv_move [of s P]) (auto simp: rw_defs split: if_splits)
  then show ?case using try_read by (auto simp: rw_defs split: if_splits)
next
  case (read_unlock P t s s' n)
  then show ?case unfolding fst_conv snd_conv
    using lock_inv_holds(1) [of s P t] by (intro lock_inv_move [of s P]) (auto simp: rw_defs)
next
  case (write_call P t s1 s s' p)
  then show ?case unfolding fst_conv snd_conv by (elim attempt_cases; intro lock_inv_move [of s P]) (auto simp: rw_defs split: if_splits)
next
  case (write_again P t s s' p)
  then show ?case unfolding fst_conv snd_conv by (elim attempt_cases; intro lock_inv_move [of s P]) (auto simp: rw_defs split: if_splits)
next
  case (write_unlock P t s s' n)
  then show ?case unfolding fst_conv snd_conv
    using lock_inv_holds(2,3,5) [of s P t] by (intro lock_inv_move [of s P]) (auto simp: rw_defs)
next
  case (upgrade_call P t s s' p)
  then show ?case unfolding fst_conv snd_conv by (elim attempt_cases; intro lock_inv_move [of s P]) (auto simp: rw_defs split: if_splits)
next
  case (to_write_call P t s1 s s' p)
  then show ?case unfolding fst_conv snd_conv using lock_inv_holds(3) [of s P t] by (elim attempt_cases; intro lock_inv_move [of s P]) (auto simp: rw_defs split: if_splits)
next
  case (to_write_again P t s s' p)
  then show ?case unfolding fst_conv snd_conv using lock_inv_holds(3,4) [of s P t] by (elim attempt_cases; intro lock_inv_move [of s P]) (auto simp: rw_defs split: if_splits)
next
  case (upgrade_unlock P t s s' n)
  then show ?case unfolding fst_conv snd_conv
    using lock_inv_holds(5) [of s P t] by (intro lock_inv_move [of s P]) (auto simp: rw_defs)
next
  case (notify P t n P' s)
  then have "lock_inv s (P(t := Out))" unfolding fst_conv snd_conv by (intro lock_inv_move [of s P]) auto
  then show ?case using lock_inv_notified notify by simp
next
  case (spurious s P t)
  have "awake ((P(t := awake (P t))) x) = awake (P x)" for x by (cases "P t") auto
  then show ?case using lock_inv_flags [of s P] spurious by simp
qed

section \<open>Progress\<close>

definition pending :: "notify \<Rightarrow> ('t \<Rightarrow> pc) \<Rightarrow> bool" where
  "pending n P \<longleftrightarrow> (\<exists>t. P t = Notifying n)"

text \<open>When the lock is free a writer is awake, or no thread sleeps that could go on, or the notification is on its way.\<close>

definition wake_inv :: "CWalleveRWAccess \<Rightarrow> ('t \<Rightarrow> pc) \<Rightarrow> bool" where
  "wake_inv s P \<longleftrightarrow>
     (rw_nRead s = 0 \<and> \<not> rw_fExclusive s \<and> rw_nWrite s \<noteq> 0 \<longrightarrow> (\<exists>t. P t = WaitWrite False) \<or> pending NotifyOneWrite P)
     \<and> (rw_nWrite s = 0 \<and> \<not> rw_fUpgraded s \<longrightarrow> (\<forall>t. P t \<noteq> WaitRead True) \<or> pending NotifyAllRead P)
     \<and> (rw_nWrite s = 0 \<and> \<not> rw_fExclusive s \<longrightarrow> (\<forall>t. P t \<noteq> WaitUpgrade True) \<or> pending NotifyAllRead P)
     \<and> (rw_nRead s = 0 \<longrightarrow> (\<forall>t. P t \<noteq> WaitToWrite True) \<or> pending NotifyOneUpgrade P)"

lemma wake_invD:
  assumes "wake_inv s P"
  shows "rw_nRead s = 0 \<Longrightarrow> \<not> rw_fExclusive s \<Longrightarrow> rw_nWrite s \<noteq> 0 \<Longrightarrow> (\<exists>t. P t = WaitWrite False) \<or> pending NotifyOneWrite P"
    "rw_nWrite s = 0 \<Longrightarrow> \<not> rw_fUpgraded s \<Longrightarrow> P t \<noteq> WaitRead True \<or> pending NotifyAllRead P"
    "rw_nWrite s = 0 \<Longrightarrow> \<not> rw_fExclusive s \<Longrightarrow> P t \<noteq> WaitUpgrade True \<or> pending NotifyAllRead P"
    "rw_nRead s = 0 \<Longrightarrow> P t \<noteq> WaitToWrite True \<or> pending NotifyOneUpgrade P"
  using assms unfolding wake_inv_def by blast+

text \<open>The notifications that the functions send.\<close>

lemma notified_write: "notified NotifyOneWrite P P' \<Longrightarrow> writer (P t) \<Longrightarrow> P t \<noteq> Writing \<Longrightarrow> \<exists>x. P' x = WaitWrite False"
proof (induction NotifyOneWrite P P' rule: notified.induct)
  case (no_write P)
  then have "P t = WaitWrite False" by (cases "P t") auto
  then show ?case by blast
qed auto

lemma notified_upgrade: "notified NotifyOneUpgrade P P' \<Longrightarrow> (\<And>t t'. upgrading (P t) \<Longrightarrow> upgrading (P t') \<Longrightarrow> t = t') \<Longrightarrow> P' x \<noteq> WaitToWrite True"
proof (induction NotifyOneUpgrade P P' rule: notified.induct)
  case (one_upgrade P t)
  then show ?case using one_upgrade(2) [of x t] by auto
qed auto

lemma notified_read: "notified NotifyAllRead P P' \<Longrightarrow> P' x \<noteq> WaitRead True \<and> P' x \<noteq> WaitUpgrade True"
  by (induction NotifyAllRead P P' rule: notified.induct) (auto split: pc.splits)

lemma notified_asleep:
  assumes "notified n P P'"
  shows "P' x = WaitRead True \<Longrightarrow> P x = WaitRead True" "P' x = WaitUpgrade True \<Longrightarrow> P x = WaitUpgrade True"
    "P' x = WaitToWrite True \<Longrightarrow> P x = WaitToWrite True" "P x = WaitWrite False \<Longrightarrow> P' x = WaitWrite False"
  using assms by (induction rule: notified.induct) (auto split: pc.splits if_splits)

lemma some_writer:
  assumes "lock_inv s P" and "rw_nWrite s \<noteq> 0" and "\<not> rw_fExclusive s"
  obtains t where "writer (P t)" "P t \<noteq> Writing"
  using assms no_writer_iff [OF assms(1)] lock_invD(4) [OF assms(1)] by (metis exclusive.simps(1))

lemma pending_upd: "pending n P \<Longrightarrow> P t \<noteq> Notifying n \<Longrightarrow> pending n (P(t := p))"
  unfolding pending_def by (metis fun_upd_other)

lemma pending_new: "pending n (P(t := Notifying n))"
  unfolding pending_def by (rule exI [of _ t]) simp

lemma wake_inv_move:
  assumes "wake_inv s P" and nt: "\<And>n. P t \<noteq> Notifying n"
    and "rw_nRead s' = 0 \<Longrightarrow> \<not> rw_fExclusive s' \<Longrightarrow> rw_nWrite s' \<noteq> 0 \<Longrightarrow>
      p = WaitWrite False \<or> p = Notifying NotifyOneWrite \<or> P t \<noteq> WaitWrite False \<and> rw_nRead s = 0 \<and> \<not> rw_fExclusive s \<and> rw_nWrite s \<noteq> 0"
    and "rw_nWrite s' = 0 \<Longrightarrow> \<not> rw_fUpgraded s' \<Longrightarrow>
      p = Notifying NotifyAllRead \<or> p \<noteq> WaitRead True \<and> rw_nWrite s = 0 \<and> \<not> rw_fUpgraded s"
    and "rw_nWrite s' = 0 \<Longrightarrow> \<not> rw_fExclusive s' \<Longrightarrow>
      p = Notifying NotifyAllRead \<or> p \<noteq> WaitUpgrade True \<and> rw_nWrite s = 0 \<and> \<not> rw_fExclusive s"
    and "rw_nRead s' = 0 \<Longrightarrow>
      p = Notifying NotifyOneUpgrade \<or> p \<noteq> WaitToWrite True \<and> (rw_nRead s = 0 \<or> (\<forall>x. P x \<noteq> WaitToWrite True))"
  shows "wake_inv s' (P(t := p))"
proof -
  note W = wake_invD [OF assms(1)]
  have U: "pending n (P(t := p))" if "pending n P" for n using that nt by (rule pending_upd)
  have "(\<exists>x. (P(t := p)) x = WaitWrite False) \<or> pending NotifyOneWrite (P(t := p))"
    if "rw_nRead s' = 0" "\<not> rw_fExclusive s'" "rw_nWrite s' \<noteq> 0"
    using assms(3) [OF that] W(1) U pending_new by (metis fun_upd_apply)
  moreover have "(P(t := p)) x \<noteq> WaitRead True \<or> pending NotifyAllRead (P(t := p))" if "rw_nWrite s' = 0" "\<not> rw_fUpgraded s'" for x
    using assms(4) [OF that] W(2) [of x] U pending_new by (metis fun_upd_apply)
  moreover have "(P(t := p)) x \<noteq> WaitUpgrade True \<or> pending NotifyAllRead (P(t := p))" if "rw_nWrite s' = 0" "\<not> rw_fExclusive s'" for x
    using assms(5) [OF that] W(3) [of x] U pending_new by (metis fun_upd_apply)
  moreover have "(P(t := p)) x \<noteq> WaitToWrite True \<or> pending NotifyOneUpgrade (P(t := p))" if "rw_nRead s' = 0" for x
    using assms(6) [OF that] W(4) [of x] U pending_new by (metis fun_upd_apply)
  ultimately show ?thesis unfolding wake_inv_def by blast
qed

text \<open>After a notification is sent, it has woken whom it was for.\<close>

lemma notified_pending:
  assumes "notified n (P(t := Out)) P'" and "P t = Notifying n" and "pending k P" and "k \<noteq> n"
  shows "pending k P'"
proof -
  obtain y where y: "P y = Notifying k" using assms(3) by (auto simp: pending_def)
  then have "y \<noteq> t" using assms(2,4) by auto
  then have "P' y = Notifying k" using notified_same [OF assms(1), of "(=) (Notifying k)" y] y by simp
  then show ?thesis by (auto simp: pending_def)
qed

lemma notified_sends:
  assumes inv: "lock_inv s P" and n: "notified n (P(t := Out)) P'" and t: "P t = Notifying n"
  shows "n = NotifyOneWrite \<Longrightarrow> rw_nWrite s \<noteq> 0 \<Longrightarrow> \<not> rw_fExclusive s \<Longrightarrow> \<exists>x. P' x = WaitWrite False"
    "n = NotifyAllRead \<Longrightarrow> P' x \<noteq> WaitRead True \<and> P' x \<noteq> WaitUpgrade True"
    "n = NotifyOneUpgrade \<Longrightarrow> P' x \<noteq> WaitToWrite True"
    "P' x = WaitRead True \<Longrightarrow> P x = WaitRead True" "P' x = WaitUpgrade True \<Longrightarrow> P x = WaitUpgrade True"
    "P' x = WaitToWrite True \<Longrightarrow> P x = WaitToWrite True" "P x = WaitWrite False \<Longrightarrow> P' x = WaitWrite False"
proof -
  have out: "lock_inv s (P(t := Out))" using inv t by (intro lock_inv_move [of s P]) auto
  show "\<exists>x. P' x = WaitWrite False" if "n = NotifyOneWrite" "rw_nWrite s \<noteq> 0" "\<not> rw_fExclusive s"
    by (rule some_writer [OF out that(2,3)], rule notified_write [of "P(t := Out)"]) (use n that(1) in simp_all)
  show "n = NotifyAllRead \<Longrightarrow> P' x \<noteq> WaitRead True \<and> P' x \<noteq> WaitUpgrade True" using n notified_read [of "P(t := Out)" P' x] by simp
  show "P' x \<noteq> WaitToWrite True" if "n = NotifyOneUpgrade"
  proof (rule notified_upgrade [of "P(t := Out)"])
    show "notified NotifyOneUpgrade (P(t := Out)) P'" using n that by simp
    show "y = z" if "upgrading ((P(t := Out)) y)" "upgrading ((P(t := Out)) z)" for y z
      using that [THEN upgrading_exclusive] by (rule lock_invD(5) [OF out])
  qed
  show "P' x = WaitRead True \<Longrightarrow> P x = WaitRead True" "P' x = WaitUpgrade True \<Longrightarrow> P x = WaitUpgrade True"
    "P' x = WaitToWrite True \<Longrightarrow> P x = WaitToWrite True" "P x = WaitWrite False \<Longrightarrow> P' x = WaitWrite False"
    using notified_asleep [OF n, of x] t by (cases "x = t"; simp)+
qed

lemma wake_inv_notified:
  assumes "lock_inv s P" and w: "wake_inv s P" and n: "notified n (P(t := Out)) P'" and "P t = Notifying n"
  shows "wake_inv s P'"
proof -
  note W = wake_invD [OF w] and N = notified_sends [OF assms(1) n assms(4)] and K = notified_pending [OF n assms(4)]
  have "(\<exists>t. P' t = WaitWrite False) \<or> pending NotifyOneWrite P'" if "rw_nRead s = 0" "\<not> rw_fExclusive s" "rw_nWrite s \<noteq> 0"
    using W(1) [OF that] N(1,7) K that by metis
  moreover have "P' x \<noteq> WaitRead True \<or> pending NotifyAllRead P'" if "rw_nWrite s = 0" "\<not> rw_fUpgraded s" for x
    using W(2) [OF that] N(2,4) K by metis
  moreover have "P' x \<noteq> WaitUpgrade True \<or> pending NotifyAllRead P'" if "rw_nWrite s = 0" "\<not> rw_fExclusive s" for x
    using W(3) [OF that] N(2,5) K by metis
  moreover have "P' x \<noteq> WaitToWrite True \<or> pending NotifyOneUpgrade P'" if "rw_nRead s = 0" for x
    using W(4) [OF that] N(3,6) K by metis
  ultimately show ?thesis unfolding wake_inv_def by blast
qed

lemma wake_inv_unlock:
  assumes inv: "lock_inv s P" and "wake_inv s P"
    and "P t = Reading \<and> ReadUnlock s = (s', n) \<or> P t = Writing \<and> WriteUnlock s = (s', n)
      \<or> (P t = Upgradable \<or> P t = Upgraded) \<and> UpgradeUnlock s = (s', n)"
  shows "wake_inv s' (P(t := Notifying n))"
proof -
  have "\<not> rw_fExclusive s \<Longrightarrow> P x \<noteq> WaitToWrite True" for x using lock_inv_holds(3) [OF inv, of x] by auto
  then show ?thesis
    using assms(3) lock_inv_holds [OF inv, of t]
    by (intro wake_inv_move [OF assms(2)]; elim disjE conjE) (auto simp: rw_defs split: if_splits)
qed

lemma wake_inv_step:
  assumes "rw_step c c'" and "lock_inv (fst c) (snd c)" and "lock_inv (fst c') (snd c')" and "wake_inv (fst c) (snd c)"
  shows "wake_inv (fst c') (snd c')"
  using assms
proof (induction rule: rw_step.induct)
  case (read_call P t s s' p)
  then show ?case unfolding fst_conv snd_conv
    by (elim attempt_cases; intro wake_inv_move [of s P]) (auto simp: rw_defs split: if_splits)
next
  case (try_read P t s ok s')
  have "wake_inv s' (P(t := Reading))" if "ok"
    using try_read that by (intro wake_inv_move [of s P]) (auto simp: rw_defs split: if_splits)
  then show ?case using try_read by (auto simp: rw_defs split: if_splits)
next
  case (write_call P t s1 s s' p)
  then show ?case unfolding fst_conv snd_conv
    by (elim attempt_cases; intro wake_inv_move [of s P]) (auto simp: rw_defs split: if_splits)
next
  case (write_again P t s s' p)
  then show ?case unfolding fst_conv snd_conv
    by (elim attempt_cases; intro wake_inv_move [of s P]) (auto simp: rw_defs split: if_splits)
next
  case (upgrade_call P t s s' p)
  then show ?case unfolding fst_conv snd_conv
    by (elim attempt_cases; intro wake_inv_move [of s P]) (auto simp: rw_defs split: if_splits)
next
  case (to_write_call P t s1 s s' p)
  then show ?case unfolding fst_conv snd_conv using lock_inv_holds(3) [of s P t]
    by (elim attempt_cases; intro wake_inv_move [of s P]) (auto simp: rw_defs split: if_splits)
next
  case (to_write_again P t s s' p)
  then show ?case unfolding fst_conv snd_conv
    by (elim attempt_cases; intro wake_inv_move [of s P]) (auto simp: rw_defs split: if_splits)
next
  case (spurious s P t)
  show ?case
  proof (cases "\<exists>n. P t = Notifying n")
    case True
    then have "P(t := awake (P t)) = P" by (auto simp: fun_eq_iff)
    then show ?thesis using spurious by simp
  next
    case False
    then show ?thesis
      using spurious unfolding fst_conv snd_conv by (cases "P t"; intro wake_inv_move [of s P]) auto
  qed
next
  case (read_unlock P t s s' n)
  then show ?case unfolding fst_conv snd_conv by (intro wake_inv_unlock [of s P]) simp_all
next
  case (write_unlock P t s s' n)
  then show ?case unfolding fst_conv snd_conv by (intro wake_inv_unlock [of s P]) simp_all
next
  case (upgrade_unlock P t s s' n)
  then show ?case unfolding fst_conv snd_conv by (intro wake_inv_unlock [of s P]) simp_all
next
  case (notify P t n P' s)
  then show ?case using wake_inv_notified [of s P n t P'] by simp
qed

lemma rw_run_inv: "rw_run c \<Longrightarrow> lock_inv (fst c) (snd c) \<and> wake_inv (fst c) (snd c)"
proof (induction rule: rw_run.induct)
  case start
  show ?case by (simp add: lock_inv_def wake_inv_def rw_init_def)
next
  case (step c c')
  then show ?case using lock_inv_step wake_inv_step by blast
qed

section \<open>Properties\<close>

fun holds :: "pc \<Rightarrow> bool" where
  "holds Reading = True" | "holds Writing = True" | "holds Upgradable = True" | "holds Upgraded = True" | "holds _ = False"

fun waits :: "pc \<Rightarrow> bool" where
  "waits (WaitRead _) = True" | "waits (WaitWrite _) = True" | "waits (WaitUpgrade _) = True" | "waits (WaitToWrite _) = True"
| "waits _ = False"

text \<open>Property C12: while a thread writes, no other thread reads, writes or holds the upgradable lock; while a thread holds the
  upgradable lock, no other thread writes or holds it too.\<close>

theorem rw_exclusion:
  assumes "rw_run (s, P)" and "t' \<noteq> t"
  shows "(P t = Writing \<or> P t = Upgraded \<longrightarrow> \<not> holds (P t')) \<and> (P t = Upgradable \<longrightarrow> \<not> holds (P t') \<or> P t' = Reading)"
proof -
  have inv: "lock_inv s P" using rw_run_inv [OF assms(1)] by simp
  have "\<not> exclusive (P t')" if "exclusive (P t)" using lock_invD(5) [OF inv, of t' t] that assms(2) by blast
  moreover have "P t' \<noteq> Reading" if "P t = Writing \<or> P t = Upgraded" using lock_invD(7) [OF inv that] .
  ultimately show ?thesis by (cases "P t'") auto
qed

lemma example_write_run: "rw_run (rw_init\<lparr>rw_nWrite := 1, rw_fExclusive := True\<rparr>, (\<lambda>_. Out)(0 :: nat := Writing))"
proof (rule rw_run.step [OF rw_run.start])
  show "rw_step (rw_init, \<lambda>_. Out) (rw_init\<lparr>rw_nWrite := 1, rw_fExclusive := True\<rparr>, (\<lambda>_. Out)(0 :: nat := Writing))"
    by (rule rw_step.write_call [where ?s1.0 = "WriteLock_announce rw_init"]) (simp_all add: WriteLock_announce_def WriteLock_def rw_init_def)
qed

theorem rw_exclusion_witness: "\<not> holds (((\<lambda>_. Out)(0 :: nat := Writing)) 1)"
  using rw_exclusion [OF example_write_run, of 1 0] by simp

text \<open>A waiting thread obtains the lock with its next attempt.\<close>

definition can_enter :: "CWalleveRWAccess \<Rightarrow> ('t \<Rightarrow> pc) \<Rightarrow> bool" where
  "can_enter s P \<longleftrightarrow> (\<exists>t s' p. waits (P t) \<and> holds p \<and> rw_step (s, P) (s', P(t := p)))"

lemma can_enter_awake:
  "P x = WaitToWrite False \<Longrightarrow> rw_nRead s = 0 \<Longrightarrow> can_enter s P"
  "P x = WaitWrite False \<Longrightarrow> rw_nRead s = 0 \<Longrightarrow> \<not> rw_fExclusive s \<Longrightarrow> can_enter s P"
  "P x = WaitRead False \<Longrightarrow> rw_nWrite s = 0 \<Longrightarrow> \<not> rw_fUpgraded s \<Longrightarrow> can_enter s P"
  "P x = WaitUpgrade False \<Longrightarrow> \<not> rw_fExclusive s \<Longrightarrow> can_enter s P"
proof -
  assume x: "P x = WaitToWrite False" and r: "rw_nRead s = 0"
  have "rw_step (s, P) (s, P(x := Upgraded))" using x by (rule rw_step.to_write_again) (simp add: UpgradeToWriteLock_def r)
  with x show "can_enter s P" unfolding can_enter_def by (metis holds.simps(4) waits.simps(4))
next
  assume x: "P x = WaitWrite False" and f: "rw_nRead s = 0" "\<not> rw_fExclusive s"
  have "rw_step (s, P) (s\<lparr>rw_fExclusive := True\<rparr>, P(x := Writing))" using x by (rule rw_step.write_again) (simp add: WriteLock_def f)
  with x show "can_enter s P" unfolding can_enter_def by (metis holds.simps(2) waits.simps(2))
next
  assume x: "P x = WaitRead False" and f: "rw_nWrite s = 0" "\<not> rw_fUpgraded s"
  have "rw_step (s, P) (s\<lparr>rw_nRead := rw_nRead s + 1\<rparr>, P(x := Reading))"
    using x by (intro rw_step.read_call) (simp_all add: ReadLock_def f)
  with x show "can_enter s P" unfolding can_enter_def by (metis holds.simps(1) waits.simps(1))
next
  assume x: "P x = WaitUpgrade False" and f: "\<not> rw_fExclusive s"
  have "rw_step (s, P) (s\<lparr>rw_fExclusive := True\<rparr>, P(x := Upgradable))"
    using x by (intro rw_step.upgrade_call) (simp_all add: UpgradeLock_def f)
  with x show "can_enter s P" unfolding can_enter_def by (metis holds.simps(3) waits.simps(3))
qed

text \<open>The same in terms of the thread that still has to wake up.\<close>

lemma can_enter_waiting:
  assumes "lock_inv s P" and "waits (P x)" and r: "rw_nRead s = 0" and free: "\<not> rw_fExclusive s" "\<not> rw_fUpgraded s" "rw_nWrite s = 0"
    and "P x \<noteq> WaitRead True" "P x \<noteq> WaitUpgrade True"
  shows "can_enter s P"
proof -
  have "\<not> writer (P x)" "\<not> upgrading (P x)" using no_writer_iff [OF assms(1)] lock_invD(6) [OF assms(1)] free by auto
  then have "P x = WaitRead False \<or> P x = WaitUpgrade False" using assms(2,7,8) by (cases "P x") auto
  then show ?thesis using can_enter_awake(3,4) [of P x s] free by blast
qed

lemma notified_total: "\<exists>P'. notified n P P'"
  by (cases n) (blast intro: notified.intros)+

lemma waits_flagless: "flagless waits"
  unfolding flagless_def by (intro allI; case_tac p; simp)

text \<open>Property C13: no wake-up is lost, although the unlocking functions notify after they have released the mutex.  Whenever
  threads wait for the lock and no thread holds it, one of the waiting threads is awake and obtains the lock with its next
  attempt; or a thread that has unlocked is about to send a notification, and whomever that notification wakes,
  one of the waiting threads then obtains the lock with its next attempt.\<close>

theorem rw_no_lost_wakeup:
  assumes "rw_run (s, P)" and "waits (P t)" and "\<forall>x. \<not> holds (P x)"
  shows "can_enter s P
    \<or> (\<exists>y n. P y = Notifying n \<and> (\<exists>P'. notified n (P(y := Out)) P') \<and> (\<forall>P'. notified n (P(y := Out)) P' \<longrightarrow> can_enter s P'))"
proof (cases "can_enter s P")
  case ne: False
  have inv: "lock_inv s P" and wake: "wake_inv s P" using rw_run_inv [OF assms(1)] by simp_all
  note W = wake_invD [OF wake] and N = notified_sends [OF inv]
  have inv': "lock_inv s P'" if "P y = Notifying n" "notified n (P(y := Out)) P'" for y n P'
    using lock_inv_step [OF rw_step.notify [where s = s, OF that]] inv by simp
  have r: "rw_nRead s = 0" using not_reading_iff [OF inv] assms(3) by (metis holds.simps(1))
  have "\<exists>n. pending n P \<and> (\<forall>y P'. P y = Notifying n \<longrightarrow> notified n (P(y := Out)) P' \<longrightarrow> can_enter s P')"
  proof -
    consider (up) x b where "P x = WaitToWrite b" | (free) "\<not> rw_fExclusive s" "\<not> rw_fUpgraded s"
      using lock_invD(4,6) [OF inv] assms(3) by (metis exclusive.elims(2) holds.simps(2-4) upgrading_exclusive)
    then show ?thesis
    proof cases
      case up
      have "can_enter s P'" if y: "P y = Notifying NotifyOneUpgrade" and n: "notified NotifyOneUpgrade (P(y := Out)) P'" for y P'
      proof -
        have "awake (P' x) = WaitToWrite False" using notified_flags [OF n, of x] up y by auto
        then have "P' x = WaitToWrite False" using N(3) [OF n y refl, of x] by (cases "P' x") auto
        then show ?thesis by (rule can_enter_awake(1) [OF _ r])
      qed
      moreover have "pending NotifyOneUpgrade P" using W(4) [OF r, of x] up can_enter_awake(1) [OF _ r, of P x] ne by (cases b) auto
      ultimately show ?thesis by blast
    next
      case free
      show ?thesis
      proof (cases "rw_nWrite s = 0")
        case False
        then have "pending NotifyOneWrite P" using W(1) [OF r free(1)] can_enter_awake(2) [of P _ s, OF _ r free(1)] ne by metis
        moreover have "can_enter s P'" if "P y = Notifying NotifyOneWrite" "notified NotifyOneWrite (P(y := Out)) P'" for y P'
          using N(1) [OF that(2,1) refl False free(1)] can_enter_awake(2) [of P' _ s, OF _ r free(1)] by metis
        ultimately show ?thesis by blast
      next
        case True
        have "pending NotifyAllRead P"
          using can_enter_waiting [OF inv assms(2) r free True] W(2) [OF True free(2), of t] W(3) [OF True free(1), of t] ne by argo
        moreover have "can_enter s P'" if y: "P y = Notifying NotifyAllRead" and n: "notified NotifyAllRead (P(y := Out)) P'" for y P'
        proof -
          have "waits (P' t)" using notified_same [OF n waits_flagless, of t] assms(2) y by (auto split: if_splits)
          then show ?thesis using can_enter_waiting [OF inv' [OF y n] _ r free True, of t] N(2) [OF n y refl, of t] by blast
        qed
        ultimately show ?thesis by blast
      qed
    qed
  qed
  then obtain n y where "P y = Notifying n" "\<forall>P'. notified n (P(y := Out)) P' \<longrightarrow> can_enter s P'"
    unfolding pending_def by (elim exE conjE) simp
  with notified_total [of n "P(y := Out)"] show ?thesis by (intro disjI2 exI [of _ y] exI [of _ n] conjI)
qed (rule disjI1)

text \<open>A writer has unlocked and has not yet notified the writer that sleeps.\<close>

abbreviation example_waiting :: "nat \<Rightarrow> pc" where
  "example_waiting \<equiv> (\<lambda>_. Out)(0 := Notifying NotifyOneWrite, 1 := WaitWrite True)"

lemma example_wait_run: "rw_run (rw_init\<lparr>rw_nWrite := 1\<rparr>, example_waiting)"
proof -
  let ?P1 = "(\<lambda>_. Out)(0 :: nat := Writing)"
  let ?P2 = "?P1(1 := WaitWrite True)" and ?s2 = "rw_init\<lparr>rw_nWrite := 2, rw_fExclusive := True\<rparr>"
  have "rw_step (rw_init\<lparr>rw_nWrite := 1, rw_fExclusive := True\<rparr>, ?P1) (?s2, ?P2)"
    by (rule rw_step.write_call [where ?s1.0 = ?s2]) (simp_all add: WriteLock_announce_def WriteLock_def rw_init_def)
  then have run: "rw_run (?s2, ?P2)" by (rule rw_run.step [OF example_write_run])
  have "rw_step (?s2, ?P2) (rw_init\<lparr>rw_nWrite := 1\<rparr>, ?P2(0 := Notifying NotifyOneWrite))"
    by (rule rw_step.write_unlock) (simp_all add: WriteUnlock_def rw_init_def)
  moreover have "?P2(0 := Notifying NotifyOneWrite) = example_waiting" by (auto simp: fun_eq_iff)
  ultimately show ?thesis using rw_run.step [OF run] by simp
qed

theorem rw_no_lost_wakeup_witness:
  "waits (example_waiting 1) \<and> (\<forall>x. \<not> holds (example_waiting x)) \<and> (can_enter (rw_init\<lparr>rw_nWrite := 1\<rparr>) example_waiting
   \<or> (\<exists>y n. example_waiting y = Notifying n \<and> (\<exists>P'. notified n (example_waiting(y := Out)) P')
        \<and> (\<forall>P'. notified n (example_waiting(y := Out)) P' \<longrightarrow> can_enter (rw_init\<lparr>rw_nWrite := 1\<rparr>) P')))"
proof (intro conjI)
  show w: "waits (example_waiting 1)" and h: "\<forall>x. \<not> holds (example_waiting x)" by simp_all
  show "can_enter (rw_init\<lparr>rw_nWrite := 1\<rparr>) example_waiting
   \<or> (\<exists>y n. example_waiting y = Notifying n \<and> (\<exists>P'. notified n (example_waiting(y := Out)) P')
        \<and> (\<forall>P'. notified n (example_waiting(y := Out)) P' \<longrightarrow> can_enter (rw_init\<lparr>rw_nWrite := 1\<rparr>) P'))"
    by (rule rw_no_lost_wakeup [OF example_wait_run w h])
qed

end
