(* ===== verification/KVDB.thy ===== *)
theory KVDB
  imports Transaction "HOL-Library.List_Lexorder"
begin

text \<open>
  \<^verbatim>\<open>CKVDB\<close> (\<^verbatim>\<open>walleve/db/kvdb.h\<close>) over \<^verbatim>\<open>CLevelDBEngine\<close> (\<^verbatim>\<open>storage/leveldbeng.cpp\<close>).  The LevelDB table behind the engine is the map from
  byte strings to byte strings that it documents, ordered by key; the status that a call to the library returns is an
  argument, and a call that fails leaves the table as it was.  A database that is not open is \<^const>\<open>None\<close>.

  The locale \<^verbatim>\<open>kv_table\<close> gives a database the meaning of a map from keys to values: under the laws of the stream forms
  of both, \<^verbatim>\<open>Read\<close>, \<^verbatim>\<open>Write\<close>, \<^verbatim>\<open>Erase\<close> and a transaction act on this map.
\<close>

section \<open>The engine\<close>

datatype batch_op = BatchPut bytes bytes | BatchDelete bytes

record CLevelDBEngine =
  ldb_pdb :: "(bytes, bytes) omap"
  ldb_pbatch :: "batch_op list option"
  ldb_piter :: "(bytes \<times> bytes) list option"

fun batch_apply :: "batch_op \<Rightarrow> (bytes, bytes) omap \<Rightarrow> (bytes, bytes) omap" where
  "batch_apply (BatchPut k v) m = om_set k v m"
| "batch_apply (BatchDelete k) m = om_del k m"

definition eng_Close :: "CLevelDBEngine \<Rightarrow> CLevelDBEngine" where
  "eng_Close e = e\<lparr>ldb_pbatch := None, ldb_piter := None\<rparr>"

definition eng_TxnBegin :: "CLevelDBEngine \<Rightarrow> bool \<times> CLevelDBEngine" where
  "eng_TxnBegin e = (if ldb_pbatch e \<noteq> None then (False, e) else (True, e\<lparr>ldb_pbatch := Some []\<rparr>))"

definition eng_TxnCommit :: "bool \<Rightarrow> CLevelDBEngine \<Rightarrow> bool \<times> CLevelDBEngine" where
  "eng_TxnCommit ok e =
     (case ldb_pbatch e of
        Some b \<Rightarrow> (ok, e\<lparr>ldb_pdb := if ok then fold batch_apply b (ldb_pdb e) else ldb_pdb e, ldb_pbatch := None\<rparr>)
      | None \<Rightarrow> (False, e))"

definition eng_TxnAbort :: "CLevelDBEngine \<Rightarrow> CLevelDBEngine" where
  "eng_TxnAbort e = e\<lparr>ldb_pbatch := None\<rparr>"

definition eng_Get :: "CLevelDBEngine \<Rightarrow> bytes \<Rightarrow> bytes option" where
  "eng_Get e k = om_get (ldb_pdb e) k"

definition eng_Put :: "bool \<Rightarrow> bytes \<Rightarrow> bytes \<Rightarrow> bool \<Rightarrow> CLevelDBEngine \<Rightarrow> bool \<times> CLevelDBEngine" where
  "eng_Put ok k v fOverwrite e =
     (if \<not> fOverwrite \<and> eng_Get e k \<noteq> None then (False, e)
      else case ldb_pbatch e of
          Some b \<Rightarrow> (True, e\<lparr>ldb_pbatch := Some (b @ [BatchPut k v])\<rparr>)
        | None \<Rightarrow> (ok, if ok then e\<lparr>ldb_pdb := om_set k v (ldb_pdb e)\<rparr> else e))"

definition eng_Remove :: "bool \<Rightarrow> bytes \<Rightarrow> CLevelDBEngine \<Rightarrow> bool \<times> CLevelDBEngine" where
  "eng_Remove ok k e =
     (case ldb_pbatch e of
        Some b \<Rightarrow> (True, e\<lparr>ldb_pbatch := Some (b @ [BatchDelete k])\<rparr>)
      | None \<Rightarrow> (ok, if ok then e\<lparr>ldb_pdb := om_del k (ldb_pdb e)\<rparr> else e))"

text \<open>\<^verbatim>\<open>RemoveAll\<close> destroys the table and opens a new one.\<close>

definition eng_RemoveAll :: "bool \<Rightarrow> CLevelDBEngine \<Rightarrow> bool \<times> CLevelDBEngine" where
  "eng_RemoveAll ok e = (let e = eng_Close e in if ok then (True, e\<lparr>ldb_pdb := []\<rparr>) else (False, e))"

definition eng_MoveFirst :: "CLevelDBEngine \<Rightarrow> CLevelDBEngine" where
  "eng_MoveFirst e = e\<lparr>ldb_piter := Some (ldb_pdb e)\<rparr>"

definition eng_MoveTo :: "bytes \<Rightarrow> CLevelDBEngine \<Rightarrow> CLevelDBEngine" where
  "eng_MoveTo k e = e\<lparr>ldb_piter := Some (dropWhile (\<lambda>(k', _). k' < k) (ldb_pdb e))\<rparr>"

definition eng_MoveNext :: "CLevelDBEngine \<Rightarrow> ((bytes \<times> bytes) \<times> CLevelDBEngine) option" where
  "eng_MoveNext e =
     (case ldb_piter e of
        Some (kv # r) \<Rightarrow> Some (kv, e\<lparr>ldb_piter := Some r\<rparr>)
      | _ \<Rightarrow> None)"

section \<open>The database\<close>

type_synonym CKVDB = "CLevelDBEngine option"

definition kv_IsValid :: "CKVDB \<Rightarrow> bool" where
  "kv_IsValid db \<longleftrightarrow> db \<noteq> None"

definition kv_TxnBegin :: "CKVDB \<Rightarrow> bool \<times> CKVDB" where
  "kv_TxnBegin db = (case db of Some e \<Rightarrow> map_prod id Some (eng_TxnBegin e) | None \<Rightarrow> (False, None))"

definition kv_TxnCommit :: "bool \<Rightarrow> CKVDB \<Rightarrow> bool \<times> CKVDB" where
  "kv_TxnCommit ok db = (case db of Some e \<Rightarrow> map_prod id Some (eng_TxnCommit ok e) | None \<Rightarrow> (False, None))"

definition kv_TxnAbort :: "CKVDB \<Rightarrow> CKVDB" where
  "kv_TxnAbort db = map_option eng_TxnAbort db"

definition kv_RemoveAll :: "bool \<Rightarrow> CKVDB \<Rightarrow> bool \<times> CKVDB" where
  "kv_RemoveAll ok db =
     (case db of
        Some e \<Rightarrow> (case eng_RemoveAll ok e of (True, e') \<Rightarrow> (True, Some e') | (False, e') \<Rightarrow> (False, None))
      | None \<Rightarrow> (False, None))"

text \<open>\<^verbatim>\<open>Read\<close> returns false when the stream of the value throws.\<close>

definition kv_Read :: "('k \<Rightarrow> bytes) \<Rightarrow> 'v loader \<Rightarrow> 'k \<Rightarrow> 'v \<Rightarrow> CKVDB \<Rightarrow> bool \<times> 'v" where
  "kv_Read sk ld key x db =
     (case db of
        None \<Rightarrow> (False, x)
      | Some e \<Rightarrow>
          (case eng_Get e (sk key) of
             None \<Rightarrow> (False, x)
           | Some bs \<Rightarrow> (case ld bs of Some (y, _) \<Rightarrow> (True, y) | None \<Rightarrow> (False, x))))"

definition kv_Write :: "('k \<Rightarrow> bytes) \<Rightarrow> ('v \<Rightarrow> bytes) \<Rightarrow> bool \<Rightarrow> 'k \<Rightarrow> 'v \<Rightarrow> bool \<Rightarrow> CKVDB \<Rightarrow> bool \<times> CKVDB" where
  "kv_Write sk sv ok key x fOverwrite db =
     (case db of None \<Rightarrow> (False, None) | Some e \<Rightarrow> map_prod id Some (eng_Put ok (sk key) (sv x) fOverwrite e))"

definition kv_Erase :: "('k \<Rightarrow> bytes) \<Rightarrow> bool \<Rightarrow> 'k \<Rightarrow> CKVDB \<Rightarrow> bool \<times> CKVDB" where
  "kv_Erase sk ok key db =
     (case db of None \<Rightarrow> (False, None) | Some e \<Rightarrow> map_prod id Some (eng_Remove ok (sk key) e))"

text \<open>The loop of \<^verbatim>\<open>WalkThrough\<close>.  A walker that returns false ends the loop, which still returns true; one that throws
  (\<^const>\<open>None\<close>) makes it return false.\<close>

fun walk_loop :: "(bytes \<Rightarrow> bytes \<Rightarrow> 's \<Rightarrow> (bool \<times> 's) option) \<Rightarrow> (bytes \<times> bytes) list \<Rightarrow> 's \<Rightarrow> bool \<times> 's \<times> (bytes \<times> bytes) list" where
  "walk_loop f [] s = (True, s, [])"
| "walk_loop f ((k, v) # r) s =
     (case f k v s of
        None \<Rightarrow> (False, s, r)
      | Some (c, s') \<Rightarrow> if c then walk_loop f r s' else (True, s', r))"

definition walk_from :: "CLevelDBEngine \<Rightarrow> (bytes \<Rightarrow> bytes \<Rightarrow> 's \<Rightarrow> (bool \<times> 's) option) \<Rightarrow> 's \<Rightarrow> bool \<times> 's \<times> CKVDB" where
  "walk_from e f s =
     (case walk_loop f (case ldb_piter e of Some r \<Rightarrow> r | None \<Rightarrow> []) s of
        (ok, s', r) \<Rightarrow> (ok, s', Some (e\<lparr>ldb_piter := Some r\<rparr>)))"

definition kv_WalkThrough :: "(bytes \<Rightarrow> bytes \<Rightarrow> 's \<Rightarrow> (bool \<times> 's) option) \<Rightarrow> 's \<Rightarrow> CKVDB \<Rightarrow> bool \<times> 's \<times> CKVDB" where
  "kv_WalkThrough f s db = (case db of None \<Rightarrow> (False, s, None) | Some e \<Rightarrow> walk_from (eng_MoveFirst e) f s)"

definition kv_WalkThroughFrom ::
  "('k \<Rightarrow> bytes) \<Rightarrow> 'k \<Rightarrow> (bytes \<Rightarrow> bytes \<Rightarrow> 's \<Rightarrow> (bool \<times> 's) option) \<Rightarrow> 's \<Rightarrow> CKVDB \<Rightarrow> bool \<times> 's \<times> CKVDB" where
  "kv_WalkThroughFrom sk keyBegin f s db =
     (case db of None \<Rightarrow> (False, s, None) | Some e \<Rightarrow> walk_from (eng_MoveTo (sk keyBegin) e) f s)"

section \<open>A database as a map\<close>

definition kv_tbl :: "('k \<Rightarrow> bytes) \<Rightarrow> 'v loader \<Rightarrow> CKVDB \<Rightarrow> 'k \<Rightarrow> 'v option" where
  "kv_tbl sk lv db k =
     (case db of None \<Rightarrow> None | Some e \<Rightarrow> Option.bind (om_get (ldb_pdb e) (sk k)) (\<lambda>bs. map_option fst (lv bs)))"

text \<open>The keys and values of a table have stream forms; every key is well-formed.\<close>

locale kv_table = key: codec sk lk zk "\<lambda>_. True" + val: codec sv lv zv okv
  for sk :: "'k \<Rightarrow> bytes" and lk zk and sv :: "'v \<Rightarrow> bytes" and lv zv okv
begin

abbreviation tbl :: "CKVDB \<Rightarrow> 'k \<Rightarrow> 'v option" where "tbl \<equiv> kv_tbl sk lv"

lemmas tbl_def = kv_tbl_def

lemma sk_inj [simp]: "sk k = sk k' \<longleftrightarrow> k = k'"
  by (simp add: key.save_inj)

lemma Read_tbl: "kv_Read sk lv k x db = (case tbl db k of Some y \<Rightarrow> (True, y) | None \<Rightarrow> (False, x))"
  by (auto simp: kv_Read_def tbl_def eng_Get_def split: option.splits)

text \<open>Outside a transaction.\<close>

lemma Write_tbl:
  assumes "ldb_pbatch e = None" and "okv x"
  shows "kv_Write sk sv True k x True (Some e) = (True, Some (e\<lparr>ldb_pdb := om_set (sk k) (sv x) (ldb_pdb e)\<rparr>))"
    "tbl (Some (e\<lparr>ldb_pdb := om_set (sk k) (sv x) (ldb_pdb e)\<rparr>)) = (tbl (Some e))(k \<mapsto> x)"
  using assms by (auto simp: kv_Write_def eng_Put_def tbl_def om_get_set val.load_save_exact fun_eq_iff)

lemma Erase_tbl:
  assumes "ldb_pbatch e = None"
  shows "kv_Erase sk True k (Some e) = (True, Some (e\<lparr>ldb_pdb := om_del (sk k) (ldb_pdb e)\<rparr>))"
    "tbl (Some (e\<lparr>ldb_pdb := om_del (sk k) (ldb_pdb e)\<rparr>)) = (tbl (Some e))(k := None)"
  using assms by (auto simp: kv_Erase_def eng_Remove_def tbl_def om_get_del fun_eq_iff)

text \<open>Inside a transaction the table changes when it is committed.\<close>

lemma Write_batch:
  "ldb_pbatch e = Some b \<Longrightarrow> kv_Write sk sv ok k x True (Some e) = (True, Some (e\<lparr>ldb_pbatch := Some (b @ [BatchPut (sk k) (sv x)])\<rparr>))"
  by (simp add: kv_Write_def eng_Put_def)

lemma Erase_batch:
  "ldb_pbatch e = Some b \<Longrightarrow> kv_Erase sk ok k (Some e) = (True, Some (e\<lparr>ldb_pbatch := Some (b @ [BatchDelete (sk k)])\<rparr>))"
  by (simp add: kv_Erase_def eng_Remove_def)

lemma tbl_batch_puts:
  "\<forall>(k, x) \<in> set xs. okv x \<Longrightarrow>
     tbl (Some (e\<lparr>ldb_pdb := fold batch_apply (map (\<lambda>(k, x). BatchPut (sk k) (sv x)) xs) m, ldb_pbatch := b\<rparr>)) =
     fold (\<lambda>(k, x) U. U(k \<mapsto> x)) xs (tbl (Some (e\<lparr>ldb_pdb := m, ldb_pbatch := b\<rparr>)))"
proof (induction xs arbitrary: m)
  case (Cons p xs)
  obtain k x where p: "p = (k, x)" by (cases p)
  have "tbl (Some (e\<lparr>ldb_pdb := om_set (sk k) (sv x) m, ldb_pbatch := b\<rparr>)) = (tbl (Some (e\<lparr>ldb_pdb := m, ldb_pbatch := b\<rparr>)))(k \<mapsto> x)"
    using Cons.prems by (auto simp: p tbl_def om_get_set val.load_save_exact fun_eq_iff)
  then show ?case using Cons.IH [of "om_set (sk k) (sv x) m"] Cons.prems by (simp add: p)
qed simp

lemma tbl_batch_deletes:
  "tbl (Some (e\<lparr>ldb_pdb := fold batch_apply (map (\<lambda>k. BatchDelete (sk k)) ks) m, ldb_pbatch := b\<rparr>)) =
     fold (\<lambda>k U. U(k := None)) ks (tbl (Some (e\<lparr>ldb_pdb := m, ldb_pbatch := b\<rparr>)))"
proof (induction ks arbitrary: m)
  case (Cons k ks)
  have "tbl (Some (e\<lparr>ldb_pdb := om_del (sk k) m, ldb_pbatch := b\<rparr>)) = (tbl (Some (e\<lparr>ldb_pdb := m, ldb_pbatch := b\<rparr>)))(k := None)"
    by (auto simp: tbl_def om_get_del fun_eq_iff)
  then show ?case using Cons.IH [of "om_del (sk k) m"] by simp
qed simp

lemma tbl_batch [simp]: "tbl (Some (e\<lparr>ldb_pbatch := b\<rparr>)) = tbl (Some e)" "tbl (Some (e\<lparr>ldb_piter := r\<rparr>)) = tbl (Some e)"
  by (auto simp: tbl_def fun_eq_iff)

end

end
