(* ===== verification/UnspentDB.thy ===== *)
theory UnspentDB
  imports BlockView KVDB RWLock
begin

text \<open>
  \<^verbatim>\<open>storage/unspentdb.h\<close> and \<^verbatim>\<open>unspentdb.cpp\<close>: the unspent outputs of a fork in a table on disk, under two maps in memory.  Updates go to
  the upper map; a flush writes the lower map to disk and then exchanges the two.  A null output in a map marks an
  output that is no longer there.

  The contents of the three layers together are a map of unspent outputs.  Reads and updates act on this map, a
  flush does not change it, and a read that runs beside updates and flushes returns a value that the map had while it
  ran, unless it falls between the exchange of the maps and the unlocking of the lower one.  There the changes of the
  former upper map are not seen.
\<close>

section \<open>The two maps\<close>

type_synonym unspent_map = "(CTxOutPoint, CTxOutput) omap"

record CDblMap =
  dm_mapCache0 :: unspent_map
  dm_mapCache1 :: unspent_map
  dm_nIdxUpper :: nat

definition dm_new :: CDblMap where
  "dm_new = \<lparr>dm_mapCache0 = [], dm_mapCache1 = [], dm_nIdxUpper = 0\<rparr>"

definition GetUpperMap :: "CDblMap \<Rightarrow> unspent_map" where
  "GetUpperMap d = (if dm_nIdxUpper d = 0 then dm_mapCache0 d else dm_mapCache1 d)"

definition GetLowerMap :: "CDblMap \<Rightarrow> unspent_map" where
  "GetLowerMap d = (if dm_nIdxUpper d = 0 then dm_mapCache1 d else dm_mapCache0 d)"

definition SetUpperMap :: "unspent_map \<Rightarrow> CDblMap \<Rightarrow> CDblMap" where
  "SetUpperMap m d = (if dm_nIdxUpper d = 0 then d\<lparr>dm_mapCache0 := m\<rparr> else d\<lparr>dm_mapCache1 := m\<rparr>)"

definition Flip :: "CDblMap \<Rightarrow> CDblMap" where
  "Flip d = (if dm_nIdxUpper d = 0 then d\<lparr>dm_mapCache1 := [], dm_nIdxUpper := 1\<rparr> else d\<lparr>dm_mapCache0 := [], dm_nIdxUpper := 0\<rparr>)"

lemma dm_simps [simp]:
  "GetUpperMap (SetUpperMap m d) = m" "GetLowerMap (SetUpperMap m d) = GetLowerMap d"
  "GetUpperMap (Flip d) = []" "GetLowerMap (Flip d) = GetUpperMap d"
  "GetUpperMap dm_new = []" "GetLowerMap dm_new = []"
  by (simp_all add: GetUpperMap_def GetLowerMap_def SetUpperMap_def Flip_def dm_new_def)

section \<open>The database of a fork\<close>

record CForkUnspentDB =
  fu_db :: CKVDB
  fu_dblCache :: CDblMap

abbreviation fu_upper :: "CForkUnspentDB \<Rightarrow> unspent_map" where "fu_upper u \<equiv> GetUpperMap (fu_dblCache u)"

abbreviation fu_lower :: "CForkUnspentDB \<Rightarrow> unspent_map" where "fu_lower u \<equiv> GetLowerMap (fu_dblCache u)"

text \<open>The arguments \<^verbatim>\<open>ok\<close> are the results of the calls to the library.\<close>

definition fu_RemoveAll :: "bool \<Rightarrow> CForkUnspentDB \<Rightarrow> bool \<times> CForkUnspentDB" where
  "fu_RemoveAll ok u =
     (case kv_RemoveAll ok (fu_db u) of
        (True, db) \<Rightarrow> (True, \<lparr>fu_db = db, fu_dblCache = dm_new\<rparr>)
      | (False, db) \<Rightarrow> (False, u\<lparr>fu_db := db\<rparr>))"

definition UpdateUnspent :: "CTxUnspent list \<Rightarrow> CTxOutPoint list \<Rightarrow> CForkUnspentDB \<Rightarrow> CForkUnspentDB" where
  "UpdateUnspent vAddNew vRemove u =
     (let m = fold (\<lambda>x. om_set (unspent_out x) (unspent_output x)) vAddNew (fu_upper u);
          m = fold (\<lambda>out. om_set out out_null) vRemove m
      in u\<lparr>fu_dblCache := SetUpperMap m (fu_dblCache u)\<rparr>)"

definition WriteUnspent :: "bool \<Rightarrow> CTxOutPoint \<Rightarrow> CTxOutput \<Rightarrow> CForkUnspentDB \<Rightarrow> bool \<times> CForkUnspentDB" where
  "WriteUnspent ok out output u =
     (case kv_Write Save_outpoint Save_output ok out output True (fu_db u) of (r, db) \<Rightarrow> (r, u\<lparr>fu_db := db\<rparr>))"

text \<open>The three places that \<^verbatim>\<open>ReadUnspent\<close> asks; \<^const>\<open>None\<close> when a map has no entry.\<close>

definition read_map :: "unspent_map \<Rightarrow> CTxOutPoint \<Rightarrow> CTxOutput \<Rightarrow> (bool \<times> CTxOutput) option" where
  "read_map m out w = (case om_get m out of Some x \<Rightarrow> Some (if \<not> out_IsNull x then (True, x) else (False, w)) | None \<Rightarrow> None)"

definition read_disk :: "CForkUnspentDB \<Rightarrow> CTxOutPoint \<Rightarrow> CTxOutput \<Rightarrow> bool \<times> CTxOutput" where
  "read_disk u out w = kv_Read Save_outpoint Load_output out w (fu_db u)"

text \<open>The argument \<^verbatim>\<open>fLower\<close> is the result of \<^verbatim>\<open>ReadTryLock\<close> on the lower map.\<close>

definition ReadUnspent :: "bool \<Rightarrow> CTxOutPoint \<Rightarrow> CTxOutput \<Rightarrow> CForkUnspentDB \<Rightarrow> bool \<times> CTxOutput" where
  "ReadUnspent fLower out w u =
     (case read_map (fu_upper u) out w of
        Some r \<Rightarrow> r
      | None \<Rightarrow> (case if fLower then read_map (fu_lower u) out w else None of
          Some r \<Rightarrow> r
        | None \<Rightarrow> read_disk u out w))"

definition CopyWalker :: "(CTxOutPoint \<Rightarrow> bool) \<Rightarrow> bytes \<Rightarrow> bytes \<Rightarrow> CForkUnspentDB \<Rightarrow> (bool \<times> CForkUnspentDB) option" where
  "CopyWalker ok ssKey ssValue dest =
     (case Load_outpoint ssKey of None \<Rightarrow> None | Some (out, _) \<Rightarrow>
     (case Load_output ssValue of None \<Rightarrow> None | Some (output, _) \<Rightarrow> Some (WriteUnspent (ok out) out output dest)))"

definition fu_Copy :: "bool \<Rightarrow> (CTxOutPoint \<Rightarrow> bool) \<Rightarrow> CForkUnspentDB \<Rightarrow> CForkUnspentDB \<Rightarrow> bool \<times> CForkUnspentDB" where
  "fu_Copy okRemove okWrite src dest =
     (case fu_RemoveAll okRemove dest of
        (False, dest) \<Rightarrow> (False, dest)
      | (True, dest) \<Rightarrow>
          (case kv_WalkThrough (CopyWalker okWrite) dest (fu_db src) of
             (False, dest, _) \<Rightarrow> (False, dest)
           | (True, dest, _) \<Rightarrow> (True, dest\<lparr>fu_dblCache := fu_dblCache src\<rparr>)))"

text \<open>\<^verbatim>\<open>WalkThroughUnspent\<close> hands every output to a walker: those on disk that no map covers, then the lower and the upper map.\<close>

definition LoadWalker ::
  "(CTxOutPoint \<Rightarrow> CTxOutput \<Rightarrow> 's \<Rightarrow> bool \<times> 's) \<Rightarrow> unspent_map \<Rightarrow> unspent_map \<Rightarrow> bytes \<Rightarrow> bytes \<Rightarrow> 's \<Rightarrow> (bool \<times> 's) option" where
  "LoadWalker walk mapUpper mapLower ssKey ssValue s =
     (case Load_outpoint ssKey of None \<Rightarrow> None | Some (out, _) \<Rightarrow>
      if om_has mapUpper out \<or> om_has mapLower out then Some (True, s)
      else (case Load_output ssValue of None \<Rightarrow> None | Some (output, _) \<Rightarrow> Some (walk out output s)))"

fun walk_map :: "(CTxOutPoint \<Rightarrow> CTxOutput \<Rightarrow> 's \<Rightarrow> bool \<times> 's) \<Rightarrow> (CTxOutPoint \<Rightarrow> bool) \<Rightarrow> unspent_map \<Rightarrow> 's \<Rightarrow> bool \<times> 's" where
  "walk_map walk hidden [] s = (True, s)"
| "walk_map walk hidden ((out, output) # m) s =
     (if \<not> hidden out \<and> \<not> out_IsNull output
      then (case walk out output s of (c, s') \<Rightarrow> if c then walk_map walk hidden m s' else (False, s'))
      else walk_map walk hidden m s)"

definition WalkThroughUnspent :: "(CTxOutPoint \<Rightarrow> CTxOutput \<Rightarrow> 's \<Rightarrow> bool \<times> 's) \<Rightarrow> 's \<Rightarrow> CForkUnspentDB \<Rightarrow> bool \<times> 's" where
  "WalkThroughUnspent walk s u =
     (case kv_WalkThrough (LoadWalker walk (fu_upper u) (fu_lower u)) s (fu_db u) of
        (False, s, _) \<Rightarrow> (False, s)
      | (True, s, _) \<Rightarrow>
          (case walk_map walk (om_has (fu_upper u)) (fu_lower u) s of
             (False, s) \<Rightarrow> (False, s)
           | (True, s) \<Rightarrow> walk_map walk (\<lambda>_. False) (fu_upper u) s))"

text \<open>\<^verbatim>\<open>Flush\<close>: the lower map is written in one transaction, then the maps are exchanged.\<close>

definition flush_changes :: "unspent_map \<Rightarrow> (CTxOutPoint \<times> CTxOutput) list \<times> CTxOutPoint list" where
  "flush_changes m = (filter (\<lambda>(_, x). \<not> out_IsNull x) m, map fst (filter (\<lambda>(_, x). out_IsNull x) m))"

definition flush_commit :: "bool \<Rightarrow> CForkUnspentDB \<Rightarrow> bool \<times> CForkUnspentDB" where
  "flush_commit ok u =
     (let (vAddNew, vRemove) = flush_changes (fu_lower u)
      in case kv_TxnBegin (fu_db u) of
           (False, db) \<Rightarrow> (False, u\<lparr>fu_db := db\<rparr>)
         | (True, db) \<Rightarrow>
             let db = fold (\<lambda>(out, x) db. snd (kv_Write Save_outpoint Save_output ok out x True db)) vAddNew db;
                 db = fold (\<lambda>out db. snd (kv_Erase Save_outpoint ok out db)) vRemove db
             in case kv_TxnCommit ok db of (r, db) \<Rightarrow> (r, u\<lparr>fu_db := db\<rparr>))"

definition flush_flip :: "CForkUnspentDB \<Rightarrow> CForkUnspentDB" where
  "flush_flip u = u\<lparr>fu_dblCache := Flip (fu_dblCache u)\<rparr>"

definition Flush :: "bool \<Rightarrow> CForkUnspentDB \<Rightarrow> bool \<times> CForkUnspentDB" where
  "Flush ok u = (case flush_commit ok u of (False, u) \<Rightarrow> (False, u) | (True, u) \<Rightarrow> (True, flush_flip u))"

section \<open>The databases of all forks\<close>

type_synonym CUnspentDB = "(uint256, CForkUnspentDB) omap"

definition ud_Exists :: "CUnspentDB \<Rightarrow> uint256 \<Rightarrow> bool" where
  "ud_Exists ud hashFork = om_has ud hashFork"

text \<open>The table on disk that is opened for a new fork is an argument.\<close>

definition ud_AddNewFork :: "CKVDB \<Rightarrow> uint256 \<Rightarrow> CUnspentDB \<Rightarrow> bool \<times> CUnspentDB" where
  "ud_AddNewFork db hashFork ud =
     (if om_has ud hashFork then (True, ud)
      else if \<not> kv_IsValid db then (False, ud)
      else (True, om_ins hashFork \<lparr>fu_db = db, fu_dblCache = dm_new\<rparr> ud))"

text \<open>Where a fork is taken out of the map, the result also has the tables that remain on disk.\<close>

definition ud_RemoveFork :: "bool \<Rightarrow> uint256 \<Rightarrow> CUnspentDB \<Rightarrow> bool \<times> CKVDB option \<times> CUnspentDB" where
  "ud_RemoveFork ok hashFork ud =
     (case om_get ud hashFork of
        Some u \<Rightarrow> (True, Some (fu_db (snd (fu_RemoveAll ok u))), om_del hashFork ud)
      | None \<Rightarrow> (False, None, ud))"

definition ud_Clear :: "(uint256 \<Rightarrow> bool) \<Rightarrow> CUnspentDB \<Rightarrow> (uint256 \<times> CKVDB) list \<times> CUnspentDB" where
  "ud_Clear ok ud = (map (\<lambda>(f, u). (f, fu_db (snd (fu_RemoveAll (ok f) u)))) ud, [])"

definition ud_Update :: "uint256 \<Rightarrow> CTxUnspent list \<Rightarrow> CTxOutPoint list \<Rightarrow> CUnspentDB \<Rightarrow> bool \<times> CUnspentDB" where
  "ud_Update hashFork vAddNew vRemove ud =
     (case om_get ud hashFork of Some u \<Rightarrow> (True, om_set hashFork (UpdateUnspent vAddNew vRemove u) ud) | None \<Rightarrow> (False, ud))"

definition ud_Retrieve :: "bool \<Rightarrow> uint256 \<Rightarrow> CTxOutPoint \<Rightarrow> CTxOutput \<Rightarrow> CUnspentDB \<Rightarrow> bool \<times> CTxOutput" where
  "ud_Retrieve fLower hashFork out w ud = (case om_get ud hashFork of Some u \<Rightarrow> ReadUnspent fLower out w u | None \<Rightarrow> (False, w))"

text \<open>A fork that is copied to itself is emptied before it is walked.\<close>

definition ud_Copy :: "bool \<Rightarrow> (CTxOutPoint \<Rightarrow> bool) \<Rightarrow> uint256 \<Rightarrow> uint256 \<Rightarrow> CUnspentDB \<Rightarrow> bool \<times> CUnspentDB" where
  "ud_Copy okRemove okWrite srcFork destFork ud =
     (case om_get ud srcFork of None \<Rightarrow> (False, ud) | Some src \<Rightarrow>
     (case om_get ud destFork of None \<Rightarrow> (False, ud) | Some dest \<Rightarrow>
     (case if srcFork = destFork then fu_RemoveAll okRemove dest else fu_Copy okRemove okWrite src dest of (r, dest) \<Rightarrow> (r, om_set destFork dest ud))))"

definition ud_WalkThrough :: "uint256 \<Rightarrow> (CTxOutPoint \<Rightarrow> CTxOutput \<Rightarrow> 's \<Rightarrow> bool \<times> 's) \<Rightarrow> 's \<Rightarrow> CUnspentDB \<Rightarrow> bool \<times> 's" where
  "ud_WalkThrough hashFork walk s ud =
     (case om_get ud hashFork of Some u \<Rightarrow> WalkThroughUnspent walk s u | None \<Rightarrow> (False, s))"

text \<open>\<^verbatim>\<open>FlushProc\<close> flushes every fork once in a while; \<^verbatim>\<open>Deinitialize\<close> flushes every fork twice.\<close>

definition ud_FlushAll :: "(uint256 \<Rightarrow> bool) \<Rightarrow> CUnspentDB \<Rightarrow> CUnspentDB" where
  "ud_FlushAll ok ud = map (\<lambda>(f, u). (f, snd (Flush (ok f) u))) ud"

definition ud_Deinitialize :: "(uint256 \<Rightarrow> bool) \<Rightarrow> (uint256 \<Rightarrow> bool) \<Rightarrow> CUnspentDB \<Rightarrow> (uint256 \<times> CKVDB) list \<times> CUnspentDB" where
  "ud_Deinitialize ok1 ok2 ud = (map (\<lambda>(f, u). (f, fu_db (snd (Flush (ok2 f) (snd (Flush (ok1 f) u)))))) ud, [])"

section \<open>The contents\<close>

definition disk_map :: "CForkUnspentDB \<Rightarrow> utxo" where
  "disk_map u = kv_tbl Save_outpoint Load_output (fu_db u)"

definition over :: "unspent_map \<Rightarrow> utxo \<Rightarrow> utxo" where
  "over m U i = (case om_get m i of Some x \<Rightarrow> some_output x | None \<Rightarrow> U i)"

definition fu_abs :: "CForkUnspentDB \<Rightarrow> utxo" where
  "fu_abs u = over (fu_upper u) (over (fu_lower u) (disk_map u))"

interpretation unspent: kv_table Save_outpoint Load_outpoint "\<lambda>_. 33" Save_output Load_output "\<lambda>_. 49" "\<lambda>u. int64_range (out_nAmount u)"
  by unfold_locales

text \<open>A database that is open, outside a transaction, with ordered maps of amounts that fit their type.\<close>

definition map_ok :: "unspent_map \<Rightarrow> bool" where
  "map_ok m \<longleftrightarrow> om_wf m \<and> (\<forall>(_, x) \<in> set m. int64_range (out_nAmount x))"

definition fu_wf :: "CForkUnspentDB \<Rightarrow> bool" where
  "fu_wf u \<longleftrightarrow> map_ok (fu_upper u) \<and> map_ok (fu_lower u) \<and> (\<exists>e. fu_db u = Some e \<and> ldb_pbatch e = None)"

lemma over_set: "over (om_set k x m) U = (over m U)(k := some_output x)"
  by (auto simp: over_def om_get_set fun_eq_iff)

lemma over_Nil [simp]: "over [] U = U"
  by (simp add: over_def fun_eq_iff)

lemma over_adds:
  "\<forall>x \<in> set xs. \<not> out_IsNull (unspent_output x) \<Longrightarrow>
     over (fold (\<lambda>x. om_set (unspent_out x) (unspent_output x)) xs m) U = fold (\<lambda>x U. U(unspent_out x \<mapsto> unspent_output x)) xs (over m U)"
  by (induction xs arbitrary: m) (simp_all add: over_set)

lemma over_removes: "over (fold (\<lambda>out. om_set out out_null) xs m) U = fold (\<lambda>i U. U(i := None)) xs (over m U)"
  by (induction xs arbitrary: m) (simp_all add: over_set)

lemma fu_abs_UpdateUnspent:
  assumes "\<forall>x \<in> set vAddNew. \<not> out_IsNull (unspent_output x)"
  shows "fu_abs (UpdateUnspent vAddNew vRemove u) = utxo_commit (vAddNew, vRemove) (fu_abs u)"
  using assms by (simp add: fu_abs_def UpdateUnspent_def Let_def utxo_commit_def over_adds over_removes disk_map_def)

lemma map_ok_set: "map_ok m \<Longrightarrow> int64_range (out_nAmount x) \<Longrightarrow> map_ok (om_set k x m)"
  unfolding map_ok_def
proof (elim conjE, intro conjI ballI)
  fix p assume m: "om_wf m" "\<forall>(_, x) \<in> set m. int64_range (out_nAmount x)" "int64_range (out_nAmount x)" "p \<in> set (om_set k x m)"
  then have "om_get (om_set k x m) (fst p) = Some (snd p)" using om_wf_mem [OF om_wf_set [OF m(1)], of "fst p" "snd p" k x] by simp
  then show "case p of (_, x) \<Rightarrow> int64_range (out_nAmount x)"
    using m(2,3) map_of_SomeD [of m "fst p" "snd p"] by (auto simp: om_get_set split_def split: if_splits)
qed auto

lemma fu_wf_UpdateUnspent:
  assumes "fu_wf u" and "\<forall>x \<in> set vAddNew. int64_range (out_nAmount (unspent_output x))"
  shows "fu_wf (UpdateUnspent vAddNew vRemove u)"
proof -
  have 1: "map_ok (fold (\<lambda>x. om_set (unspent_out x) (unspent_output x)) xs m)"
    if "\<forall>x \<in> set xs. int64_range (out_nAmount (unspent_output x))" "map_ok m" for xs :: "CTxUnspent list" and m
    using that by (induction xs arbitrary: m) (auto simp: map_ok_set)
  have "int64_range (out_nAmount out_null)" by (simp add: out_null_def int64_range_def)
  then have 2: "map_ok (fold (\<lambda>out. om_set out out_null) xs m)" if "map_ok m" for xs m
    using that by (induction xs arbitrary: m) (auto simp: map_ok_set)
  show ?thesis using assms 1 2 by (simp add: fu_wf_def UpdateUnspent_def Let_def)
qed

section \<open>Reading\<close>

definition answer :: "CTxOutput \<Rightarrow> CTxOutput option \<Rightarrow> bool \<times> CTxOutput" where
  "answer w x = (case x of Some y \<Rightarrow> (True, y) | None \<Rightarrow> (False, w))"

lemma read_map_answer: "read_map m out w = map_option (\<lambda>x. answer w (some_output x)) (om_get m out)"
  by (auto simp: read_map_def answer_def some_output_def split: option.splits)

lemma read_disk_answer: "read_disk u out w = answer w (disk_map u out)"
  by (simp add: read_disk_def answer_def disk_map_def unspent.Read_tbl)

lemma ReadUnspent_abs: "ReadUnspent True out w u = answer w (fu_abs u out)"
  by (auto simp: ReadUnspent_def read_map_answer read_disk_answer fu_abs_def over_def split: option.splits)

section \<open>Flushing\<close>

lemma fold_puts:
  "distinct (map fst xs) \<Longrightarrow> fold (\<lambda>(k, x) U. U(k \<mapsto> x)) xs U i = (case map_of xs i of Some x \<Rightarrow> Some x | None \<Rightarrow> U i)"
proof (induction xs arbitrary: U)
  case (Cons p xs)
  then have "map_of xs (fst p) = None" by (auto simp: map_of_eq_None_iff)
  with Cons show ?case by (cases p) (auto split: option.splits)
qed simp

lemma flush_changes_over:
  assumes wf: "om_wf m"
  shows "fold (\<lambda>k U. U(k := None)) (snd (flush_changes m)) (fold (\<lambda>(k, x) U. U(k \<mapsto> x)) (fst (flush_changes m)) U) = over m U"
proof
  fix i
  let ?a = "filter (\<lambda>(_, x). \<not> out_IsNull x) m" and ?r = "filter (\<lambda>(_, x). out_IsNull x) m"
  have a: "om_wf ?a" using wf by auto
  have mem: "om_get ?a i = (case om_get m i of Some x \<Rightarrow> if out_IsNull x then None else Some x | None \<Rightarrow> None)"
  proof -
    have iff: "om_get ?a i = Some x \<longleftrightarrow> om_get m i = Some x \<and> \<not> out_IsNull x" for x
      unfolding om_wf_mem [OF a, symmetric] om_wf_mem [OF wf, symmetric] by simp
    show ?thesis by (cases "om_get m i"; cases "om_get ?a i") (use iff in \<open>auto split: if_splits\<close>)
  qed
  have rem: "i \<in> set (map fst ?r) \<longleftrightarrow> (\<exists>x. om_get m i = Some x \<and> out_IsNull x)"
    using om_wf_mem [OF wf, of i] by force
  show "fold (\<lambda>k U. U(k := None)) (snd (flush_changes m)) (fold (\<lambda>(k, x) U. U(k \<mapsto> x)) (fst (flush_changes m)) U) i = over m U i"
    unfolding flush_changes_def fst_conv snd_conv fold_erase restrict_map_def fold_puts [OF om_wf_distinct [OF a]] mem Compl_iff rem
    by (auto simp: over_def some_output_def split: option.splits)
qed

lemma fold_Write_batch:
  "ldb_pbatch e = Some b \<Longrightarrow> fold (\<lambda>(out, x) db. snd (kv_Write Save_outpoint Save_output ok out x True db)) xs (Some e) =
     Some (e\<lparr>ldb_pbatch := Some (b @ map (\<lambda>(k, x). BatchPut (Save_outpoint k) (Save_output x)) xs)\<rparr>)"
  by (induction xs arbitrary: e b) (auto simp: unspent.Write_batch)

lemma fold_Erase_batch:
  "ldb_pbatch e = Some b \<Longrightarrow> fold (\<lambda>out db. snd (kv_Erase Save_outpoint ok out db)) ks (Some e) =
     Some (e\<lparr>ldb_pbatch := Some (b @ map (\<lambda>k. BatchDelete (Save_outpoint k)) ks)\<rparr>)"
  by (induction ks arbitrary: e b) (auto simp: unspent.Erase_batch)

lemma flush_commit_spec:
  assumes wf: "fu_wf u"
  obtains u' where "flush_commit ok u = (ok, u')" "fu_dblCache u' = fu_dblCache u" "fu_wf u'"
    "disk_map u' = (if ok then over (fu_lower u) (disk_map u) else disk_map u)"
proof -
  obtain e where e: "fu_db u = Some e" "ldb_pbatch e = None" and low: "map_ok (fu_lower u)" using wf by (auto simp: fu_wf_def)
  obtain vA vR where c: "flush_changes (fu_lower u) = (vA, vR)" by fastforce
  have vA: "\<forall>(k, x) \<in> set vA. int64_range (out_nAmount x)" using low c by (auto simp: flush_changes_def map_ok_def)
  define b where "b = map (\<lambda>(k, x). BatchPut (Save_outpoint k) (Save_output x)) vA @ map (\<lambda>k. BatchDelete (Save_outpoint k)) vR"
  let ?e = "e\<lparr>ldb_pdb := if ok then fold batch_apply b (ldb_pdb e) else ldb_pdb e, ldb_pbatch := None\<rparr>"
  have "flush_commit ok u = (ok, u\<lparr>fu_db := Some ?e\<rparr>)"
    unfolding flush_commit_def c Let_def b_def
    by (simp add: kv_TxnBegin_def e eng_TxnBegin_def fold_Write_batch [of _ "[]"] fold_Erase_batch kv_TxnCommit_def eng_TxnCommit_def)
  moreover have "disk_map (u\<lparr>fu_db := Some ?e\<rparr>) = (if ok then over (fu_lower u) (disk_map u) else disk_map u)"
  proof (cases ok)
    case True
    have "kv_tbl Save_outpoint Load_output (Some ?e) =
        fold (\<lambda>k U. U(k := None)) vR (fold (\<lambda>(k, x) U. U(k \<mapsto> x)) vA (kv_tbl Save_outpoint Load_output (Some (e\<lparr>ldb_pdb := ldb_pdb e, ldb_pbatch := None\<rparr>))))"
      using True unfolding b_def by (simp only: if_True fold_append comp_apply unspent.tbl_batch_deletes unspent.tbl_batch_puts [OF vA])
    also have "\<dots> = over (fu_lower u) (disk_map u)"
      using flush_changes_over [of "fu_lower u"] low e c by (simp add: map_ok_def disk_map_def)
    finally show ?thesis using True by (simp add: disk_map_def)
  qed (simp add: disk_map_def e kv_tbl_def fun_eq_iff)
  ultimately show ?thesis using wf by (intro that) (auto simp: fu_wf_def)
qed

lemma flush_flip_abs:
  assumes "disk_map u = over (fu_lower u) D"
  shows "fu_abs (flush_flip u) = fu_abs u"
  using assms by (auto simp: fu_abs_def flush_flip_def disk_map_def over_def fun_eq_iff split: option.splits)

lemma flush_flip_wf: "fu_wf u \<Longrightarrow> fu_wf (flush_flip u)"
  by (simp add: fu_wf_def flush_flip_def map_ok_def)

lemma Flush_spec:
  assumes wf: "fu_wf u"
  obtains u' where "Flush ok u = (ok, u')" "fu_wf u'" "fu_abs u' = fu_abs u"
    "ok \<Longrightarrow> fu_upper u' = []" "ok \<Longrightarrow> fu_lower u' = fu_upper u"
proof -
  obtain u1 where u1: "flush_commit ok u = (ok, u1)" "fu_dblCache u1 = fu_dblCache u" "fu_wf u1"
    "disk_map u1 = (if ok then over (fu_lower u) (disk_map u) else disk_map u)"
    by (rule flush_commit_spec [OF wf])
  show ?thesis
  proof (cases ok)
    case True
    have d: "disk_map u1 = over (fu_lower u1) (disk_map u)" using u1(2,4) True by simp
    have "fu_abs u1 = fu_abs u" unfolding fu_abs_def d u1(2) by (auto simp: over_def fun_eq_iff split: option.splits)
    then show ?thesis
      using True u1 flush_flip_wf [OF u1(3)] flush_flip_abs [OF d] by (intro that [of "flush_flip u1"]) (auto simp: Flush_def flush_flip_def)
  next
    case False
    then show ?thesis using u1 by (intro that [of u1]) (auto simp: Flush_def fu_abs_def)
  qed
qed

section \<open>What the views rely on\<close>

text \<open>A store of unspent outputs with its contents: writing changes and reading an output.\<close>

locale unspent_store =
  fixes contents :: "'s \<Rightarrow> utxo"
    and store :: "CTxUnspent list \<Rightarrow> CTxOutPoint list \<Rightarrow> 's \<Rightarrow> 's"
    and load :: "CTxOutPoint \<Rightarrow> CTxOutput \<Rightarrow> 's \<Rightarrow> bool \<times> CTxOutput"
  assumes contents_store: "\<forall>x \<in> set a. \<not> out_IsNull (unspent_output x) \<Longrightarrow> contents (store a r s) = utxo_commit (a, r) (contents s)"
    and load_contents: "load i w s = answer w (contents s i)"
begin

lemma commit_view:
  assumes "view_rel val (contents s) U v" and "GetUnspentChanges v = (a, r)"
  shows "contents (store a r s) = U"
proof -
  have "\<forall>x \<in> set a. \<not> out_IsNull (unspent_output x)"
    using assms(2) by (auto simp: GetUnspentChanges_def)
  then show ?thesis using contents_store [of a r s] view_rel_commit [OF assms(1)] assms(2) by simp
qed

lemma load_committed:
  assumes "view_rel val (contents s) U v" and "GetUnspentChanges v = (a, r)"
  shows "load i w (store a r s) = answer w (U i)"
  by (simp add: load_contents commit_view [OF assms])

end

interpretation fu: unspent_store fu_abs UpdateUnspent "ReadUnspent True"
  by unfold_locales (simp_all add: fu_abs_UpdateUnspent ReadUnspent_abs)

section \<open>Reading beside updates and flushes\<close>

text \<open>Where the flush is: waiting, inside the upgradable lock of the lower map, after its transaction, after the upgrade to the
  write lock, and after the exchange of the maps.  The lower map stays locked until \<^verbatim>\<open>Flush\<close> returns, so that \<^verbatim>\<open>ReadTryLock\<close>
  fails in the last two.\<close>

datatype flush_phase = FlushIdle | FlushLocked | FlushCommitted | FlushUpgraded | FlushFlipped

datatype read_phase = ReadIdle | AtUpper | AtLower | AtDisk | ReadDone "bool \<times> CTxOutput"

text \<open>A read of one output beside the other threads.  Three components record the past and have no influence on the
  steps: \<^verbatim>\<open>uc_seen\<close> collects what the contents had for the output since the read began, \<^verbatim>\<open>uc_gap\<close> tells that the read
  looked into the upper map after the exchange of the maps and the lower map is still locked, and \<^verbatim>\<open>uc_stale\<close> that
  it passed by the lower map then.\<close>

record ud_conf =
  uc_db :: CForkUnspentDB
  uc_flush :: flush_phase
  uc_read :: read_phase
  uc_seen :: "CTxOutput option set"
  uc_gap :: bool
  uc_stale :: bool

definition changes_ok :: "CTxUnspent list \<Rightarrow> bool" where
  "changes_ok a \<longleftrightarrow> (\<forall>x \<in> set a. \<not> out_IsNull (unspent_output x) \<and> int64_range (out_nAmount (unspent_output x)))"

definition next_place :: "(bool \<times> CTxOutput) option \<Rightarrow> read_phase \<Rightarrow> read_phase" where
  "next_place r p = (case r of Some x \<Rightarrow> ReadDone x | None \<Rightarrow> p)"

definition seen_db :: "CTxOutPoint \<Rightarrow> CForkUnspentDB \<Rightarrow> ud_conf \<Rightarrow> ud_conf" where
  "seen_db out u c = c\<lparr>uc_db := u, uc_seen := insert (fu_abs u out) (uc_seen c)\<rparr>"

definition lower_locked :: "flush_phase \<Rightarrow> bool" where
  "lower_locked f \<longleftrightarrow> f = FlushUpgraded \<or> f = FlushFlipped"

inductive ud_step :: "CTxOutPoint \<Rightarrow> CTxOutput \<Rightarrow> ud_conf \<Rightarrow> ud_conf \<Rightarrow> bool" for out w where
  update: "changes_ok a \<Longrightarrow> ud_step out w c (seen_db out (UpdateUnspent a r (uc_db c)) c)"
| flush_lock: "uc_flush c = FlushIdle \<Longrightarrow> ud_step out w c (c\<lparr>uc_flush := FlushLocked\<rparr>)"
| commit: "uc_flush c = FlushLocked \<Longrightarrow> flush_commit ok (uc_db c) = (r, u) \<Longrightarrow>
    ud_step out w c ((seen_db out u c)\<lparr>uc_flush := if r then FlushCommitted else FlushIdle\<rparr>)"
| flush_upgrade: "uc_flush c = FlushCommitted \<Longrightarrow> ud_step out w c (c\<lparr>uc_flush := FlushUpgraded\<rparr>)"
| flip: "uc_flush c = FlushUpgraded \<Longrightarrow> ud_step out w c ((seen_db out (flush_flip (uc_db c)) c)\<lparr>uc_flush := FlushFlipped\<rparr>)"
| flush_unlock: "uc_flush c = FlushFlipped \<Longrightarrow> ud_step out w c (c\<lparr>uc_flush := FlushIdle, uc_gap := False\<rparr>)"
| read_begin: "uc_read c = ReadIdle \<Longrightarrow> ud_step out w c (c\<lparr>uc_read := AtUpper, uc_seen := {fu_abs (uc_db c) out}\<rparr>)"
| read_upper: "uc_read c = AtUpper \<Longrightarrow>
    ud_step out w c (c\<lparr>uc_read := next_place (read_map (fu_upper (uc_db c)) out w) AtLower, uc_gap := (uc_flush c = FlushFlipped)\<rparr>)"
| read_lower: "uc_read c = AtLower \<Longrightarrow> \<not> lower_locked (uc_flush c) \<Longrightarrow>
    ud_step out w c (c\<lparr>uc_read := next_place (read_map (fu_lower (uc_db c)) out w) AtDisk\<rparr>)"
| skip_lower: "uc_read c = AtLower \<Longrightarrow> lower_locked (uc_flush c) \<Longrightarrow> ud_step out w c (c\<lparr>uc_read := AtDisk, uc_stale := uc_gap c\<rparr>)"
| from_disk: "uc_read c = AtDisk \<Longrightarrow> ud_step out w c (c\<lparr>uc_read := ReadDone (read_disk (uc_db c) out w)\<rparr>)"

abbreviation ud_start :: "CForkUnspentDB \<Rightarrow> ud_conf" where
  "ud_start u \<equiv> \<lparr>uc_db = u, uc_flush = FlushIdle, uc_read = ReadIdle, uc_seen = {}, uc_gap = False, uc_stale = False\<rparr>"

inductive ud_run :: "CTxOutPoint \<Rightarrow> CTxOutput \<Rightarrow> ud_conf \<Rightarrow> bool" for out w where
  start: "fu_wf u \<Longrightarrow> ud_run out w (ud_start u)"
| step: "ud_run out w c \<Longrightarrow> ud_step out w c c' \<Longrightarrow> ud_run out w c'"

text \<open>What is at the place where the read looks next has been in the contents since the read began.\<close>

definition read_ok :: "CTxOutPoint \<Rightarrow> CTxOutput \<Rightarrow> CForkUnspentDB \<Rightarrow> ud_conf \<Rightarrow> CTxOutput option set \<Rightarrow> bool" where
  "read_ok out w u c seen = (case uc_read c of
      ReadIdle \<Rightarrow> True
    | AtUpper \<Rightarrow> True
    | AtLower \<Rightarrow> over (fu_lower u) (disk_map u) out \<in> seen \<and> (uc_flush c = FlushFlipped \<longrightarrow> uc_gap c \<or> disk_map u out \<in> seen)
    | AtDisk \<Rightarrow> uc_stale c \<or> disk_map u out \<in> seen \<and> over (fu_lower u) (disk_map u) out \<in> seen
    | ReadDone r \<Rightarrow> uc_stale c \<or> (\<exists>y \<in> seen. r = answer w y))"

definition ud_inv :: "CTxOutPoint \<Rightarrow> CTxOutput \<Rightarrow> ud_conf \<Rightarrow> bool" where
  "ud_inv out w c \<longleftrightarrow> fu_wf (uc_db c) \<and> (uc_read c \<noteq> ReadIdle \<longrightarrow> fu_abs (uc_db c) out \<in> uc_seen c)
     \<and> (uc_flush c = FlushCommitted \<or> uc_flush c = FlushUpgraded \<longrightarrow>
          over (fu_lower (uc_db c)) (disk_map (uc_db c)) = disk_map (uc_db c))
     \<and> (uc_gap c \<longrightarrow> uc_flush c = FlushFlipped)
     \<and> read_ok out w (uc_db c) c (uc_seen c)"

lemma ud_invD:
  assumes "ud_inv out w c"
  shows "fu_wf (uc_db c)" "uc_read c \<noteq> ReadIdle \<Longrightarrow> fu_abs (uc_db c) out \<in> uc_seen c"
    "uc_flush c = FlushCommitted \<or> uc_flush c = FlushUpgraded \<Longrightarrow> over (fu_lower (uc_db c)) (disk_map (uc_db c)) = disk_map (uc_db c)"
    "uc_gap c \<Longrightarrow> uc_flush c = FlushFlipped" "read_ok out w (uc_db c) c (uc_seen c)"
  using assms unfolding ud_inv_def by blast+

lemma over_over: "over m (over m U) = over m U"
  by (auto simp: over_def fun_eq_iff split: option.splits)

lemma read_ok_mono:
  "read_ok out w u c seen \<Longrightarrow> seen \<subseteq> seen' \<Longrightarrow> fu_lower u' = fu_lower u \<Longrightarrow> disk_map u' = disk_map u \<Longrightarrow> read_ok out w u' c seen'"
  by (cases "uc_read c") (auto simp: read_ok_def)

lemma UpdateUnspent_layers [simp]:
  "fu_lower (UpdateUnspent a r u) = fu_lower u" "disk_map (UpdateUnspent a r u) = disk_map u"
  by (simp_all add: UpdateUnspent_def Let_def disk_map_def)

lemma flush_flip_layers [simp]:
  "fu_lower (flush_flip u) = fu_upper u" "fu_upper (flush_flip u) = []" "disk_map (flush_flip u) = disk_map u"
  by (simp_all add: flush_flip_def disk_map_def)

lemma ud_inv_update:
  assumes "ud_inv out w c" and "changes_ok a"
  shows "ud_inv out w (seen_db out (UpdateUnspent a r (uc_db c)) c)"
proof -
  let ?u = "UpdateUnspent a r (uc_db c)" and ?seen = "insert (fu_abs (UpdateUnspent a r (uc_db c)) out) (uc_seen c)"
  note I = ud_invD [OF assms(1)]
  have "fu_wf ?u" by (rule fu_wf_UpdateUnspent [OF I(1)]) (use assms(2) in \<open>simp add: changes_ok_def\<close>)
  moreover have "read_ok out w ?u c ?seen" by (rule read_ok_mono [OF I(5)]) auto
  ultimately show ?thesis unfolding ud_inv_def seen_db_def using I(3,4) by (cases "uc_read c") (simp_all add: read_ok_def)
qed

lemma ud_inv_commit:
  assumes "ud_inv out w c" and "uc_flush c = FlushLocked" and "flush_commit ok (uc_db c) = (r, u)"
  shows "ud_inv out w ((seen_db out u c)\<lparr>uc_flush := if r then FlushCommitted else FlushIdle\<rparr>)"
proof -
  note I = ud_invD [OF assms(1)]
  obtain u' where u': "flush_commit ok (uc_db c) = (ok, u')" "fu_dblCache u' = fu_dblCache (uc_db c)" "fu_wf u'"
    "disk_map u' = (if ok then over (fu_lower (uc_db c)) (disk_map (uc_db c)) else disk_map (uc_db c))"
    by (rule flush_commit_spec [OF I(1), of ok])
  have "\<not> uc_gap c" using I(4) assms(2) by auto
  moreover have "read_ok out w u' ((seen_db out u c)\<lparr>uc_flush := if r then FlushCommitted else FlushIdle\<rparr>) (insert (fu_abs u' out) (uc_seen c))"
    using I(5) u'(2,4) by (cases "uc_read c") (auto simp: seen_db_def read_ok_def over_over)
  ultimately show ?thesis
    using assms(3) u' by (auto simp: ud_inv_def seen_db_def over_over)
qed

lemma ud_inv_flip:
  assumes "ud_inv out w c" and "uc_flush c = FlushUpgraded"
  shows "ud_inv out w ((seen_db out (flush_flip (uc_db c)) c)\<lparr>uc_flush := FlushFlipped\<rparr>)"
proof -
  let ?u = "uc_db c"
  note I = ud_invD [OF assms(1)]
  have d: "over (fu_lower ?u) (disk_map ?u) = disk_map ?u" using I(3) assms(2) by simp
  have "fu_abs ?u = over (fu_upper ?u) (disk_map ?u)" by (simp add: fu_abs_def d)
  then have "uc_read c \<noteq> ReadIdle \<Longrightarrow> over (fu_upper ?u) (disk_map ?u) out \<in> uc_seen c" using I(2) by simp
  then have "read_ok out w (flush_flip ?u) ((seen_db out (flush_flip ?u) c)\<lparr>uc_flush := FlushFlipped\<rparr>)
      (insert (fu_abs (flush_flip ?u) out) (uc_seen c))"
    using I(5) d by (cases "uc_read c") (auto simp: seen_db_def read_ok_def)
  then show ?thesis
    using I(1) flush_flip_wf [of ?u] by (simp add: ud_inv_def seen_db_def)
qed

lemma ud_inv_unlock:
  assumes "ud_inv out w c"
  shows "ud_inv out w (c\<lparr>uc_flush := FlushIdle, uc_gap := False\<rparr>)"
  using ud_invD [OF assms] by (cases "uc_read c") (auto simp: ud_inv_def read_ok_def)

lemma ud_inv_phase:
  assumes "ud_inv out w c" and "uc_flush c = FlushIdle \<and> f = FlushLocked \<or> uc_flush c = FlushCommitted \<and> f = FlushUpgraded"
  shows "ud_inv out w (c\<lparr>uc_flush := f\<rparr>)"
  using ud_invD [OF assms(1)] assms(2) by (cases "uc_read c") (auto simp: ud_inv_def read_ok_def)

lemma ud_inv_read_upper:
  assumes "ud_inv out w c" and "uc_read c = AtUpper"
  shows "ud_inv out w (c\<lparr>uc_read := next_place (read_map (fu_upper (uc_db c)) out w) AtLower, uc_gap := (uc_flush c = FlushFlipped)\<rparr>)"
proof -
  let ?u = "uc_db c"
  note I = ud_invD [OF assms(1)]
  have abs: "over (fu_upper ?u) (over (fu_lower ?u) (disk_map ?u)) out \<in> uc_seen c"
    using I(2) assms(2) by (simp add: fu_abs_def)
  then show ?thesis
    using I(1-3) assms(2)
    by (cases "om_get (fu_upper ?u) out") (auto simp: ud_inv_def next_place_def read_map_answer read_ok_def over_def [of "fu_upper ?u"])
qed

lemma ud_inv_read:
  assumes "ud_inv out w c"
  shows "uc_read c = AtLower \<Longrightarrow> \<not> lower_locked (uc_flush c) \<Longrightarrow>
      ud_inv out w (c\<lparr>uc_read := next_place (read_map (fu_lower (uc_db c)) out w) AtDisk\<rparr>)"
    and "uc_read c = AtLower \<Longrightarrow> lower_locked (uc_flush c) \<Longrightarrow> ud_inv out w (c\<lparr>uc_read := AtDisk, uc_stale := uc_gap c\<rparr>)"
    and "uc_read c = AtDisk \<Longrightarrow> ud_inv out w (c\<lparr>uc_read := ReadDone (read_disk (uc_db c) out w)\<rparr>)"
proof -
  let ?u = "uc_db c"
  note I = ud_invD [OF assms]
  show "ud_inv out w (c\<lparr>uc_read := next_place (read_map (fu_lower ?u) out w) AtDisk\<rparr>)" if "uc_read c = AtLower" "\<not> lower_locked (uc_flush c)"
    using I that
    by (cases "om_get (fu_lower ?u) out") (auto simp: ud_inv_def next_place_def read_map_answer read_ok_def over_def [of "fu_lower ?u"])
  show "ud_inv out w (c\<lparr>uc_read := AtDisk, uc_stale := uc_gap c\<rparr>)" if "uc_read c = AtLower" "lower_locked (uc_flush c)"
    using I that by (auto simp: ud_inv_def read_ok_def lower_locked_def)
  show "ud_inv out w (c\<lparr>uc_read := ReadDone (read_disk ?u out w)\<rparr>)" if "uc_read c = AtDisk"
    using I that by (auto simp: ud_inv_def read_ok_def read_disk_answer)
qed

lemma ud_run_inv: "ud_run out w c \<Longrightarrow> ud_inv out w c"
proof (induction rule: ud_run.induct)
  case (start u)
  then show ?case by (simp add: ud_inv_def read_ok_def)
next
  case (step c c')
  from step(2,3) show ?case
  proof (induction rule: ud_step.induct)
    case (update a c r)
    from update(2,1) show ?case by (rule ud_inv_update)
  next
    case (flush_lock c)
    then show ?case by (intro ud_inv_phase) auto
  next
    case (commit c ok r u)
    from commit(3,1,2) show ?case by (rule ud_inv_commit)
  next
    case (flush_upgrade c)
    then show ?case by (intro ud_inv_phase) auto
  next
    case (flip c)
    from flip(2,1) show ?case by (rule ud_inv_flip)
  next
    case (flush_unlock c)
    from flush_unlock(2) show ?case by (rule ud_inv_unlock)
  next
    case (read_begin c)
    then show ?case by (simp add: ud_inv_def read_ok_def)
  next
    case (read_upper c)
    from read_upper(2,1) show ?case by (rule ud_inv_read_upper)
  next
    case (read_lower c)
    from read_lower(3,1,2) show ?case by (rule ud_inv_read(1))
  next
    case (skip_lower c)
    from skip_lower(3,1,2) show ?case by (rule ud_inv_read(2))
  next
    case (from_disk c)
    from from_disk(2,1) show ?case by (rule ud_inv_read(3))
  qed
qed

section \<open>Properties\<close>

text \<open>Property C11: a read of an output runs in up to three steps beside updates and flushes of the same database, of which the
  flush may hold the lower map or exchange the two maps at any point.  What it returns is the output that the
  contents of the database had at some moment between its begin and its end, except for a read that looks into the
  upper map and then finds the lower map locked, both after a flush has exchanged the maps and before it unlocks
  the lower one.\<close>

theorem unspent_read_linearizable:
  assumes "ud_run out w c" and "uc_read c = ReadDone r" and "\<not> uc_stale c"
  shows "\<exists>y \<in> uc_seen c. r = answer w y"
  using ud_invD(5) [OF ud_run_inv [OF assms(1)]] assms(2,3) by (simp add: read_ok_def)

definition empty_fork_db :: CForkUnspentDB where
  "empty_fork_db = \<lparr>fu_db = Some \<lparr>ldb_pdb = [], ldb_pbatch = None, ldb_piter = None\<rparr>, fu_dblCache = dm_new\<rparr>"

lemma empty_fork_db_wf: "fu_wf empty_fork_db"
  by (simp add: fu_wf_def map_ok_def empty_fork_db_def)

text \<open>A read that passes the three places of an empty database.\<close>

theorem unspent_read_linearizable_witness:
  "\<exists>c y. ud_run (CTxOutPoint 1 0) out_null c \<and> uc_read c = ReadDone (answer out_null y) \<and> y \<in> uc_seen c"
proof -
  let ?o = "CTxOutPoint 1 0"
  let ?c = "\<lambda>r. (ud_start empty_fork_db)\<lparr>uc_read := r, uc_seen := {fu_abs empty_fork_db ?o}\<rparr>"
  have "ud_run ?o out_null (ud_start empty_fork_db)" by (rule ud_run.start [OF empty_fork_db_wf])
  moreover have "ud_step ?o out_null (ud_start empty_fork_db) (?c AtUpper)"
    using ud_step.read_begin [of "ud_start empty_fork_db" ?o out_null] by simp
  ultimately have 0: "ud_run ?o out_null (?c AtUpper)" by (rule ud_run.step)
  have miss: "read_map (fu_upper empty_fork_db) ?o out_null = None" "read_map (fu_lower empty_fork_db) ?o out_null = None"
    by (simp_all add: empty_fork_db_def read_map_def)
  have "ud_step ?o out_null (?c AtUpper) (?c AtLower)"
    using ud_step.read_upper [of "?c AtUpper" ?o out_null] miss by (simp add: next_place_def)
  note 1 = ud_run.step [OF 0 this]
  have "ud_step ?o out_null (?c AtLower) (?c AtDisk)"
    using ud_step.read_lower [of "?c AtLower" ?o out_null] miss by (simp add: next_place_def lower_locked_def)
  note 2 = ud_run.step [OF 1 this]
  have "ud_step ?o out_null (?c AtDisk) (?c (ReadDone (read_disk empty_fork_db ?o out_null)))"
    using ud_step.from_disk [of "?c AtDisk" ?o out_null] by simp
  note 3 = ud_run.step [OF 2 this]
  show ?thesis using unspent_read_linearizable [OF 3] 3 by auto
qed

text \<open>The state in which a flush without other updates has exchanged the maps and still holds the lower one.\<close>

lemma ud_run_flipped:
  assumes "fu_wf u"
  obtains u' where "ud_run out w ((ud_start u')\<lparr>uc_flush := FlushFlipped, uc_seen := {fu_abs u out}\<rparr>)"
    "fu_wf u'" "fu_upper u' = []" "fu_lower u' = fu_upper u" "disk_map u' = over (fu_lower u) (disk_map u)"
proof -
  obtain v where v: "flush_commit True u = (True, v)" "fu_dblCache v = fu_dblCache u" "fu_wf v"
    "disk_map v = over (fu_lower u) (disk_map u)"
    using flush_commit_spec [OF assms, of True] by (metis (full_types))
  have abs: "fu_abs v = fu_abs u" "fu_abs (flush_flip v) = fu_abs u"
    using v(2,4) by (simp_all add: fu_abs_def over_over)
  have 0: "ud_run out w (ud_start u)" by (rule ud_run.start [OF assms])
  note 1 = ud_run.step [OF 0 ud_step.flush_lock, simplified]
  note 2 = ud_run.step [OF 1 ud_step.commit, simplified, OF v(1), simplified seen_db_def, simplified]
  note 3 = ud_run.step [OF 2 ud_step.flush_upgrade, simplified]
  note 4 = ud_run.step [OF 3 ud_step.flip, simplified seen_db_def, simplified]
  show ?thesis
  proof (rule that [of "flush_flip v"])
    show "ud_run out w ((ud_start (flush_flip v))\<lparr>uc_flush := FlushFlipped, uc_seen := {fu_abs u out}\<rparr>)"
      using 4 by (simp add: abs)
    show "fu_wf (flush_flip v)" by (rule flush_flip_wf [OF v(3)])
    show "fu_upper (flush_flip v) = []" "fu_lower (flush_flip v) = fu_upper u" "disk_map (flush_flip v) = over (fu_lower u) (disk_map u)"
      using v(2,4) by simp_all
  qed
qed

text \<open>Property C30: \<^verbatim>\<open>Flush\<close> exchanges the maps and unlocks the lower one only when it returns.  A read that falls in between
  finds the upper map empty and cannot lock the lower one, and so it misses every change that the upper map had
  before the exchange: it returns what the database has without them, although the contents of the database were the same
  throughout the read.\<close>

theorem read_after_flip_misses_changes:
  assumes "fu_wf u"
  shows "\<exists>c. ud_run out w c \<and> uc_seen c = {fu_abs u out} \<and> uc_read c = ReadDone (answer w (over (fu_lower u) (disk_map u) out))"
proof -
  obtain v where run: "ud_run out w ((ud_start v)\<lparr>uc_flush := FlushFlipped, uc_seen := {fu_abs u out}\<rparr>)" and wf: "fu_wf v"
    and v: "fu_upper v = []" "fu_lower v = fu_upper u" "disk_map v = over (fu_lower u) (disk_map u)"
    by (rule ud_run_flipped [OF assms])
  have "fu_abs v = fu_abs u" using v by (simp add: fu_abs_def over_def)
  then have 0: "ud_run out w ((ud_start v)\<lparr>uc_flush := FlushFlipped, uc_read := AtUpper, uc_seen := {fu_abs u out}\<rparr>)"
    using ud_run.step [OF run ud_step.read_begin] by simp
  have miss: "read_map [] out w = None" by (simp add: read_map_def)
  note 1 = ud_run.step [OF 0 ud_step.read_upper, simplified, simplified v(1) miss next_place_def, simplified]
  note 2 = ud_run.step [OF 1 ud_step.skip_lower, simplified lower_locked_def, simplified]
  note 3 = ud_run.step [OF 2 ud_step.from_disk, simplified]
  show ?thesis using 3 by (intro exI conjI) (rule 3, simp_all add: read_disk_answer v(3))
qed

text \<open>An output that is only in the upper map is reported as not found.\<close>

theorem read_after_flip_misses_changes_witness:
  "\<exists>c. ud_run (CTxOutPoint 1 0) out_null c \<and> uc_seen c = {Some view_example_output} \<and> uc_read c = ReadDone (False, out_null)"
proof -
  let ?u = "UpdateUnspent [\<lparr>unspent_out = CTxOutPoint 1 0, unspent_output = view_example_output\<rparr>] [] empty_fork_db"
  have no: "disk_map empty_fork_db = (\<lambda>_. None)" "fu_lower empty_fork_db = []" "fu_upper empty_fork_db = []"
    by (auto simp: empty_fork_db_def disk_map_def kv_tbl_def fun_eq_iff)
  have "fu_wf ?u"
    by (rule fu_wf_UpdateUnspent [OF empty_fork_db_wf]) (simp add: view_example_output_def out_IsNull_def int64_range_def)
  moreover have "fu_abs ?u (CTxOutPoint 1 0) = Some view_example_output"
    by (simp add: UpdateUnspent_def fu_abs_def over_def no om_get_set some_output_def view_example_nonnull)
  ultimately show ?thesis
    using read_after_flip_misses_changes [of ?u "CTxOutPoint 1 0" out_null] by (simp add: no over_def answer_def)
qed

end
