(* ===== verification/BlockTree.thy ===== *)
theory BlockTree
  imports Core
begin

text \<open>
  The index of the blocks (\<^verbatim>\<open>CBlockIndex\<close>, \<^verbatim>\<open>CBlockFork\<close> and the parts of \<^verbatim>\<open>CBlockBase\<close> in \<^verbatim>\<open>storage/blockbase.h\<close> and \<^verbatim>\<open>blockbase.cpp\<close> that
  work on it, with the queries of \<^verbatim>\<open>src/worldline.cpp\<close>).  The entries are objects that point to each other; here they are
  the values of a map from block hashes, and a pointer is the hash of the entry it points to.  A loop along \<^verbatim>\<open>pPrev\<close>
  is a recursion over the chain, the list of the entries from a block down to the first one.

  The lemmas at the end show that in a tree of entries the chain of a block is unique, without repetition and not longer than the index.
\<close>

section \<open>Entries and chains\<close>

type_synonym block_index = "(uint256, CBlockIndex) omap"

abbreviation idx_IsOrigin :: "CBlockIndex \<Rightarrow> bool" where "idx_IsOrigin i \<equiv> type_IsOrigin (idx_nType i)"

abbreviation idx_IsExtended :: "CBlockIndex \<Rightarrow> bool" where "idx_IsExtended i \<equiv> idx_nType i = BLOCK_EXTENDED"

abbreviation idx_IsVacant :: "CBlockIndex \<Rightarrow> bool" where "idx_IsVacant i \<equiv> idx_nType i = BLOCK_VACANT"

definition GetIndex :: "block_index \<Rightarrow> uint256 \<Rightarrow> CBlockIndex option" where
  "GetIndex m hash = om_get m hash"

definition idx_new :: "uint256 \<Rightarrow> CBlockIndex" where
  "idx_new hash = \<lparr>idx_hash = hash, idx_pOrigin = hash, idx_pPrev = None, idx_pNext = None, idx_txidMint = 0, idx_nMintType = 0,
     idx_nVersion = 0, idx_nType = 0, idx_nTimeStamp = 0, idx_nHeight = 0, idx_nRandBeacon = 0, idx_nChainTrust = 0,
     idx_nMoneySupply = 0, idx_nProofAlgo = 0, idx_nProofBits = 0, idx_nFile = 0, idx_nOffset = 0\<rparr>"

definition GetOrCreateIndex :: "uint256 \<Rightarrow> block_index \<Rightarrow> block_index" where
  "GetOrCreateIndex hash m = om_ins hash (idx_new hash) m"

text \<open>The list of the entries from a block along \<^verbatim>\<open>pPrev\<close>.  The index has no more entries than the fuel.\<close>

fun chain_up :: "nat \<Rightarrow> block_index \<Rightarrow> uint256 option \<Rightarrow> CBlockIndex list" where
  "chain_up 0 m p = []"
| "chain_up (Suc n) m None = []"
| "chain_up (Suc n) m (Some h) = (case om_get m h of None \<Rightarrow> [] | Some i \<Rightarrow> i # chain_up n m (idx_pPrev i))"

definition chain_of :: "block_index \<Rightarrow> uint256 \<Rightarrow> CBlockIndex list" where
  "chain_of m h = chain_up (length m) m (Some h)"

section \<open>Building the index\<close>

definition beacon_of :: "block_index \<Rightarrow> uint256 \<Rightarrow> uint64" where
  "beacon_of m h = (case om_get m h of Some i \<Rightarrow> idx_nRandBeacon i | None \<Rightarrow> 0)"

text \<open>The entry of a new block, once it is in the index and its predecessor is looked up there.\<close>

definition index_entry :: "CBlock \<Rightarrow> block_index \<Rightarrow> CBlockIndex \<Rightarrow> CBlockIndex" where
  "index_entry b m new =
     (case om_get m (blk_hashPrev b) of
        None \<Rightarrow> new\<lparr>idx_nMoneySupply := GetBlockMint b, idx_nChainTrust := GetBlockTrust b, idx_nRandBeacon := GetBlockBeacon b 0\<rparr>
      | Some prev \<Rightarrow>
          new\<lparr>idx_pPrev := Some (blk_hashPrev b), idx_nHeight := idx_nHeight prev + (if idx_IsExtended new then 0 else 1),
            idx_pOrigin := (if idx_IsOrigin new then idx_pOrigin new else idx_pOrigin prev),
            idx_nMoneySupply := GetBlockMint b + idx_nMoneySupply prev, idx_nChainTrust := GetBlockTrust b + idx_nChainTrust prev,
            idx_nRandBeacon := (if idx_IsOrigin new then GetBlockBeacon b 0
                                else bit_xor (GetBlockBeacon b 0) (beacon_of m (idx_pOrigin prev)))\<rparr>)"

definition AddNewIndex :: "crypto_env \<Rightarrow> uint256 \<Rightarrow> CBlock \<Rightarrow> uint32 \<Rightarrow> uint32 \<Rightarrow> block_index \<Rightarrow> CBlockIndex \<times> block_index" where
  "AddNewIndex env hash b nFile nOffset m =
     (let new = idx_of_block env hash b nFile nOffset;
          new = index_entry b (om_ins hash new m) new
      in (new, om_ins hash new m))"

text \<open>\<^verbatim>\<open>LoadIndex\<close> restores an entry from its outline; the entries it points to are created when they have not been loaded yet.\<close>

definition LoadIndex :: "CBlockOutline \<Rightarrow> block_index \<Rightarrow> block_index" where
  "LoadIndex outline m =
     (let hash = ol_hashBlock outline;
          i = (ol_index outline)\<lparr>idx_hash := hash, idx_pPrev := None, idx_pOrigin := hash\<rparr>;
          m = om_set hash i m;
          (i, m) = (if ol_hashPrev outline \<noteq> 0 then (i\<lparr>idx_pPrev := Some (ol_hashPrev outline)\<rparr>, GetOrCreateIndex (ol_hashPrev outline) m)
                    else (i, m));
          (i, m) = (if \<not> idx_IsOrigin i then (i\<lparr>idx_pOrigin := ol_hashOrigin outline\<rparr>, GetOrCreateIndex (ol_hashOrigin outline) m)
                    else (i, m))
      in om_set hash i m)"

section \<open>The main chain of a fork\<close>

record CBlockFork =
  bf_forkProfile :: CProfile
  bf_pIndexLast :: uint256
  bf_pIndexOrigin :: uint256

type_synonym fork_map = "(uint256, CBlockFork) omap"

definition set_next :: "uint256 \<Rightarrow> uint256 option \<Rightarrow> block_index \<Rightarrow> block_index" where
  "set_next h p m = (case om_get m h of Some i \<Rightarrow> om_set h (i\<lparr>idx_pNext := p\<rparr>) m | None \<Rightarrow> m)"

definition prev_of :: "block_index \<Rightarrow> uint256 \<Rightarrow> uint256 option" where
  "prev_of m h = Option.bind (om_get m h) idx_pPrev"

definition next_of :: "block_index \<Rightarrow> uint256 \<Rightarrow> uint256 option" where
  "next_of m h = Option.bind (om_get m h) idx_pNext"

text \<open>The loops of \<^verbatim>\<open>UpdateNext\<close>.  \<^const>\<open>None\<close> stands for a pointer that leads nowhere, and for a loop that does not end.\<close>

partial_function (option) clear_next :: "uint256 option \<Rightarrow> block_index \<Rightarrow> block_index option" where
  "clear_next p m =
     (case p of
        None \<Rightarrow> Some m
      | Some h \<Rightarrow>
          (case prev_of m h of
             None \<Rightarrow> None
           | Some q \<Rightarrow> clear_next (next_of (set_next q None m) h) (set_next q None m)))"

partial_function (option) link_next :: "uint256 \<Rightarrow> block_index \<Rightarrow> block_index option" where
  "link_next n m =
     (case om_get m n of
        None \<Rightarrow> None
      | Some i \<Rightarrow>
          if idx_IsOrigin i then Some m
          else (case idx_pPrev i of
              None \<Rightarrow> None
            | Some q \<Rightarrow>
                if next_of m q = Some n then Some m
                else (case clear_next (next_of m q) m of
                    None \<Rightarrow> None
                  | Some m' \<Rightarrow> link_next q (set_next q (Some n) m'))))"

definition UpdateNext :: "uint256 \<Rightarrow> block_index \<Rightarrow> block_index option" where
  "UpdateNext pIndexLast m = link_next pIndexLast (set_next pIndexLast None m)"

definition UpdateLast :: "uint256 \<Rightarrow> CBlockFork \<Rightarrow> block_index \<Rightarrow> (CBlockFork \<times> block_index) option" where
  "UpdateLast pIndexLast f m = map_option (\<lambda>m. (f\<lparr>bf_pIndexLast := pIndexLast\<rparr>, m)) (UpdateNext pIndexLast m)"

text \<open>A new fork, with its last block.  It is inserted under the hash of its origin.\<close>

definition AddNewFork :: "CProfile \<Rightarrow> CBlockIndex \<Rightarrow> block_index \<Rightarrow> fork_map \<Rightarrow> (block_index \<times> fork_map) option" where
  "AddNewFork profile pIndexLast m fk =
     map_option (\<lambda>m. (m, om_ins (idx_pOrigin pIndexLast)
         \<lparr>bf_forkProfile = profile, bf_pIndexLast = idx_hash pIndexLast, bf_pIndexOrigin = idx_pOrigin pIndexLast\<rparr> fk))
       (UpdateNext (idx_hash pIndexLast) m)"

definition GetFork_name :: "fork_map \<Rightarrow> string \<Rightarrow> CBlockFork option" where
  "GetFork_name fk strName = map_option snd (find (\<lambda>(_, f). prof_strName (bf_forkProfile f) = strName) fk)"

definition RetrieveFork :: "fork_map \<Rightarrow> uint256 \<Rightarrow> uint256 option" where
  "RetrieveFork fk hash = map_option bf_pIndexLast (om_get fk hash)"

definition RetrieveFork_name :: "fork_map \<Rightarrow> string \<Rightarrow> uint256 option" where
  "RetrieveFork_name fk strName = map_option bf_pIndexLast (GetFork_name fk strName)"

definition RetrieveProfile :: "fork_map \<Rightarrow> uint256 \<Rightarrow> CProfile option" where
  "RetrieveProfile fk hash = map_option bf_forkProfile (om_get fk hash)"

definition GetOriginIndex :: "block_index \<Rightarrow> fork_map \<Rightarrow> uint256 \<Rightarrow> CBlockIndex option" where
  "GetOriginIndex m fk txidMint =
     find (\<lambda>i. idx_txidMint i = txidMint) (List.map_filter (\<lambda>(_, f). om_get m (bf_pIndexOrigin f)) fk)"

section \<open>Where two chains part\<close>

text \<open>\<^verbatim>\<open>GetBranch\<close> on the chains of the two blocks: the block where they meet and the path to it.  When one chain ends before
  they meet, a null pointer is dereferenced (\<^const>\<open>None\<close>); when both end at once, the block is a null pointer.\<close>

function GetBranch ::
  "CBlockIndex list \<Rightarrow> CBlockIndex list \<Rightarrow> CBlockIndex list \<Rightarrow> (CBlockIndex option \<times> CBlockIndex list) option" where
  "GetBranch [] [] vPath = Some (None, vPath)"
| "GetBranch [] (i # is) vPath = None"
| "GetBranch (r # rs) [] vPath = None"
| "GetBranch (r # rs) (i # is) vPath =
     (if idx_hash i = idx_hash r then Some (Some i, vPath)
      else if idx_time r > idx_time i then GetBranch rs (i # is) vPath
      else if idx_time i > idx_time r then GetBranch (r # rs) is (vPath @ [i])
      else GetBranch rs is (vPath @ [i]))"
  by pat_completeness auto
termination
  by (relation "measure (\<lambda>(rs, is, _). length rs + length is)") auto

section \<open>Queries along the chain\<close>

text \<open>\<^verbatim>\<open>IsEquivalent\<close>: a vacant block stands for the blocks below it.\<close>

fun IsEquivalent :: "CBlockIndex list \<Rightarrow> CBlockIndex \<Rightarrow> bool" where
  "IsEquivalent [] c = False"
| "IsEquivalent (i # is) c =
     (if idx_hash i = idx_hash c then True
      else if idx_nType i \<noteq> BLOCK_VACANT \<or> idx_nHeight i \<le> idx_nHeight c then False
      else IsEquivalent is c)"

text \<open>The rest works on the last block of a fork.\<close>

definition GetBlockCount :: "block_index \<Rightarrow> fork_map \<Rightarrow> uint256 \<Rightarrow> int" where
  "GetBlockCount m fk hashFork = (case RetrieveFork fk hashFork of Some pIndexLast \<Rightarrow> int (length (chain_of m pIndexLast)) | None \<Rightarrow> 0)"

definition GetBlockLocation :: "block_index \<Rightarrow> uint256 \<Rightarrow> (uint256 \<times> int) option" where
  "GetBlockLocation m hashBlock = map_option (\<lambda>i. (idx_pOrigin i, idx_nHeight i)) (GetIndex m hashBlock)"

text \<open>The chain of a fork from its last block, unless this is below the height.\<close>

definition fork_chain_at :: "block_index \<Rightarrow> fork_map \<Rightarrow> uint256 \<Rightarrow> int \<Rightarrow> CBlockIndex list option" where
  "fork_chain_at m fk hashFork nHeight =
     (case RetrieveFork fk hashFork of
        None \<Rightarrow> None
      | Some pIndexLast \<Rightarrow>
          (let chain = chain_of m pIndexLast
           in if chain \<noteq> [] \<and> idx_nHeight (hd chain) < nHeight then None
              else Some (dropWhile (\<lambda>i. idx_nHeight i > nHeight) chain)))"

definition GetBlockHash :: "block_index \<Rightarrow> fork_map \<Rightarrow> uint256 \<Rightarrow> int \<Rightarrow> uint256 option" where
  "GetBlockHash m fk hashFork nHeight =
     (case fork_chain_at m fk hashFork nHeight of
        None \<Rightarrow> None
      | Some chain \<Rightarrow>
          (case dropWhile (\<lambda>i. idx_nHeight i = nHeight \<and> idx_IsExtended i) chain of [] \<Rightarrow> None | i # _ \<Rightarrow> Some (idx_hash i)))"

definition GetBlockHashes :: "block_index \<Rightarrow> fork_map \<Rightarrow> uint256 \<Rightarrow> int \<Rightarrow> uint256 list option" where
  "GetBlockHashes m fk hashFork nHeight =
     (case fork_chain_at m fk hashFork nHeight of
        None \<Rightarrow> None
      | Some chain \<Rightarrow>
          (case rev (map idx_hash (takeWhile (\<lambda>i. idx_nHeight i = nHeight) chain)) of [] \<Rightarrow> None | hs \<Rightarrow> Some hs))"

definition GetLastBlock :: "block_index \<Rightarrow> fork_map \<Rightarrow> uint256 \<Rightarrow> (uint256 \<times> int \<times> int) option" where
  "GetLastBlock m fk hashFork =
     Option.bind (RetrieveFork fk hashFork) (\<lambda>pIndexLast. map_option (\<lambda>i. (idx_hash i, idx_nHeight i, idx_time i)) (GetIndex m pIndexLast))"

fun last_times :: "CBlockIndex list \<Rightarrow> int \<Rightarrow> int list" where
  "last_times [] nDepth = []"
| "last_times (i # is) nDepth =
     (if nDepth > 0 then idx_time i # last_times is (if idx_IsExtended i then nDepth else nDepth - 1) else [])"

definition GetLastBlockTime :: "block_index \<Rightarrow> fork_map \<Rightarrow> uint256 \<Rightarrow> int \<Rightarrow> int list option" where
  "GetLastBlockTime m fk hashFork nDepth = map_option (\<lambda>pIndexLast. last_times (chain_of m pIndexLast) nDepth) (RetrieveFork fk hashFork)"

text \<open>\<^verbatim>\<open>GetForkBlockLocator\<close>: the steps double after the tenth hash.\<close>

function locator_loop :: "uint256 \<Rightarrow> CBlockIndex list \<Rightarrow> nat \<Rightarrow> uint256 list \<Rightarrow> uint256 list" where
  "locator_loop hashFork [] nStep vBlockHash = vBlockHash"
| "locator_loop hashFork (i # is) nStep vBlockHash =
     (if idx_pOrigin i = hashFork \<and> \<not> idx_IsOrigin i then
        (let vBlockHash = vBlockHash @ [idx_hash i]
         in locator_loop hashFork (drop (nStep - 1) is) (if length vBlockHash > 10 then nStep * 2 else nStep) vBlockHash)
      else vBlockHash)"
  by pat_completeness auto
termination
  by (relation "measure (\<lambda>(_, is, _, _). length is)") auto

definition GetForkBlockLocator :: "block_index \<Rightarrow> fork_map \<Rightarrow> uint256 \<Rightarrow> uint256 list option" where
  "GetForkBlockLocator m fk hashFork =
     map_option (\<lambda>pIndexLast. locator_loop hashFork (chain_of m pIndexLast) 1 []) (RetrieveFork fk hashFork)"

text \<open>The search of \<^verbatim>\<open>GetForkBlockInv\<close> for the first hash of the locator on a main chain.  \<^const>\<open>Inl\<close> is the return for a block of
  another fork; otherwise the entry that \<^verbatim>\<open>pIndex\<close> is left at.\<close>

fun find_located :: "block_index \<Rightarrow> uint256 \<Rightarrow> uint256 \<Rightarrow> uint256 list \<Rightarrow> CBlockIndex option \<Rightarrow> unit + CBlockIndex option" where
  "find_located m hashFork pIndexLast [] pIndex = Inr pIndex"
| "find_located m hashFork pIndexLast (h # hs) pIndex =
     (case GetIndex m h of
        Some i \<Rightarrow>
          if idx_hash i = pIndexLast \<or> idx_pNext i \<noteq> None
          then (if idx_pOrigin i \<noteq> hashFork then Inl () else Inr (Some i))
          else find_located m hashFork pIndexLast hs (Some i)
      | None \<Rightarrow> find_located m hashFork pIndexLast hs None)"

fun inv_loop :: "nat \<Rightarrow> block_index \<Rightarrow> uint256 option \<Rightarrow> uint256 list \<Rightarrow> uint256 option \<times> uint256 list" where
  "inv_loop n m None vBlockHash = (None, vBlockHash)"
| "inv_loop 0 m (Some h) vBlockHash = (Some h, vBlockHash)"
| "inv_loop (Suc n) m (Some h) vBlockHash = inv_loop n m (next_of m h) (vBlockHash @ [h])"

definition GetForkBlockInv ::
  "block_index \<Rightarrow> fork_map \<Rightarrow> uint256 \<Rightarrow> uint256 list \<Rightarrow> uint256 list \<Rightarrow> uint64 \<Rightarrow> uint256 list option" where
  "GetForkBlockInv m fk hashFork locator vBlockHash nMaxCount =
     (case om_get fk hashFork of
        None \<Rightarrow> None
      | Some f \<Rightarrow>
          (case find_located m hashFork (bf_pIndexLast f) locator None of
             Inl _ \<Rightarrow> None
           | Inr pIndex \<Rightarrow>
               (let p = (case pIndex of Some i \<Rightarrow> idx_pNext i | None \<Rightarrow> next_of m (bf_pIndexOrigin f))
                in case inv_loop (unat (nMaxCount - 1) - length vBlockHash) m p vBlockHash of
                     (p, vBlockHash) \<Rightarrow>
                       Some (if p \<noteq> None \<and> p \<noteq> Some (bf_pIndexLast f) then vBlockHash @ [bf_pIndexLast f] else vBlockHash))))"

section \<open>The forks and where they join\<close>

definition GetParentHash :: "block_index \<Rightarrow> CBlockIndex \<Rightarrow> uint256" where
  "GetParentHash m i =
     (case Option.bind (prev_of m (idx_pOrigin i)) (om_get m) of Some p \<Rightarrow> idx_pOrigin p | None \<Rightarrow> 0)"

text \<open>The last blocks of the forks by the height below their origin.  Entries with the same key stay in the order of insertion.\<close>

definition height_of :: "block_index \<Rightarrow> uint256 \<Rightarrow> int" where
  "height_of m h = (case om_get m h of Some i \<Rightarrow> idx_nHeight i | None \<Rightarrow> 0)"

definition ListForkIndex :: "block_index \<Rightarrow> fork_map \<Rightarrow> (int \<times> CBlockIndex) list" where
  "ListForkIndex m fk =
     sort_key fst (map (\<lambda>i. (height_of m (idx_pOrigin i) - 1, i)) (List.map_filter (\<lambda>(_, f). om_get m (bf_pIndexLast f)) fk))"

record CForkStatus =
  fs_hashOrigin :: uint256
  fs_hashParent :: uint256
  fs_nOriginHeight :: int
  fs_hashLastBlock :: uint256
  fs_nLastBlockTime :: int
  fs_nLastBlockHeight :: int
  fs_nMoneySupply :: int
  fs_mapSubline :: "(int \<times> uint256) list"

text \<open>A status that exists because a fork joins it, before its own values are known.\<close>

definition fs_new :: CForkStatus where
  "fs_new = \<lparr>fs_hashOrigin = 0, fs_hashParent = 0, fs_nOriginHeight = 0, fs_hashLastBlock = 0, fs_nLastBlockTime = 0,
     fs_nLastBlockHeight = 0, fs_nMoneySupply = 0, fs_mapSubline = []\<rparr>"

definition add_subline :: "int \<Rightarrow> uint256 \<Rightarrow> CForkStatus \<Rightarrow> CForkStatus" where
  "add_subline nForkHeight hashFork st =
     st\<lparr>fs_mapSubline := takeWhile (\<lambda>(h, _). h \<le> nForkHeight) (fs_mapSubline st) @ (nForkHeight, hashFork) #
       dropWhile (\<lambda>(h, _). h \<le> nForkHeight) (fs_mapSubline st)\<rparr>"

definition fork_status_step :: "block_index \<Rightarrow> int \<times> CBlockIndex \<Rightarrow> (uint256, CForkStatus) omap \<Rightarrow> (uint256, CForkStatus) omap" where
  "fork_status_step m = (\<lambda>(nForkHeight, i) mapForkStatus.
     let hashFork = idx_pOrigin i; hashParent = GetParentHash m i;
         mapForkStatus = (if hashParent \<noteq> 0
           then om_set hashParent (add_subline nForkHeight hashFork
                  (case om_get mapForkStatus hashParent of Some st \<Rightarrow> st | None \<Rightarrow> fs_new)) mapForkStatus
           else mapForkStatus);
         st = (case om_get mapForkStatus hashFork of
             Some st \<Rightarrow> st
           | None \<Rightarrow> fs_new\<lparr>fs_hashOrigin := hashFork, fs_hashParent := hashParent, fs_nOriginHeight := nForkHeight\<rparr>)
     in om_set hashFork (st\<lparr>fs_hashLastBlock := idx_hash i, fs_nLastBlockTime := idx_time i, fs_nLastBlockHeight := idx_nHeight i,
          fs_nMoneySupply := idx_nMoneySupply i\<rparr>) mapForkStatus)"

definition GetForkStatus :: "block_index \<Rightarrow> fork_map \<Rightarrow> (uint256, CForkStatus) omap" where
  "GetForkStatus m fk = fold (fork_status_step m) (ListForkIndex m fk) []"

section \<open>The index as a tree\<close>

text \<open>The list of the entries from a block to one without predecessor.\<close>

fun is_chain :: "block_index \<Rightarrow> uint256 \<Rightarrow> CBlockIndex list \<Rightarrow> bool" where
  "is_chain m h [] \<longleftrightarrow> False"
| "is_chain m h (i # is) \<longleftrightarrow> om_get m h = Some i \<and> (case idx_pPrev i of None \<Rightarrow> is = [] | Some p \<Rightarrow> is_chain m p is)"

definition tree_wf :: "block_index \<Rightarrow> bool" where
  "tree_wf m \<longleftrightarrow> om_wf m \<and> (\<forall>h i. om_get m h = Some i \<longrightarrow> idx_hash i = h \<and> (\<exists>is. is_chain m h is)
     \<and> (if idx_IsOrigin i then idx_pOrigin i = h
        else \<exists>p j. idx_pPrev i = Some p \<and> om_get m p = Some j \<and> idx_pOrigin i = idx_pOrigin j))"

lemma tree_wfD:
  assumes "tree_wf m"
  shows "om_wf m" "om_get m h = Some i \<Longrightarrow> idx_hash i = h" "om_get m h = Some i \<Longrightarrow> \<exists>is. is_chain m h is"
    "om_get m h = Some i \<Longrightarrow> idx_IsOrigin i \<Longrightarrow> idx_pOrigin i = h"
    "om_get m h = Some i \<Longrightarrow> \<not> idx_IsOrigin i \<Longrightarrow> \<exists>p j. idx_pPrev i = Some p \<and> om_get m p = Some j \<and> idx_pOrigin i = idx_pOrigin j"
proof -
  note wf = assms [unfolded tree_wf_def]
  show "om_wf m" by (rule conjunct1 [OF wf])
  note i = conjunct2 [OF wf, rule_format, of h i]
  show "om_get m h = Some i \<Longrightarrow> idx_hash i = h" "om_get m h = Some i \<Longrightarrow> \<exists>is. is_chain m h is" using i by simp_all
  show "om_get m h = Some i \<Longrightarrow> idx_IsOrigin i \<Longrightarrow> idx_pOrigin i = h"
    "om_get m h = Some i \<Longrightarrow> \<not> idx_IsOrigin i \<Longrightarrow> \<exists>p j. idx_pPrev i = Some p \<and> om_get m p = Some j \<and> idx_pOrigin i = idx_pOrigin j"
    using i by simp_all
qed

lemma is_chain_unique: "is_chain m h xs \<Longrightarrow> is_chain m h ys \<Longrightarrow> xs = ys"
proof (induction xs arbitrary: h ys)
  case (Cons i xs)
  then show ?case by (cases ys; cases "idx_pPrev i") auto
qed simp

lemma is_chain_suffix:
  "is_chain m h (xs @ i # ys) \<Longrightarrow> (\<And>h i. om_get m h = Some i \<Longrightarrow> idx_hash i = h) \<Longrightarrow> is_chain m (idx_hash i) (i # ys)"
proof (induction xs arbitrary: h)
  case (Cons x xs)
  then show ?case by (cases "idx_pPrev x") auto
qed (auto split: option.splits)

lemma is_chain_mem: "is_chain m h xs \<Longrightarrow> i \<in> set xs \<Longrightarrow> \<exists>h. om_get m h = Some i"
proof (induction xs arbitrary: h)
  case (Cons x xs)
  then show ?case by (cases "idx_pPrev x") auto
qed simp

lemma is_chain_distinct:
  assumes keys: "\<And>h i. om_get m h = Some i \<Longrightarrow> idx_hash i = h" and "is_chain m h xs"
  shows "distinct (map idx_hash xs)"
  using assms(2)
proof (induction xs arbitrary: h)
  case (Cons i xs)
  show ?case
  proof (cases "idx_pPrev i")
    case (Some p)
    with Cons have xs: "is_chain m p xs" and i: "om_get m h = Some i" by auto
    have "idx_hash i \<notin> idx_hash ` set xs"
    proof
      assume "idx_hash i \<in> idx_hash ` set xs"
      then obtain j as bs where j: "xs = as @ j # bs" "idx_hash j = idx_hash i" by (auto simp: in_set_conv_decomp)
      have "is_chain m (idx_hash j) (j # bs)" using is_chain_suffix [of m p as j bs] xs j(1) keys by simp
      moreover have "is_chain m (idx_hash j) (i # xs)" using Cons.prems keys [OF i] j(2) by simp
      ultimately have "i # xs = j # bs" by (rule is_chain_unique [symmetric])
      then show False using j(1) by (auto dest: arg_cong [where f = length])
    qed
    with Cons.IH [OF xs] show ?thesis by simp
  qed (use Cons in simp)
qed simp

lemma is_chain_length:
  assumes wf: "tree_wf m" and "is_chain m h xs"
  shows "length xs \<le> length m"
proof -
  have "distinct (map idx_hash xs)" using is_chain_distinct [OF tree_wfD(2) [OF wf] assms(2)] by simp
  moreover have "set (map idx_hash xs) \<subseteq> set (map fst m)"
  proof
    fix k assume "k \<in> set (map idx_hash xs)"
    then obtain i where i: "i \<in> set xs" "k = idx_hash i" by auto
    obtain h' where h': "om_get m h' = Some i" using is_chain_mem [OF assms(2) i(1)] by blast
    then have "om_get m k = Some i" using tree_wfD(2) [OF wf h'] i(2) by simp
    then show "k \<in> set (map fst m)" by (force dest: map_of_SomeD)
  qed
  ultimately have "length (map idx_hash xs) \<le> length (map fst m)"
    by (metis card_mono distinct_card card_length le_trans List.finite_set)
  then show ?thesis by simp
qed

lemma chain_up_is_chain: "is_chain m h xs \<Longrightarrow> length xs \<le> n \<Longrightarrow> chain_up n m (Some h) = xs"
proof (induction xs arbitrary: h n)
  case (Cons i xs)
  then obtain k where k: "n = Suc k" by (cases n) auto
  show ?case
  proof (cases "idx_pPrev i")
    case (Some p)
    then have "chain_up k m (Some p) = xs" using Cons.IH [of p k] Cons.prems k by simp
    then show ?thesis using Cons.prems k Some by simp
  qed (use Cons.prems k in \<open>cases k; simp\<close>)
qed simp

lemma chain_of_is_chain:
  assumes "tree_wf m" and "om_get m h = Some i"
  shows "is_chain m h (chain_of m h)"
proof -
  obtain xs where xs: "is_chain m h xs" using tree_wfD(3) [OF assms] by blast
  have "chain_of m h = xs" unfolding chain_of_def by (rule chain_up_is_chain [OF xs is_chain_length [OF assms(1) xs]])
  with xs show ?thesis by simp
qed

lemma chain_of_eq: "tree_wf m \<Longrightarrow> is_chain m h xs \<Longrightarrow> chain_of m h = xs"
  unfolding chain_of_def by (rule chain_up_is_chain [OF _ is_chain_length])

end
