(* ===== verification/MainChain.thy ===== *)
theory MainChain
  imports BlockTree
begin

text \<open>
  The forward pointers of the block index (\<^verbatim>\<open>pNext\<close>), the main chain of a fork, and what \<^verbatim>\<open>UpdateNext\<close>, \<^verbatim>\<open>GetBranch\<close> and
  \<^verbatim>\<open>GetForkBlockInv\<close> of \<^verbatim>\<open>storage/blockbase.h\<close> and \<^verbatim>\<open>blockbase.cpp\<close> do with them.

  \<^verbatim>\<open>UpdateNext\<close> returns and leaves forward pointers that describe exactly the chain from the new last block to the
  origin of its fork, without touching the other forks.
\<close>

section \<open>Changing the forward pointers\<close>

text \<open>Two indexes that differ in the forward pointers only.\<close>

definition same_tree :: "block_index \<Rightarrow> block_index \<Rightarrow> bool" where
  "same_tree m m' \<longleftrightarrow> om_wf m' \<and> (\<forall>h. map_option (idx_pNext_update (\<lambda>_. None)) (om_get m' h) = map_option (idx_pNext_update (\<lambda>_. None)) (om_get m h))"

lemma same_tree_refl: "om_wf m \<Longrightarrow> same_tree m m"
  by (simp add: same_tree_def)

lemma same_tree_trans: "same_tree m m' \<Longrightarrow> same_tree m' m'' \<Longrightarrow> same_tree m m''"
  by (simp add: same_tree_def)

lemma same_tree_get:
  assumes "same_tree m m'" and "om_get m h = Some i"
  obtains n where "om_get m' h = Some (i\<lparr>idx_pNext := n\<rparr>)"
proof -
  obtain j where j: "om_get m' h = Some j" "j\<lparr>idx_pNext := None\<rparr> = i\<lparr>idx_pNext := None\<rparr>"
    using assms unfolding same_tree_def by (metis (no_types, lifting) map_option_eq_Some)
  from arg_cong [OF j(2), of "idx_pNext_update (\<lambda>_. idx_pNext j)"] have "i\<lparr>idx_pNext := idx_pNext j\<rparr> = j" by simp
  with j(1) show ?thesis by (metis that)
qed

lemma same_tree_prev: "same_tree m m' \<Longrightarrow> prev_of m' h = prev_of m h"
  unfolding same_tree_def prev_of_def
  by (drule conjunct2, drule spec [of _ h]) (cases "om_get m h"; cases "om_get m' h"; auto dest!: arg_cong [where f = idx_pPrev])

lemma set_next_tree: "om_wf m \<Longrightarrow> same_tree m (set_next h p m)"
  by (auto simp: same_tree_def set_next_def om_get_set split: option.splits)

lemma next_of_set: "om_get m h = Some i \<Longrightarrow> next_of (set_next h p m) = (next_of m)(h := p)"
  by (auto simp: next_of_def set_next_def om_get_set fun_eq_iff)

text \<open>A path of blocks, from a block upwards, that the forward pointers describe to its end.\<close>

fun upward :: "block_index \<Rightarrow> uint256 list \<Rightarrow> bool" where
  "upward m [] \<longleftrightarrow> True"
| "upward m [x] \<longleftrightarrow> om_get m x \<noteq> None \<and> next_of m x = None"
| "upward m (x # y # zs) \<longleftrightarrow> om_get m x \<noteq> None \<and> next_of m x = Some y \<and> prev_of m y = Some x \<and> upward m (y # zs)"

lemma upward_cong:
  "upward m xs \<Longrightarrow> same_tree m m' \<Longrightarrow> (\<forall>x \<in> set xs. next_of m' x = next_of m x) \<Longrightarrow> upward m' xs"
proof (induction m xs rule: upward.induct)
  case (2 m x)
  then show ?case by (auto elim: same_tree_get)
next
  case (3 m x y zs)
  then show ?case by (auto simp: same_tree_prev elim: same_tree_get)
qed simp

lemma clear_next_upward:
  assumes "upward m (x # ys)" and "distinct (x # ys)" and "om_wf m"
  obtains m' where "clear_next (next_of m x) m = Some m'" "same_tree m m'" "om_wf m'"
    "next_of m' = (\<lambda>h. if h \<in> set (x # ys) then None else next_of m h)"
proof -
  have "\<exists>m'. clear_next (next_of m x) m = Some m' \<and> same_tree m m' \<and> om_wf m' \<and> next_of m' = (\<lambda>h. if h \<in> set (x # ys) then None else next_of m h)"
    using assms
  proof (induction ys arbitrary: x m)
    case Nil
    then show ?case by (auto simp: clear_next.simps same_tree_refl fun_eq_iff intro!: exI [of _ m])
  next
    case (Cons y zs)
    let ?m = "set_next x None m"
    obtain i where i: "om_get m x = Some i" and y: "next_of m x = Some y" "prev_of m y = Some x" "upward m (y # zs)"
      using Cons.prems by auto
    have t: "same_tree m ?m" by (rule set_next_tree [OF Cons.prems(3)])
    have wf: "om_wf ?m" using t by (simp add: same_tree_def)
    have "upward ?m (y # zs)"
      by (rule upward_cong [OF y(3) t]) (use Cons.prems(2) in \<open>auto simp: next_of_set [OF i]\<close>)
    then obtain m' where m': "clear_next (next_of ?m y) ?m = Some m'" "same_tree ?m m'" "om_wf m'"
      "next_of m' = (\<lambda>h. if h \<in> set (y # zs) then None else next_of ?m h)"
      using Cons.IH [of ?m y] Cons.prems(2) wf by auto
    have "clear_next (next_of m x) m = Some m'" using m'(1) y by (subst clear_next.simps) simp
    moreover have "next_of m' = (\<lambda>h. if h \<in> set (x # y # zs) then None else next_of m h)"
      unfolding m'(4) by (auto simp: next_of_set [OF i] fun_eq_iff)
    ultimately show ?case using same_tree_trans [OF t m'(2)] m'(3) by blast
  qed
  then show ?thesis using that by blast
qed

text \<open>A path of blocks of a fork along \<^verbatim>\<open>pPrev\<close>.\<close>

fun downward :: "block_index \<Rightarrow> uint256 list \<Rightarrow> bool" where
  "downward m [] \<longleftrightarrow> True"
| "downward m [x] \<longleftrightarrow> om_get m x \<noteq> None"
| "downward m (x # y # zs) \<longleftrightarrow> (\<exists>i. om_get m x = Some i \<and> \<not> idx_IsOrigin i \<and> idx_pPrev i = Some y) \<and> downward m (y # zs)"

lemma downward_cong: "downward m xs \<Longrightarrow> same_tree m m' \<Longrightarrow> downward m' xs"
proof (induction m xs rule: downward.induct)
  case (2 m x)
  then show ?case by (auto elim: same_tree_get)
next
  case (3 m x y zs)
  then obtain i where i: "om_get m x = Some i" "\<not> idx_IsOrigin i" "idx_pPrev i = Some y" by auto
  obtain n where "om_get m' x = Some (i\<lparr>idx_pNext := n\<rparr>)" by (rule same_tree_get [OF 3(3) i(1)])
  with 3 i show ?case by auto
qed simp

text \<open>The pairs of a block and its predecessor in a list from the last block downwards.\<close>

definition successors :: "uint256 list \<Rightarrow> uint256 \<Rightarrow> uint256 option" where
  "successors hs = map_of (zip (tl hs) hs)"

lemma successors_Cons2: "y \<notin> set zs \<Longrightarrow> successors (x # y # zs) = (successors (y # zs))(y \<mapsto> x)"
  by (auto simp: successors_def fun_eq_iff)

lemma successors_notin: "h \<notin> set (tl hs) \<Longrightarrow> successors hs h = None"
  by (auto simp: successors_def map_of_eq_None_iff dest: set_zip_leftD)

definition stops_at :: "block_index \<Rightarrow> uint256 \<Rightarrow> uint256 set \<Rightarrow> bool" where
  "stops_at m c X \<longleftrightarrow> (\<exists>i. om_get m c = Some i \<and> (idx_IsOrigin i \<or> (\<exists>d. idx_pPrev i = Some d \<and> next_of m d = Some c \<and> d \<notin> X)))"

lemma stops_at_cong:
  assumes "stops_at m c X" and "same_tree m m'" and "\<And>d. d \<notin> X \<Longrightarrow> next_of m' d = next_of m d"
  shows "stops_at m' c X"
proof -
  obtain i where i: "om_get m c = Some i" "idx_IsOrigin i \<or> (\<exists>d. idx_pPrev i = Some d \<and> next_of m d = Some c \<and> d \<notin> X)"
    using assms(1) by (auto simp: stops_at_def)
  obtain n where "om_get m' c = Some (i\<lparr>idx_pNext := n\<rparr>)" by (rule same_tree_get [OF assms(2) i(1)])
  with i(2) assms(3) show ?thesis by (auto simp: stops_at_def)
qed

lemma stops_at_link: "stops_at m c X \<Longrightarrow> link_next c m = Some m"
  by (auto simp: stops_at_def link_next.simps)

lemma link_next_step:
  assumes "om_get m n = Some i" and "\<not> idx_IsOrigin i" and "idx_pPrev i = Some q" and "next_of m q \<noteq> Some n"
    and "clear_next (next_of m q) m = Some m'"
  shows "link_next n m = link_next q (set_next q (Some n) m')"
  by (subst link_next.simps) (simp add: assms)

lemma link_next_last:
  assumes down: "downward m [n, c]" and up: "upward m (c # ys)" and dist: "distinct (n # c # ys)"
    and stop: "stops_at m c (set (n # c # ys))" and wf: "om_wf m"
  obtains m' where "link_next n m = Some m'" "same_tree m m'" "next_of m' = (\<lambda>h. if h \<in> set ys then None else if h = c then Some n else next_of m h)"
proof -
  obtain i j where i: "om_get m n = Some i" "\<not> idx_IsOrigin i" "idx_pPrev i = Some c" and j: "om_get m c = Some j" using down by auto
  obtain m1 where m1: "clear_next (next_of m c) m = Some m1" "same_tree m m1" "om_wf m1"
    "next_of m1 = (\<lambda>h. if h \<in> set (c # ys) then None else next_of m h)"
    using clear_next_upward [OF up] dist wf by auto
  obtain x where c1: "om_get m1 c = Some (j\<lparr>idx_pNext := x\<rparr>)" by (rule same_tree_get [OF m1(2) j])
  let ?m = "set_next c (Some n) m1"
  have t: "same_tree m ?m" by (rule same_tree_trans [OF m1(2) set_next_tree [OF m1(3)]])
  have nx: "next_of ?m = (\<lambda>h. if h \<in> set ys then None else if h = c then Some n else next_of m h)"
    unfolding next_of_set [OF c1] m1(4) using dist by (auto simp: fun_eq_iff)
  have "next_of m c \<noteq> Some n" using up dist by (cases ys) auto
  then have "link_next n m = link_next c ?m" by (rule link_next_step [OF i _ m1(1)])
  also have "\<dots> = Some ?m" by (rule stops_at_link, rule stops_at_cong [OF stop t]) (use nx in auto)
  finally show ?thesis using t nx by (rule that)
qed

lemma link_next_path:
  assumes "downward m (n # qs @ [c])" and "\<forall>q \<in> set qs. next_of m q = None" and "upward m (c # ys)" and "distinct (n # qs @ c # ys)"
    and "stops_at m c (set (n # qs @ c # ys))" and "om_wf m"
  shows "\<exists>m'. link_next n m = Some m' \<and> same_tree m m'
    \<and> next_of m' = (\<lambda>h. if h \<in> set ys then None else if h \<in> set (qs @ [c]) then successors (n # qs @ [c]) h else next_of m h)"
  using assms
proof (induction qs arbitrary: n m)
  case Nil
  then obtain m' where "link_next n m = Some m'" "same_tree m m'" "next_of m' = (\<lambda>h. if h \<in> set ys then None else if h = c then Some n else next_of m h)"
    using link_next_last [of m n c ys] by auto
  then show ?case by (intro exI [of _ m']) (auto simp: successors_def fun_eq_iff)
next
  case (Cons q qs)
  let ?m = "set_next q (Some n) m"
  obtain i where i: "om_get m n = Some i" "\<not> idx_IsOrigin i" "idx_pPrev i = Some q" using Cons.prems(1) by auto
  obtain j where j: "om_get m q = Some j" using Cons.prems(1) by (cases qs) auto
  have t: "same_tree m ?m" by (rule set_next_tree [OF Cons.prems(6)])
  have nx: "next_of ?m = (next_of m)(q \<mapsto> n)" by (rule next_of_set [OF j])
  have "link_next n m = link_next q ?m"
    by (rule link_next_step [OF i]) (use Cons.prems(2) in \<open>auto simp: clear_next.simps\<close>)
  moreover have "\<exists>m'. link_next q ?m = Some m' \<and> same_tree ?m m'
    \<and> next_of m' = (\<lambda>h. if h \<in> set ys then None else if h \<in> set (qs @ [c]) then successors (q # qs @ [c]) h else next_of ?m h)"
  proof (rule Cons.IH)
    show "downward ?m (q # qs @ [c])" using downward_cong [OF _ t] Cons.prems(1) by simp
    show "\<forall>p \<in> set qs. next_of ?m p = None" using Cons.prems(2,4) nx by auto
    show "upward ?m (c # ys)" by (rule upward_cong [OF Cons.prems(3) t]) (use Cons.prems(4) nx in auto)
    have "stops_at ?m c (set (n # (q # qs) @ c # ys))" by (rule stops_at_cong [OF Cons.prems(5) t]) (use nx in auto)
    then show "stops_at ?m c (set (q # qs @ c # ys))" by (auto simp: stops_at_def)
    show "om_wf ?m" using t by (simp add: same_tree_def)
  qed (use Cons.prems(4) in simp)
  ultimately obtain m' where m': "link_next n m = Some m'" "same_tree ?m m'"
    "next_of m' = (\<lambda>h. if h \<in> set ys then None else if h \<in> set (qs @ [c]) then successors (q # qs @ [c]) h else next_of ?m h)" by auto
  have "successors (n # q # qs @ [c]) = (successors (q # qs @ [c]))(q \<mapsto> n)" by (rule successors_Cons2) (use Cons.prems(4) in auto)
  then have "next_of m' = (\<lambda>h. if h \<in> set ys then None else if h \<in> set ((q # qs) @ [c]) then successors (n # (q # qs) @ [c]) h else next_of m h)"
    unfolding m'(3) nx using Cons.prems(4) by (auto simp: fun_eq_iff)
  then show ?case using m'(1) same_tree_trans [OF t m'(2)] by blast
qed

section \<open>The main chain\<close>

fun upto_origin :: "CBlockIndex list \<Rightarrow> CBlockIndex list" where
  "upto_origin [] = []"
| "upto_origin (i # is) = (if idx_IsOrigin i then [i] else i # upto_origin is)"

text \<open>The hashes of the blocks of a fork from a block down to the origin.\<close>

definition main_chain :: "block_index \<Rightarrow> uint256 \<Rightarrow> uint256 list" where
  "main_chain m h = map idx_hash (upto_origin (chain_of m h))"

lemma fork_induct [consumes 2, case_names origin step]:
  assumes wf: "tree_wf m" and h: "om_get m h = Some i"
    and origin: "\<And>h i. om_get m h = Some i \<Longrightarrow> idx_IsOrigin i \<Longrightarrow> idx_pOrigin i = h \<Longrightarrow> P h i"
    and step: "\<And>h i p j. om_get m h = Some i \<Longrightarrow> \<not> idx_IsOrigin i \<Longrightarrow> idx_pPrev i = Some p \<Longrightarrow> om_get m p = Some j \<Longrightarrow>
      idx_pOrigin i = idx_pOrigin j \<Longrightarrow> P p j \<Longrightarrow> P h i"
  shows "P h i"
proof -
  obtain xs where "is_chain m h xs" using tree_wfD(3) [OF wf h] by blast
  then show ?thesis using h
  proof (induction xs arbitrary: h i)
    case (Cons x xs)
    show ?case
    proof (cases "idx_IsOrigin i")
      case True
      show ?thesis by (rule origin [OF Cons.prems(2) True tree_wfD(4) [OF wf Cons.prems(2) True]])
    next
      case False
      obtain p j where p: "idx_pPrev i = Some p" "om_get m p = Some j" "idx_pOrigin i = idx_pOrigin j"
        using tree_wfD(5) [OF wf Cons.prems(2) False] by blast
      have "is_chain m p xs" using Cons.prems p(1) by simp
      then show ?thesis by (rule step [OF Cons.prems(2) False p Cons.IH [OF _ p(2)]])
    qed
  qed simp
qed

lemma chain_of_step:
  assumes wf: "tree_wf m" and h: "om_get m h = Some i"
  shows "chain_of m h = i # (case idx_pPrev i of Some p \<Rightarrow> chain_of m p | None \<Rightarrow> [])"
proof -
  have c: "is_chain m h (chain_of m h)" by (rule chain_of_is_chain [OF wf h])
  then obtain xs where xs: "chain_of m h = i # xs" using h by (cases "chain_of m h") auto
  show ?thesis
  proof (cases "idx_pPrev i")
    case None
    then show ?thesis using c xs by simp
  next
    case (Some p)
    then have "is_chain m p xs" using c xs by simp
    from chain_of_eq [OF wf this] show ?thesis using xs Some by simp
  qed
qed

lemma main_chain_origin:
  assumes wf: "tree_wf m" and h: "om_get m h = Some i" and "idx_IsOrigin i"
  shows "main_chain m h = [h]"
  unfolding main_chain_def chain_of_step [OF wf h] using assms(3) tree_wfD(2) [OF wf h] by simp

lemma main_chain_step:
  assumes wf: "tree_wf m" and h: "om_get m h = Some i" and "\<not> idx_IsOrigin i" and "idx_pPrev i = Some p"
  shows "main_chain m h = h # main_chain m p"
  unfolding main_chain_def chain_of_step [OF wf h] using assms(3,4) tree_wfD(2) [OF wf h] by simp

lemma main_chain_hd:
  assumes wf: "tree_wf m" and h: "om_get m h = Some i"
  shows "\<exists>hs. main_chain m h = h # hs"
proof (cases "idx_IsOrigin i")
  case True
  show ?thesis using main_chain_origin [OF wf h True] by simp
next
  case False
  obtain p where "idx_pPrev i = Some p" using tree_wfD(5) [OF wf h False] by blast
  then show ?thesis using main_chain_step [OF wf h False] by simp
qed

lemma main_chain_mem:
  assumes wf: "tree_wf m" and h: "om_get m h = Some i" and x: "x \<in> set (main_chain m h)"
  shows "\<exists>j. om_get m x = Some j \<and> idx_pOrigin j = idx_pOrigin i"
  using wf h x
proof (induction rule: fork_induct)
  case (origin h i)
  then show ?case using main_chain_origin [OF wf origin(1,2)] by simp
next
  case (step h i p j)
  then show ?case using main_chain_step [OF wf step(1-3)] by auto
qed

lemma main_chain_last:
  assumes wf: "tree_wf m" and h: "om_get m h = Some i"
  shows "idx_pOrigin i \<in> set (main_chain m h)"
  using wf h
proof (induction rule: fork_induct)
  case (origin h i)
  then show ?case using main_chain_origin [OF wf origin(1,2)] by simp
next
  case (step h i p j)
  then show ?case using main_chain_step [OF wf step(1-3)] by simp
qed

lemma main_chain_suffix:
  assumes wf: "tree_wf m" and h: "om_get m h = Some i" and split: "main_chain m h = xs @ c # ys"
  shows "main_chain m c = c # ys"
  using wf h split
proof (induction arbitrary: xs rule: fork_induct)
  case (origin h i)
  then show ?case using main_chain_origin [OF wf origin(1,2)] by (auto simp: Cons_eq_append_conv)
next
  case (step h i p j)
  note eq = main_chain_step [OF wf step(1-3)]
  show ?case
  proof (cases xs)
    case Nil
    then show ?thesis using eq step.prems by simp
  next
    case (Cons x xs')
    then show ?thesis using eq step.prems step.IH [of xs'] by simp
  qed
qed

lemma upto_origin_prefix: "\<exists>ys. xs = upto_origin xs @ ys"
  by (induction xs) auto

lemma main_chain_distinct:
  assumes wf: "tree_wf m" and "om_get m h = Some i"
  shows "distinct (main_chain m h)"
proof -
  obtain ys where "chain_of m h = upto_origin (chain_of m h) @ ys" using upto_origin_prefix by blast
  then have "map idx_hash (chain_of m h) = main_chain m h @ map idx_hash ys" unfolding main_chain_def by (metis map_append)
  moreover have "distinct (map idx_hash (chain_of m h))"
    by (rule is_chain_distinct [OF tree_wfD(2) [OF wf] chain_of_is_chain [OF assms]])
  ultimately show ?thesis by simp
qed

lemma main_chain_downward:
  assumes wf: "tree_wf m" and h: "om_get m h = Some i"
  shows "downward m (main_chain m h)"
  using wf h
proof (induction rule: fork_induct)
  case (origin h i)
  then show ?case using main_chain_origin [OF wf origin(1,2)] by simp
next
  case (step h i p j)
  obtain hs where hs: "main_chain m p = p # hs" using main_chain_hd [OF wf step(4)] by blast
  show ?case using main_chain_step [OF wf step(1-3)] step hs by simp
qed

text \<open>Two chains of a fork have a common part below the first block that they share.\<close>

lemma main_chains_join:
  assumes wf: "tree_wf m" and n: "om_get m N = Some n" and l: "om_get m L = Some l" and f: "idx_pOrigin n = idx_pOrigin l"
  obtains A B c D where "main_chain m N = A @ c # D" "main_chain m L = B @ c # D" "set A \<inter> set (main_chain m L) = {}"
proof -
  have "\<exists>x \<in> set (main_chain m N). x \<in> set (main_chain m L)"
    using main_chain_last [OF wf n] main_chain_last [OF wf l] f by auto
  then obtain A c D where A: "main_chain m N = A @ c # D" "c \<in> set (main_chain m L)" "\<forall>a \<in> set A. a \<notin> set (main_chain m L)"
    by (auto elim!: split_list_first_propE)
  then obtain B D' where B: "main_chain m L = B @ c # D'" by (meson split_list)
  have "D' = D" using main_chain_suffix [OF wf n A(1)] main_chain_suffix [OF wf l B] by simp
  then show ?thesis using that [of A c D B] A B by auto
qed

lemma same_tree_chain:
  assumes "same_tree m m'" and "is_chain m h xs"
  shows "\<exists>ys. is_chain m' h ys \<and> map (idx_pNext_update (\<lambda>_. None)) ys = map (idx_pNext_update (\<lambda>_. None)) xs"
  using assms(2)
proof (induction xs arbitrary: h)
  case (Cons i xs)
  then have i: "om_get m h = Some i" by simp
  obtain n where n: "om_get m' h = Some (i\<lparr>idx_pNext := n\<rparr>)" by (rule same_tree_get [OF assms(1) i])
  show ?case
  proof (cases "idx_pPrev i")
    case None
    then show ?thesis using Cons.prems n by (intro exI [of _ "[i\<lparr>idx_pNext := n\<rparr>]"]) simp
  next
    case (Some p)
    then obtain ys where "is_chain m' p ys" "map (idx_pNext_update (\<lambda>_. None)) ys = map (idx_pNext_update (\<lambda>_. None)) xs"
      using Cons by auto
    then show ?thesis using n Some by (intro exI [of _ "i\<lparr>idx_pNext := n\<rparr> # ys"]) simp
  qed
qed simp

lemma same_tree_sym: "om_wf m \<Longrightarrow> same_tree m m' \<Longrightarrow> same_tree m' m"
  by (simp add: same_tree_def)

lemma same_tree_wf:
  assumes wf: "tree_wf m" and t: "same_tree m m'"
  shows "tree_wf m'"
  unfolding tree_wf_def
proof (intro conjI allI impI)
  show "om_wf m'" using t by (simp add: same_tree_def)
  fix h i assume i: "om_get m' h = Some i"
  obtain n where n: "om_get m h = Some (i\<lparr>idx_pNext := n\<rparr>)" by (rule same_tree_get [OF same_tree_sym [OF tree_wfD(1) [OF wf] t] i])
  show "idx_hash i = h" using tree_wfD(2) [OF wf n] by simp
  show "\<exists>is. is_chain m' h is" using tree_wfD(3) [OF wf n] same_tree_chain [OF t] by blast
  show "if idx_IsOrigin i then idx_pOrigin i = h else \<exists>p j. idx_pPrev i = Some p \<and> om_get m' p = Some j \<and> idx_pOrigin i = idx_pOrigin j"
  proof (cases "idx_IsOrigin i")
    case False
    then obtain p j where p: "idx_pPrev i = Some p" "om_get m p = Some j" "idx_pOrigin i = idx_pOrigin j"
      using tree_wfD(5) [OF wf n] by auto
    obtain x where "om_get m' p = Some (j\<lparr>idx_pNext := x\<rparr>)" by (rule same_tree_get [OF t p(2)])
    with p False show ?thesis by simp
  qed (use tree_wfD(4) [OF wf n] in simp)
qed

lemma same_tree_main_chain:
  assumes wf: "tree_wf m" and t: "same_tree m m'" and h: "om_get m h = Some i"
  shows "main_chain m' h = main_chain m h"
  using wf h
proof (induction rule: fork_induct)
  case (origin h i)
  obtain n where "om_get m' h = Some (i\<lparr>idx_pNext := n\<rparr>)" by (rule same_tree_get [OF t origin(1)])
  then show ?case using main_chain_origin [OF wf origin(1,2)] main_chain_origin [OF same_tree_wf [OF wf t]] origin(2) by simp
next
  case (step h i p j)
  obtain n where "om_get m' h = Some (i\<lparr>idx_pNext := n\<rparr>)" by (rule same_tree_get [OF t step(1)])
  then show ?case using main_chain_step [OF wf step(1-3)] main_chain_step [OF same_tree_wf [OF wf t]] step by simp
qed

section \<open>The forward pointers of a fork\<close>

definition next_ok :: "block_index \<Rightarrow> uint256 \<Rightarrow> uint256 list \<Rightarrow> bool" where
  "next_ok m f hs \<longleftrightarrow> (\<forall>h i. om_get m h = Some i \<longrightarrow> idx_pOrigin i = f \<longrightarrow> idx_pNext i = successors hs h)"

lemma next_okD: "next_ok m f hs \<Longrightarrow> om_get m h = Some i \<Longrightarrow> idx_pOrigin i = f \<Longrightarrow> next_of m h = successors hs h"
  by (simp add: next_ok_def next_of_def)

lemma pairs_append: "zip (tl (xs @ c # D)) (xs @ c # D) = zip (tl (xs @ [c])) (xs @ [c]) @ zip D (c # D)"
proof (induction xs)
  case (Cons x xs)
  then show ?case by (cases xs) auto
qed simp

lemma successors_append: "successors (xs @ c # D) = successors (c # D) ++ successors (xs @ [c])"
  by (simp add: successors_def pairs_append [of xs c D])

lemma successors_below: "h \<notin> set (tl (xs @ [c])) \<Longrightarrow> successors (xs @ c # D) h = successors (c # D) h"
  unfolding successors_append [of xs c D] by (simp add: map_add_def successors_notin)

lemma successors_above: "h \<notin> set D \<Longrightarrow> successors (xs @ c # D) h = successors (xs @ [c]) h"
  unfolding successors_append [of xs c D] by (simp add: map_add_def successors_notin split: option.split)

lemma successors_mid: "distinct (xs @ b # c # D) \<Longrightarrow> successors (xs @ b # c # D) c = Some b"
  using successors_below [of c xs b "c # D"] by (cases xs) (auto simp: successors_def)

lemma successors_hd: "distinct (x # D) \<Longrightarrow> successors (x # D) x = None"
  by (simp add: successors_notin)

lemma downward_append: "downward m (xs @ ys) \<Longrightarrow> downward m ys"
  by (induction m xs rule: downward.induct) (auto, cases ys, auto)

lemma next_ok_upward:
  assumes "downward m (B @ c # D)" and "distinct (B @ c # D)" and "\<forall>h \<in> set (B @ c # D). next_of m h = successors (B @ c # D) h"
  shows "upward m (c # rev B)"
  using assms
proof (induction B arbitrary: c D rule: rev_induct)
  case Nil
  then show ?case by (cases D) (auto simp: successors_hd)
next
  case (snoc b B)
  have up: "upward m (b # rev B)" using snoc.IH [of b "c # D"] snoc.prems by simp
  have down: "downward m (b # c # D)" using downward_append [of m B "b # c # D"] snoc.prems(1) by simp
  have "next_of m c = Some b" using snoc.prems successors_mid [of B b c D] by simp
  moreover have "prev_of m b = Some c" using down by (auto simp: prev_of_def)
  moreover have "om_get m c \<noteq> None" using down by (cases D) auto
  ultimately show ?case using up by simp
qed

lemma downward_take: "downward m (xs @ c # D) \<Longrightarrow> downward m (xs @ [c])"
proof (induction m xs rule: downward.induct)
  case (1 m)
  then show ?case by (cases D) auto
next
  case (2 m x)
  then show ?case by (cases D) auto
qed auto

lemma main_chain_stops:
  assumes wf: "tree_wf m" and l: "om_get m L = Some l" and chain: "main_chain m L = B @ c # D"
    and ok: "next_ok m (idx_pOrigin l) (main_chain m L)" and X: "set D \<inter> X = {}"
  shows "stops_at m c X"
proof -
  note mem = main_chain_mem [OF wf l, unfolded chain]
  obtain i where i: "om_get m c = Some i" using mem [of c] by auto
  have down: "downward m (c # D)" using downward_append [of m B] main_chain_downward [OF wf l] chain by simp
  show ?thesis
  proof (cases "idx_IsOrigin i")
    case True
    then show ?thesis using i by (simp add: stops_at_def)
  next
    case False
    obtain p where p: "idx_pPrev i = Some p" using tree_wfD(5) [OF wf i False] by blast
    obtain d D' where D: "D = d # D'"
      using main_chain_suffix [OF wf l chain] main_chain_step [OF wf i False p] main_chain_hd wf tree_wfD(5) [OF wf i False] p by fastforce
    have "p = d" using down D i p by simp
    moreover have "next_of m d = Some c"
      using next_okD [OF ok] mem [of d] successors_mid [of B c d D'] main_chain_distinct [OF wf l] chain D by auto
    ultimately show ?thesis using i p X D by (auto simp: stops_at_def)
  qed
qed

text \<open>The pointers after the loops: those of the new chain on both chains, and as before elsewhere.\<close>

lemma relinked:
  assumes dA: "distinct (N # qs @ c # D)" and dB: "distinct (B @ c # D)" and disj: "set (N # qs) \<inter> set (B @ c # D) = {}"
    and nx: "h \<in> set D \<Longrightarrow> g h = successors (B @ c # D) h" and N: "g N = None"
  shows "(if h \<in> set B then None else if h \<in> set (qs @ [c]) then successors (N # qs @ [c]) h else g h) =
    (if h \<in> set (N # qs @ c # D) \<union> set (B @ c # D) then successors (N # qs @ c # D) h else g h)"
proof -
  consider "h \<in> set B" | "h \<in> set (qs @ [c])" | "h = N" | "h \<in> set D" | "h \<notin> set (N # qs @ c # D) \<union> set (B @ c # D)" by auto
  then show ?thesis
  proof cases
    case 1
    then have "h \<notin> set (N # qs @ c # D)" using dB disj by auto
    then show ?thesis using 1 successors_notin [of h "N # qs @ c # D"] by simp
  next
    case 2
    then have "h \<notin> set B" "h \<notin> set D" using dA dB disj by auto
    then show ?thesis using 2 successors_above [of h D "N # qs" c] by auto
  next
    case 3
    have "h \<notin> set B" "h \<notin> set (qs @ [c])" using 3 dA disj by auto
    then show ?thesis using 3 N dA successors_hd [of N "qs @ c # D"] by simp
  next
    case 4
    then have "h \<notin> set (qs @ [c])" "h \<notin> set (tl (B @ [c]))" "h \<notin> set B" using dA dB by (cases B; auto)+
    then show ?thesis using 4 nx successors_below [of h "N # qs" c D] successors_below [of h B c D] by simp
  qed simp
qed

text \<open>A last block that is not on the old main chain.\<close>

lemma UpdateNext_new:
  assumes wf: "tree_wf m" and n: "om_get m N = Some n" and l: "om_get m L = Some l" and f: "idx_pOrigin n = idx_pOrigin l"
    and ok: "next_ok m (idx_pOrigin l) (main_chain m L)" and new: "N \<notin> set (main_chain m L)"
  obtains m' where "UpdateNext N m = Some m'" "same_tree m m'"
    "\<And>h. next_of m' h = (if h \<in> set (main_chain m N) \<union> set (main_chain m L) then successors (main_chain m N) h else next_of m h)"
proof -
  obtain A B c D where j: "main_chain m N = A @ c # D" "main_chain m L = B @ c # D" "set A \<inter> set (main_chain m L) = {}"
    by (rule main_chains_join [OF wf n l f])
  obtain qs where A: "A = N # qs" using main_chain_hd [OF wf n] j new by (cases A) auto
  have dist: "distinct (A @ c # D)" "distinct (B @ c # D)"
    using main_chain_distinct [OF wf n] main_chain_distinct [OF wf l] j by simp_all
  have memN: "\<exists>i. om_get m h = Some i \<and> idx_pOrigin i = idx_pOrigin l" if "h \<in> set (A @ c # D)" for h
    using main_chain_mem [OF wf n, of h] that f j(1) by simp
  have memL: "\<exists>i. om_get m h = Some i \<and> idx_pOrigin i = idx_pOrigin l" if "h \<in> set (B @ c # D)" for h
    using main_chain_mem [OF wf l, of h] that j(2) by simp
  have nx: "next_of m h = successors (B @ c # D) h" if "h \<in> set (A @ c # D) \<union> set (B @ c # D)" for h
    using memN [of h] memL [of h] that next_okD [OF ok, of h] j(2) by auto
  have free: "next_of m h = None" if "h \<in> set A" for h
    using nx [of h] that j(2,3) successors_notin [of h "B @ c # D"] by (cases B) auto
  let ?m = "set_next N None m"
  have t: "same_tree m ?m" by (rule set_next_tree [OF tree_wfD(1) [OF wf]])
  have nx0: "next_of ?m = next_of m" unfolding next_of_set [OF n] using free [of N] A by (simp add: fun_eq_iff)
  have "downward m (A @ [c])" using downward_take main_chain_downward [OF wf n] j(1) by metis
  then have 1: "downward ?m (N # qs @ [c])" using downward_cong [OF _ t] A by simp
  have "upward m (c # rev B)" by (rule next_ok_upward [of m B c D]) (use main_chain_downward [OF wf l] j(2) dist(2) nx in auto)
  then have 2: "upward ?m (c # rev B)" by (rule upward_cong [OF _ t]) (simp add: nx0)
  have X: "set D \<inter> set (N # qs @ c # rev B) = {}" using dist j(3) A by auto
  have 3: "stops_at ?m c (set (N # qs @ c # rev B))"
    by (rule stops_at_cong [OF main_chain_stops [OF wf l j(2) ok X] t]) (simp add: nx0)
  have 4: "distinct (N # qs @ c # rev B)" using dist j(2,3) A by auto
  have 5: "\<forall>q \<in> set qs. next_of ?m q = None" using free A nx0 by simp
  obtain m' where m': "UpdateNext N m = Some m'" "same_tree ?m m'"
    "next_of m' = (\<lambda>h. if h \<in> set (rev B) then None else if h \<in> set (qs @ [c]) then successors (N # qs @ [c]) h else next_of ?m h)"
    using link_next_path [OF 1 5 2 4 3] t unfolding UpdateNext_def same_tree_def by blast
  have "next_of m' h = (if h \<in> set (A @ c # D) \<union> set (B @ c # D) then successors (A @ c # D) h else next_of m h)" for h
  proof -
    have "distinct (N # qs @ c # D)" using dist(1) A by simp
    moreover have "set (N # qs) \<inter> set (B @ c # D) = {}" using j(2,3) A by simp
    moreover have "h \<in> set D \<Longrightarrow> next_of m h = successors (B @ c # D) h" using nx [of h] by simp
    moreover have "next_of m N = None" using free [of N] A by simp
    ultimately have "(if h \<in> set B then None else if h \<in> set (qs @ [c]) then successors (N # qs @ [c]) h else next_of m h) =
        (if h \<in> set (N # qs @ c # D) \<union> set (B @ c # D) then successors (N # qs @ c # D) h else next_of m h)"
      by (rule relinked [OF _ dist(2)])
    then show ?thesis unfolding m'(3) nx0 A set_rev append_Cons .
  qed
  then show ?thesis using that [OF m'(1) same_tree_trans [OF t m'(2)]] j by simp
qed

lemma UpdateNext_same:
  assumes wf: "tree_wf m" and l: "om_get m L = Some l" and ok: "next_ok m (idx_pOrigin l) (main_chain m L)"
  obtains m' where "UpdateNext L m = Some m'" "same_tree m m'" "next_of m' = next_of m"
proof -
  obtain D where D: "main_chain m L = L # D" using main_chain_hd [OF wf l] by blast
  have dist: "distinct (L # D)" using main_chain_distinct [OF wf l] D by simp
  let ?m = "set_next L None m"
  have t: "same_tree m ?m" by (rule set_next_tree [OF tree_wfD(1) [OF wf]])
  have "next_of m L = None" using next_okD [OF ok l refl] D successors_hd [OF dist] by simp
  then have nx: "next_of ?m = next_of m" unfolding next_of_set [OF l] by (simp add: fun_eq_iff)
  have "stops_at m L {}" by (rule main_chain_stops [OF wf l _ ok, of "[]" L D]) (simp_all add: D)
  then have "stops_at ?m L {}" by (rule stops_at_cong [OF _ t]) (simp add: nx)
  then have "UpdateNext L m = Some ?m" unfolding UpdateNext_def by (rule stops_at_link)
  then show ?thesis using t nx by (rule that)
qed

lemma same_tree_next_ok:
  assumes wf: "tree_wf m" and t: "same_tree m m'"
    and nx: "\<And>h i. om_get m h = Some i \<Longrightarrow> idx_pOrigin i = f \<Longrightarrow> next_of m' h = successors hs h"
  shows "next_ok m' f hs"
  unfolding next_ok_def
proof (intro allI impI)
  fix h i assume i: "om_get m' h = Some i" "idx_pOrigin i = f"
  obtain n where "om_get m h = Some (i\<lparr>idx_pNext := n\<rparr>)" by (rule same_tree_get [OF same_tree_sym [OF tree_wfD(1) [OF wf] t] i(1)])
  then have "next_of m' h = successors hs h" using nx i(2) by simp
  then show "idx_pNext i = successors hs h" using i(1) by (simp add: next_of_def)
qed

lemma next_ok_other:
  assumes wf: "tree_wf m" and t: "same_tree m m'" and ok: "next_ok m g hs"
    and nx: "\<And>h i. om_get m h = Some i \<Longrightarrow> idx_pOrigin i = g \<Longrightarrow> next_of m' h = next_of m h"
  shows "next_ok m' g hs"
  by (rule same_tree_next_ok [OF wf t]) (use nx next_okD [OF ok] in auto)

lemma UpdateNext_main_chain:
  assumes wf: "tree_wf m" and n: "om_get m N = Some n" and l: "om_get m L = Some l" and f: "idx_pOrigin n = idx_pOrigin l"
    and ok: "next_ok m (idx_pOrigin l) (main_chain m L)" and new: "N \<notin> set (main_chain m L) \<or> N = L"
  obtains m' where "UpdateNext N m = Some m'" "same_tree m m'" "next_ok m' (idx_pOrigin l) (main_chain m N)"
    "\<forall>g hs. g \<noteq> idx_pOrigin l \<longrightarrow> next_ok m g hs \<longrightarrow> next_ok m' g hs"
proof (cases "N = L")
  case True
  obtain m' where m': "UpdateNext L m = Some m'" "same_tree m m'" "next_of m' = next_of m" by (rule UpdateNext_same [OF wf l ok])
  show ?thesis
  proof (rule that)
    show "UpdateNext N m = Some m'" "same_tree m m'" using m' True by simp_all
    show "next_ok m' (idx_pOrigin l) (main_chain m N)" using next_ok_other [OF wf m'(2) ok] m'(3) True by simp
    show "\<forall>g hs. g \<noteq> idx_pOrigin l \<longrightarrow> next_ok m g hs \<longrightarrow> next_ok m' g hs" using next_ok_other [OF wf m'(2)] m'(3) by simp
  qed
next
  case False
  obtain m' where m': "UpdateNext N m = Some m'" "same_tree m m'"
    "\<And>h. next_of m' h = (if h \<in> set (main_chain m N) \<union> set (main_chain m L) then successors (main_chain m N) h else next_of m h)"
    using UpdateNext_new [OF wf n l f ok] new False by blast
  have fork: "idx_pOrigin i = idx_pOrigin l" if "om_get m h = Some i" "h \<in> set (main_chain m N) \<union> set (main_chain m L)" for h i
    using main_chain_mem [OF wf n, of h] main_chain_mem [OF wf l, of h] that f by auto
  have elsewhere: "next_of m h = None \<and> successors (main_chain m N) h = None"
    if "om_get m h = Some i" "idx_pOrigin i = idx_pOrigin l" "h \<notin> set (main_chain m N) \<union> set (main_chain m L)" for h i
    using next_okD [OF ok that(1,2)] that(3) successors_notin by (metis Un_iff list.set_sel(2) tl_Nil)
  show ?thesis
  proof (rule that)
    show "UpdateNext N m = Some m'" "same_tree m m'" using m' by simp_all
    show "next_ok m' (idx_pOrigin l) (main_chain m N)"
      by (rule same_tree_next_ok [OF wf m'(2)]) (use m'(3) elsewhere in auto)
    have "next_ok m' g hs" if "g \<noteq> idx_pOrigin l" "next_ok m g hs" for g hs
      by (rule next_ok_other [OF wf m'(2) that(2)]) (use m'(3) fork that(1) in auto)
    then show "\<forall>g hs. g \<noteq> idx_pOrigin l \<longrightarrow> next_ok m g hs \<longrightarrow> next_ok m' g hs" by blast
  qed
qed

section \<open>A new block\<close>

lemma is_chain_mono:
  "is_chain m h xs \<Longrightarrow> (\<And>h i. om_get m h = Some i \<Longrightarrow> om_get m' h = Some i) \<Longrightarrow> is_chain m' h xs"
proof (induction xs arbitrary: h)
  case (Cons x xs)
  then show ?case by (cases "idx_pPrev x") auto
qed simp

lemma index_entry_simps [simp]:
  "idx_hash (index_entry b m i) = idx_hash i" "idx_pNext (index_entry b m i) = idx_pNext i" "idx_nType (index_entry b m i) = idx_nType i"
  "idx_nTimeStamp (index_entry b m i) = idx_nTimeStamp i" "idx_nFile (index_entry b m i) = idx_nFile i" "idx_nOffset (index_entry b m i) = idx_nOffset i"
  by (simp_all add: index_entry_def split: option.split)

lemma idx_of_block_simps [simp]:
  "idx_hash (idx_of_block env hash b nFile nOffset) = hash" "idx_pNext (idx_of_block env hash b nFile nOffset) = None"
  "idx_pPrev (idx_of_block env hash b nFile nOffset) = None" "idx_pOrigin (idx_of_block env hash b nFile nOffset) = hash"
  "idx_nType (idx_of_block env hash b nFile nOffset) = blk_nType b" "idx_nTimeStamp (idx_of_block env hash b nFile nOffset) = blk_nTimeStamp b"
  "idx_nFile (idx_of_block env hash b nFile nOffset) = nFile" "idx_nOffset (idx_of_block env hash b nFile nOffset) = nOffset"
  by (simp_all add: idx_of_block_def Let_def)

lemma AddNewIndex_new:
  assumes hash: "om_get m hash = None" and prev: "blk_hashPrev b \<noteq> hash" and new: "AddNewIndex env hash b nFile nOffset m = (i, m')"
  shows "om_get m' = (om_get m)(hash \<mapsto> i)" "idx_hash i = hash" "idx_pNext i = None" "idx_nType i = blk_nType b"
    "idx_nTimeStamp i = blk_nTimeStamp b" "idx_nFile i = nFile" "idx_nOffset i = nOffset"
    "idx_pPrev i = (if om_get m (blk_hashPrev b) = None then None else Some (blk_hashPrev b))"
    "idx_pOrigin i = (case om_get m (blk_hashPrev b) of Some j \<Rightarrow> if type_IsOrigin (blk_nType b) then hash else idx_pOrigin j | None \<Rightarrow> hash)"
    "idx_nChainTrust i = GetBlockTrust b + (case om_get m (blk_hashPrev b) of Some j \<Rightarrow> idx_nChainTrust j | None \<Rightarrow> 0)"
    "idx_nMoneySupply i = GetBlockMint b + (case om_get m (blk_hashPrev b) of Some j \<Rightarrow> idx_nMoneySupply j | None \<Rightarrow> 0)"
proof -
  have i: "i = index_entry b (om_ins hash (idx_of_block env hash b nFile nOffset) m) (idx_of_block env hash b nFile nOffset)"
    and m': "m' = om_ins hash i m" using new by (auto simp: AddNewIndex_def Let_def)
  have prev': "om_get (om_ins hash (idx_of_block env hash b nFile nOffset) m) (blk_hashPrev b) = om_get m (blk_hashPrev b)"
    using prev by (simp add: om_get_ins)
  show "om_get m' = (om_get m)(hash \<mapsto> i)" using hash m' by (simp add: om_get_ins om_has_def fun_eq_iff)
  show "idx_hash i = hash" "idx_pNext i = None" "idx_nType i = blk_nType b"
    "idx_nTimeStamp i = blk_nTimeStamp b" "idx_nFile i = nFile" "idx_nOffset i = nOffset" by (simp_all add: i)
  show "idx_pPrev i = (if om_get m (blk_hashPrev b) = None then None else Some (blk_hashPrev b))"
    "idx_pOrigin i = (case om_get m (blk_hashPrev b) of Some j \<Rightarrow> if type_IsOrigin (blk_nType b) then hash else idx_pOrigin j | None \<Rightarrow> hash)"
    "idx_nChainTrust i = GetBlockTrust b + (case om_get m (blk_hashPrev b) of Some j \<Rightarrow> idx_nChainTrust j | None \<Rightarrow> 0)"
    "idx_nMoneySupply i = GetBlockMint b + (case om_get m (blk_hashPrev b) of Some j \<Rightarrow> idx_nMoneySupply j | None \<Rightarrow> 0)"
    unfolding i index_entry_def prev' by (simp_all add: idx_of_block_def Let_def split: option.split)
qed

text \<open>A block on a known block, or an origin, keeps the index a tree; the chains of the other blocks do not change.\<close>

lemma AddNewIndex_tree:
  assumes wf: "tree_wf m" and hash: "om_get m hash = None" and new: "AddNewIndex env hash b nFile nOffset m = (i, m')"
    and prev: "om_get m (blk_hashPrev b) \<noteq> None"
  shows "tree_wf m'" "chain_of m' hash = i # chain_of m (blk_hashPrev b)" "om_get m h = Some j \<Longrightarrow> chain_of m' h = chain_of m h"
proof -
  have ne: "blk_hashPrev b \<noteq> hash" using hash prev by auto
  note i = AddNewIndex_new [OF hash ne new]
  have mono: "om_get m h = Some j \<Longrightarrow> om_get m' h = Some j" for h j using i(1) hash by (cases "h = hash") auto
  obtain p where p: "om_get m (blk_hashPrev b) = Some p" using prev by blast
  have old: "is_chain m' h (chain_of m h)" if "om_get m h = Some j" for h j
    by (rule is_chain_mono [OF chain_of_is_chain [OF wf that] mono])
  have here: "is_chain m' hash (i # chain_of m (blk_hashPrev b))" using i(1,8) old [OF p] p by simp
  show wf': "tree_wf m'"
    unfolding tree_wf_def
  proof (intro conjI allI impI)
    show "om_wf m'" using tree_wfD(1) [OF wf] new by (auto simp: AddNewIndex_def Let_def)
    fix h j assume j: "om_get m' h = Some j"
    show "idx_hash j = h" using j i(1,2) tree_wfD(2) [OF wf] by (auto split: if_splits)
    show "\<exists>is. is_chain m' h is"
    proof (cases "h = hash")
      case True
      then show ?thesis using here by blast
    next
      case False
      then show ?thesis using j i(1) old by auto
    qed
    show "if idx_IsOrigin j then idx_pOrigin j = h
        else \<exists>p k. idx_pPrev j = Some p \<and> om_get m' p = Some k \<and> idx_pOrigin j = idx_pOrigin k"
    proof (cases "h = hash")
      case True
      then show ?thesis using j i(1,4,8,9) p ne by auto
    next
      case False
      then have j': "om_get m h = Some j" using j i(1) by simp
      show ?thesis using tree_wfD(4,5) [OF wf j'] mono by (cases "idx_IsOrigin j") (simp, fastforce)
    qed
  qed
  show "chain_of m' hash = i # chain_of m (blk_hashPrev b)" by (rule chain_of_eq [OF wf' here])
  show "chain_of m' h = chain_of m h" if "om_get m h = Some j" by (rule chain_of_eq [OF wf' old [OF that]])
qed

section \<open>Where two chains part\<close>

declare GetBranch.simps [simp del]

definition meets :: "CBlockIndex list \<Rightarrow> CBlockIndex list \<Rightarrow> bool" where
  "meets rs is \<longleftrightarrow> rs \<noteq> [] \<and> is \<noteq> [] \<and> last rs = last is \<and> (\<forall>x \<in> set (butlast rs) \<union> set (butlast is). idx_time (last is) < idx_time x)"

lemma meets_sym: "meets rs is \<longleftrightarrow> meets is rs"
  by (auto simp: meets_def)

lemma meets_step: "meets (r # rs) is \<Longrightarrow> rs \<noteq> [] \<Longrightarrow> meets rs is"
  by (auto simp: meets_def)

lemma meets_least: "meets [r] (i # is) \<Longrightarrow> idx_time i \<le> idx_time r \<Longrightarrow> i = r"
  by (cases "is") (auto simp: meets_def)

lemma GetBranch_found:
  "meets rs is \<Longrightarrow>
     \<exists>d xs ys. GetBranch rs is vPath = Some (Some d, vPath @ xs) \<and> is = xs @ d # ys \<and> idx_hash d \<in> idx_hash ` set rs"
proof (induction rs "is" vPath rule: GetBranch.induct)
  case (4 r rs i "is" vPath)
  note eq = GetBranch.simps(4) [of r rs i "is" vPath]
  show ?case
  proof (cases "idx_hash i = idx_hash r")
    case True
    then show ?thesis using eq by (intro exI [of _ i] exI [of _ "[]"] exI [of _ "is"]) simp
  next
    case ne: False
    have sym: "meets (i # is) (r # rs)" by (rule iffD1 [OF meets_sym "4.prems"])
    have nrs: "rs \<noteq> []" if le: "idx_time i \<le> idx_time r"
    proof
      assume "rs = []"
      then have "i = r" using "4.prems" le by (intro meets_least [of r i "is"]) simp_all
      then show False using ne by simp
    qed
    have nis: "is \<noteq> []" if le: "idx_time r \<le> idx_time i"
    proof
      assume "is = []"
      then have "r = i" using sym le by (intro meets_least [of i r rs]) simp_all
      then show False using ne by simp
    qed
    consider (ref) "idx_time r > idx_time i" | (idx) "\<not> idx_time r > idx_time i" "idx_time i > idx_time r"
      | (both) "\<not> idx_time r > idx_time i" "\<not> idx_time i > idx_time r" by linarith
    then show ?thesis
    proof cases
      case ref
      have "meets rs (i # is)" by (rule meets_step [OF "4.prems" nrs]) (use ref in simp)
      from "4.IH"(1) [OF ne ref this] obtain d xs ys where d: "GetBranch rs (i # is) vPath = Some (Some d, vPath @ xs)" "i # is = xs @ d # ys"
        "idx_hash d \<in> idx_hash ` set rs" by blast
      show ?thesis unfolding eq using ne ref d by (intro exI [of _ d] exI [of _ xs] exI [of _ ys]) simp
    next
      case idx
      have "meets (r # rs) is" by (rule iffD1 [OF meets_sym meets_step [OF sym nis]]) (use idx in simp)
      from "4.IH"(2) [OF ne idx this] obtain d xs ys where
        d: "GetBranch (r # rs) is (vPath @ [i]) = Some (Some d, (vPath @ [i]) @ xs)" "is = xs @ d # ys" "idx_hash d \<in> idx_hash ` set (r # rs)" by blast
      show ?thesis unfolding eq using ne idx d by (intro exI [of _ d] exI [of _ "i # xs"] exI [of _ ys]) simp
    next
      case both
      have "meets (i # is) rs" by (rule iffD1 [OF meets_sym meets_step [OF "4.prems" nrs]]) (use both in simp)
      then have "meets rs is" by (rule iffD1 [OF meets_sym meets_step [OF _ nis]]) (use both in simp)
      from "4.IH"(3) [OF ne both this] obtain d xs ys where
        d: "GetBranch rs is (vPath @ [i]) = Some (Some d, (vPath @ [i]) @ xs)" "is = xs @ d # ys" "idx_hash d \<in> idx_hash ` set rs" by blast
      show ?thesis unfolding eq using ne both d by (intro exI [of _ d] exI [of _ "i # xs"] exI [of _ ys]) simp
    qed
  qed
qed (simp_all add: meets_def)

lemma GetBranch_chains:
  assumes wf: "tree_wf m" and a: "om_get m a = Some x" and b: "om_get m b = Some y" and meets: "meets (chain_of m a) (chain_of m b)"
  obtains d as bs ds where "GetBranch (chain_of m a) (chain_of m b) [] = Some (Some d, bs)" "chain_of m a = as @ d # ds" "chain_of m b = bs @ d # ds"
proof -
  obtain d bs ds where d: "GetBranch (chain_of m a) (chain_of m b) [] = Some (Some d, bs)" "chain_of m b = bs @ d # ds"
    "idx_hash d \<in> idx_hash ` set (chain_of m a)"
    using GetBranch_found [OF meets, of "[]"] by auto
  obtain e as es where e: "chain_of m a = as @ e # es" "idx_hash e = idx_hash d" using d(3) by (auto simp: in_set_conv_decomp)
  have "is_chain m (idx_hash d) (d # ds)" by (rule is_chain_suffix [OF _ tree_wfD(2) [OF wf]]) (use chain_of_is_chain [OF wf b] d(2) in simp)
  moreover have "is_chain m (idx_hash e) (e # es)" by (rule is_chain_suffix [OF _ tree_wfD(2) [OF wf]]) (use chain_of_is_chain [OF wf a] e(1) in simp)
  ultimately have "e # es = d # ds" using is_chain_unique e(2) by metis
  then show ?thesis using that d e by blast
qed

section \<open>The inventory of a fork\<close>

lemma inv_loop_upward:
  "upward m (h # hs) \<Longrightarrow> inv_loop k m (next_of m h) v = (if length hs \<le> k then (None, v @ hs) else (Some (hs ! k), v @ take k hs))"
proof (induction hs arbitrary: h k v)
  case (Cons x hs)
  then show ?case by (cases k) auto
qed simp

lemma find_located_skip:
  "\<forall>x \<in> set ls. \<forall>i. om_get m x = Some i \<longrightarrow> idx_hash i \<noteq> L \<and> idx_pNext i = None \<Longrightarrow>
     find_located m f L (ls @ h # rest) p = find_located m f L (h # rest) (if ls = [] then p else om_get m (last ls))"
proof (induction ls arbitrary: p)
  case (Cons x ls)
  then show ?case by (cases "om_get m x") (auto simp: GetIndex_def)
qed simp

lemma GetForkBlockInv_main:
  assumes wf: "tree_wf m" and fork: "om_get fk f = Some F" and l: "om_get m (bf_pIndexLast F) = Some l" and f: "idx_pOrigin l = f"
    and ok: "next_ok m f (main_chain m (bf_pIndexLast F))" and chain: "rev (main_chain m (bf_pIndexLast F)) = older @ h # newer"
    and skip: "\<forall>x \<in> set ls. \<forall>i. om_get m x = Some i \<longrightarrow> idx_hash i \<noteq> bf_pIndexLast F \<and> idx_pNext i = None"
  shows "GetForkBlockInv m fk f (ls @ h # rest) [] n =
    Some (if length newer \<le> unat (n - 1) then newer
          else take (unat (n - 1)) newer @ (if length newer = Suc (unat (n - 1)) then [] else [bf_pIndexLast F]))"
proof -
  let ?L = "bf_pIndexLast F" and ?k = "unat (n - 1)"
  have hs: "main_chain m ?L = rev newer @ h # rev older" using chain by (metis rev.simps(2) rev_append rev_rev_ident append.assoc append_Cons append_Nil)
  have mem: "\<exists>i. om_get m x = Some i \<and> idx_pOrigin i = f" if "x \<in> set (main_chain m ?L)" for x
    using main_chain_mem [OF wf l that] f by simp
  obtain i where i: "om_get m h = Some i" "idx_pOrigin i = f" using mem [of h] hs by auto
  have up: "upward m (h # newer)"
    using next_ok_upward [of m "rev newer" h "rev older"] main_chain_downward [OF wf l] main_chain_distinct [OF wf l] next_okD [OF ok] mem hs by fastforce
  have last: "newer \<noteq> [] \<Longrightarrow> last newer = ?L" using main_chain_hd [OF wf l] hs by (cases newer rule: rev_cases) auto
  have "newer = [] \<Longrightarrow> h = ?L" using main_chain_hd [OF wf l] hs by auto
  then have "idx_hash i = ?L \<or> idx_pNext i \<noteq> None" using up i tree_wfD(2) [OF wf i(1)] by (cases newer) (auto simp: next_of_def)
  then have "find_located m f ?L (h # rest) p = Inr (Some i)" for p using i by (simp add: GetIndex_def)
  then have found: "find_located m f ?L (ls @ h # rest) None = Inr (Some i)" by (simp add: find_located_skip [OF skip])
  have "idx_pNext i = next_of m h" using i by (simp add: next_of_def)
  then have inv: "inv_loop ?k m (idx_pNext i) [] = (if length newer \<le> ?k then (None, newer) else (Some (newer ! ?k), take ?k newer))"
    using inv_loop_upward [OF up, of ?k "[]"] by simp
  have "newer ! ?k = ?L \<longleftrightarrow> length newer = Suc ?k" if "\<not> length newer \<le> ?k"
  proof -
    have "distinct newer" using main_chain_distinct [OF wf l] hs by simp
    moreover have "newer ! (length newer - 1) = ?L" using last that last_conv_nth [of newer] by (cases "newer = []") auto
    ultimately show ?thesis using that nth_eq_iff_index_eq [of newer ?k "length newer - 1"] by (cases newer) auto
  qed
  then show ?thesis unfolding GetForkBlockInv_def fork by (simp add: found inv Let_def)
qed

section \<open>Properties\<close>

text \<open>Property C8: \<^verbatim>\<open>UpdateNext\<close> returns, and keeps the index a tree whose forward pointers describe the main chains.
  When the pointers of a fork described the chain of its old last block, they describe the chain of the new one
  afterwards, and every block of the fork off this chain has none; the pointers of the other forks stay as they were.
  The new block is not one that the old last block was built on.\<close>

theorem forward_pointers_follow_main_chain:
  assumes "tree_wf m" and "om_get m N = Some n" and "om_get m L = Some l" and "idx_pOrigin n = idx_pOrigin l"
    and "next_ok m (idx_pOrigin l) (main_chain m L)" and "N \<notin> set (main_chain m L) \<or> N = L"
  shows "\<exists>m'. UpdateNext N m = Some m' \<and> tree_wf m' \<and> main_chain m' N = main_chain m N
    \<and> next_ok m' (idx_pOrigin n) (main_chain m' N) \<and> (\<forall>g hs. g \<noteq> idx_pOrigin n \<longrightarrow> next_ok m g hs \<longrightarrow> next_ok m' g hs)"
proof -
  obtain m' where m': "UpdateNext N m = Some m'" "same_tree m m'" "next_ok m' (idx_pOrigin l) (main_chain m N)"
    "\<forall>g hs. g \<noteq> idx_pOrigin l \<longrightarrow> next_ok m g hs \<longrightarrow> next_ok m' g hs"
    by (rule UpdateNext_main_chain [OF assms])
  have "main_chain m' N = main_chain m N" by (rule same_tree_main_chain [OF assms(1) m'(2) assms(2)])
  then show ?thesis using m' same_tree_wf [OF assms(1) m'(2)] assms(4) by auto
qed

text \<open>Five blocks: 1 is the first one, 3 the last block of the main chain 1, 2, 3, and 4 and 5 are a branch from 2.\<close>

definition ex_entry :: "uint256 \<Rightarrow> uint16 \<Rightarrow> uint256 option \<Rightarrow> uint256 option \<Rightarrow> uint32 \<Rightarrow> CBlockIndex" where
  "ex_entry h t p n time = (idx_new h)\<lparr>idx_pOrigin := 1, idx_nType := t, idx_pPrev := p, idx_pNext := n, idx_nTimeStamp := time\<rparr>"

definition ex_tree :: block_index where
  "ex_tree = [(1, ex_entry 1 BLOCK_GENESIS None (Some 2) 100), (2, ex_entry 2 BLOCK_PRIMARY (Some 1) (Some 3) 160),
     (3, ex_entry 3 BLOCK_PRIMARY (Some 2) None 220), (4, ex_entry 4 BLOCK_PRIMARY (Some 2) None 220),
     (5, ex_entry 5 BLOCK_PRIMARY (Some 4) None 280)]"

definition ex_forks :: fork_map where
  "ex_forks = [(1, \<lparr>bf_forkProfile = prof_null, bf_pIndexLast = 3, bf_pIndexOrigin = 1\<rparr>)]"

lemma ex_entry_simps [simp]:
  "idx_hash (ex_entry h t p n time) = h" "idx_pOrigin (ex_entry h t p n time) = 1" "idx_nType (ex_entry h t p n time) = t"
  "idx_pPrev (ex_entry h t p n time) = p" "idx_pNext (ex_entry h t p n time) = n" "idx_nTimeStamp (ex_entry h t p n time) = time"
  by (simp_all add: ex_entry_def idx_new_def)

lemma ex_types [simp]: "type_IsOrigin BLOCK_GENESIS" "\<not> type_IsOrigin BLOCK_PRIMARY"
  by (simp_all add: type_IsOrigin_def)

lemma ex_tree_get:
  "om_get ex_tree h = Some i \<Longrightarrow> h \<in> {1, 2, 3, 4, 5}"
  by (auto simp: ex_tree_def split: if_splits)

lemma ex_tree_simps [simp]:
  "om_get ex_tree 1 = Some (ex_entry 1 BLOCK_GENESIS None (Some 2) 100)" "om_get ex_tree 2 = Some (ex_entry 2 BLOCK_PRIMARY (Some 1) (Some 3) 160)"
  "om_get ex_tree 3 = Some (ex_entry 3 BLOCK_PRIMARY (Some 2) None 220)" "om_get ex_tree 4 = Some (ex_entry 4 BLOCK_PRIMARY (Some 2) None 220)"
  "om_get ex_tree 5 = Some (ex_entry 5 BLOCK_PRIMARY (Some 4) None 280)"
  by (simp_all add: ex_tree_def)

lemma ex_chains:
  "is_chain ex_tree 1 (map (\<lambda>h. the (om_get ex_tree h)) [1])" "is_chain ex_tree 2 (map (\<lambda>h. the (om_get ex_tree h)) [2, 1])"
  "is_chain ex_tree 3 (map (\<lambda>h. the (om_get ex_tree h)) [3, 2, 1])" "is_chain ex_tree 4 (map (\<lambda>h. the (om_get ex_tree h)) [4, 2, 1])"
  "is_chain ex_tree 5 (map (\<lambda>h. the (om_get ex_tree h)) [5, 4, 2, 1])"
  by simp_all

lemma ex_tree_wf: "tree_wf ex_tree"
  unfolding tree_wf_def
proof (intro conjI allI impI)
  show "om_wf ex_tree" by (simp add: ex_tree_def om_wf_def)
  fix h i assume i: "om_get ex_tree h = Some i"
  note h = ex_tree_get [OF i]
  show "idx_hash i = h" using h i by auto
  show "\<exists>is. is_chain ex_tree h is" using h ex_chains by blast
  show "if idx_IsOrigin i then idx_pOrigin i = h
      else \<exists>p j. idx_pPrev i = Some p \<and> om_get ex_tree p = Some j \<and> idx_pOrigin i = idx_pOrigin j"
    using h i by auto
qed

lemmas ex_chain_of = ex_chains [THEN chain_of_eq [OF ex_tree_wf]]

lemma ex_main_chain: "main_chain ex_tree 3 = [3, 2, 1]" "main_chain ex_tree 5 = [5, 4, 2, 1]"
  by (simp_all add: main_chain_def ex_chain_of)

lemma ex_next_ok: "next_ok ex_tree 1 [3, 2, 1]"
  unfolding next_ok_def
proof (intro allI impI)
  fix h i assume i: "om_get ex_tree h = Some i"
  show "idx_pNext i = successors [3, 2, 1] h" using ex_tree_get [OF i] i by (auto simp: successors_def)
qed

theorem forward_pointers_follow_main_chain_witness:
  "\<exists>m'. UpdateNext 5 ex_tree = Some m' \<and> next_ok m' 1 [5, 4, 2, 1]"
  using forward_pointers_follow_main_chain [OF ex_tree_wf ex_tree_simps(5) ex_tree_simps(3)] ex_next_ok by (auto simp: ex_main_chain)

text \<open>Property C9: for two blocks over the same first block, whose time stamp is smaller than that of the other blocks of the
  two chains, \<^verbatim>\<open>GetBranch\<close> returns a block that both chains contain, and the path holds the blocks of the second chain
  above it, the newest first.  Below this block the two chains are the same.\<close>

theorem branch_of_two_chains:
  assumes "tree_wf m" and "om_get m a = Some x" and "om_get m b = Some y" and "last (chain_of m a) = last (chain_of m b)"
    and "\<forall>i \<in> set (butlast (chain_of m a)) \<union> set (butlast (chain_of m b)). idx_time (last (chain_of m b)) < idx_time i"
  shows "\<exists>d as bs ds. GetBranch (chain_of m a) (chain_of m b) [] = Some (Some d, bs)
    \<and> chain_of m a = as @ d # ds \<and> chain_of m b = bs @ d # ds"
proof -
  have "meets (chain_of m a) (chain_of m b)"
    unfolding meets_def using chain_of_step [OF assms(1,2)] chain_of_step [OF assms(1,3)] assms(4,5) by simp
  from GetBranch_chains [OF assms(1-3) this] show ?thesis by metis
qed

theorem branch_of_two_chains_witness:
  "\<exists>d as bs ds. GetBranch (chain_of ex_tree 3) (chain_of ex_tree 5) [] = Some (Some d, bs)
    \<and> chain_of ex_tree 3 = as @ d # ds \<and> chain_of ex_tree 5 = bs @ d # ds"
  by (rule branch_of_two_chains [OF ex_tree_wf ex_tree_simps(3,5)]) (simp_all add: ex_chain_of)

text \<open>Property C31: the inventory of a fork for a locator is the part of its main chain after the first block of the
  locator that is on the chain, up to one block less than the limit.  When more blocks follow, the last block of the
  fork is added, except when it is the next one.\<close>

theorem fork_inventory:
  assumes "tree_wf m" and "om_get fk f = Some F" and "om_get m (bf_pIndexLast F) = Some l" and "idx_pOrigin l = f"
    and "next_ok m f (main_chain m (bf_pIndexLast F))" and "rev (main_chain m (bf_pIndexLast F)) = older @ h # newer"
    and "\<forall>x \<in> set ls. \<forall>i. om_get m x = Some i \<longrightarrow> idx_hash i \<noteq> bf_pIndexLast F \<and> idx_pNext i = None"
  shows "GetForkBlockInv m fk f (ls @ h # rest) [] n =
    Some (if length newer \<le> unat (n - 1) then newer
          else take (unat (n - 1)) newer @ (if length newer = Suc (unat (n - 1)) then [] else [bf_pIndexLast F]))"
  by (rule GetForkBlockInv_main [OF assms])

theorem fork_inventory_witness: "GetForkBlockInv ex_tree ex_forks 1 [5, 4, 1] [] 10 = Some [2, 3]"
  using fork_inventory [OF ex_tree_wf, of ex_forks 1 "\<lparr>bf_forkProfile = prof_null, bf_pIndexLast = 3, bf_pIndexOrigin = 1\<rparr>" _ "[]" 1 "[2, 3]" "[5, 4]" "[]" 10]
    ex_next_ok by (simp add: ex_forks_def ex_main_chain)

text \<open>Property C39: when the locator of a peer names only blocks of a branch off the main chain, the answer is an empty
  inventory, although the chain from the origin of the fork would be due.\<close>

theorem side_branch_gets_no_inventory:
  assumes "om_get fk f = Some F" and "om_get m h = Some i"
    and "\<forall>x \<in> set (ls @ [h]). \<forall>i. om_get m x = Some i \<longrightarrow> idx_hash i \<noteq> bf_pIndexLast F \<and> idx_pNext i = None"
  shows "GetForkBlockInv m fk f (ls @ [h]) [] n = Some []"
proof -
  have "find_located m f (bf_pIndexLast F) (ls @ [h]) None = Inr (Some i)"
    using find_located_skip [of ls m "bf_pIndexLast F" f h "[]" None] assms(2,3) by (simp add: GetIndex_def)
  then show ?thesis using assms by (simp add: GetForkBlockInv_def Let_def)
qed

theorem side_branch_gets_no_inventory_witness: "GetForkBlockInv ex_tree ex_forks 1 [5, 4] [] 10 = Some []"
  using side_branch_gets_no_inventory [of ex_forks 1 "\<lparr>bf_forkProfile = prof_null, bf_pIndexLast = 3, bf_pIndexOrigin = 1\<rparr>" ex_tree 4 _ "[5]" 10]
  by (simp add: ex_forks_def)

end
