(* ===== verification/Circular.thy ===== *)
theory Circular
  imports Serialize
begin

text \<open>
  The ring buffer \<^verbatim>\<open>circularbuf\<close> (\<^verbatim>\<open>walleve/stream/circular.h\<close>, \<^verbatim>\<open>circular.cpp\<close>) and the stream over it,
  \<^verbatim>\<open>CWalleveCircularStream\<close> (\<^verbatim>\<open>stream.h\<close>).  The get and put pointers of the stream buffer are indices into the byte vector; the
  sizes are computed as in the source, by a subtraction of 64-bit numbers under the size mask, so that wrapping around the end of
  the vector and a put pointer one past it are part of the model.

  The lemmas show that the buffer is a queue of bytes: a byte written is appended to the bytes held, \<^verbatim>\<open>consume\<close> removes bytes at the
  front, and reading from a position returns the bytes from there on.  The locale \<open>byte_ring\<close> is that contract, and the
  stream's lemmas rest on its interpretation.
\<close>

section \<open>The buffer\<close>

record circularbuf =
  cb_buf_size :: nat
  cb_size_mask :: uint64
  cb_begin :: nat
  cb_buffer :: bytes
  gptr :: nat
  egptr :: nat
  pptr :: nat
  epptr :: nat

definition cb_MIN_SIZE :: uint64 where "cb_MIN_SIZE = 8"

text \<open>The loop of the constructor; a maximum above \<open>2 ^ 63\<close> shifts the size to zero and never ends.\<close>

partial_function (option) cb_grow :: "uint64 \<Rightarrow> uint64 \<Rightarrow> uint64 option" where
  "cb_grow maximum_size n = (if n < maximum_size then cb_grow maximum_size (push_bit 1 n) else Some n)"

definition circularbuf_new :: "uint64 \<Rightarrow> circularbuf option" where
  "circularbuf_new maximum_size = do {
     n \<leftarrow> cb_grow maximum_size cb_MIN_SIZE;
     Some \<lparr>cb_buf_size = unat n, cb_size_mask = n - 1, cb_begin = 0, cb_buffer = replicate (unat n) 0,
       gptr = 0, egptr = 0, pptr = 0, epptr = unat n - 1\<rparr> }"

text \<open>A \<^verbatim>\<open>size_t\<close> under the mask.\<close>

definition cb_mask :: "circularbuf \<Rightarrow> uint64 \<Rightarrow> nat" where
  "cb_mask cb x = unat (bit_and x (cb_size_mask cb))"

definition cb_size :: "circularbuf \<Rightarrow> nat" where
  "cb_size cb = cb_mask cb (word_of_nat (pptr cb) - word_of_nat (cb_begin cb))"

definition freespace :: "circularbuf \<Rightarrow> nat" where
  "freespace cb = cb_buf_size cb - cb_size cb - 1"

definition putpos :: "circularbuf \<Rightarrow> nat" where
  "putpos cb = cb_mask cb (word_of_nat (pptr cb))"

definition getpos :: "circularbuf \<Rightarrow> nat" where
  "getpos cb = cb_mask cb (word_of_nat (gptr cb))"

definition setg :: "nat \<Rightarrow> nat \<Rightarrow> circularbuf \<Rightarrow> circularbuf" where
  "setg g e cb = cb\<lparr>gptr := g, egptr := e\<rparr>"

definition setp :: "nat \<Rightarrow> nat \<Rightarrow> circularbuf \<Rightarrow> circularbuf" where
  "setp p e cb = cb\<lparr>pptr := p, epptr := e\<rparr>"

definition consume :: "nat \<Rightarrow> circularbuf \<Rightarrow> circularbuf" where
  "consume n cb =
     (let ppos = putpos cb; gpos = getpos cb;
          b = (if n \<ge> cb_size cb then ppos else cb_mask cb (word_of_nat (cb_begin cb) + word_of_nat n));
          cb1 = cb\<lparr>cb_begin := b\<rparr>
      in if ppos \<ge> b \<and> (gpos < b \<or> gpos > ppos) \<or> ppos < b \<and> gpos < b \<and> gpos > ppos
         then setg b (if b \<le> ppos then ppos else cb_buf_size cb) cb1
         else cb1)"

text \<open>\<^const>\<open>None\<close> is the end-of-file value of the stream buffer's virtual functions.\<close>

definition underflow :: "circularbuf \<Rightarrow> uint8 option \<times> circularbuf" where
  "underflow cb =
     (let ppos = putpos cb; gpos = getpos cb
      in if gpos < ppos then (Some (cb_buffer cb ! gpos), setg gpos ppos cb)
         else if gpos > ppos then (Some (cb_buffer cb ! gpos), setg gpos (cb_buf_size cb) cb)
         else (None, cb))"

definition overflow :: "uint8 option \<Rightarrow> circularbuf \<Rightarrow> bool \<times> circularbuf" where
  "overflow c cb =
     (let ppos = putpos cb; pend = cb_mask cb (word_of_nat (cb_begin cb) - 1)
      in if ppos = pend then (False, cb)
         else case c of
           None \<Rightarrow> (True, cb)
         | Some c \<Rightarrow>
             (let cb1 = (if ppos > pend then setp ppos (cb_buf_size cb) cb else setp ppos pend cb)
              in (True, cb1\<lparr>cb_buffer := (cb_buffer cb1)[pptr cb1 := c], pptr := pptr cb1 + 1\<rparr>)))"

definition seekpos :: "nat \<Rightarrow> circularbuf \<Rightarrow> nat option \<times> circularbuf" where
  "seekpos pos cb =
     (let ppos = putpos cb; gpos = cb_mask cb (word_of_nat pos)
      in if ppos \<ge> cb_begin cb \<and> gpos \<ge> cb_begin cb \<and> gpos \<le> ppos \<or> ppos < cb_begin cb \<and> (gpos \<ge> cb_begin cb \<or> gpos \<le> ppos)
         then (Some gpos, setg gpos (if gpos \<le> ppos then ppos else cb_buf_size cb) cb)
         else (None, cb))"

datatype seekdir = ios_beg | ios_cur | ios_end

definition seekoff :: "int \<Rightarrow> seekdir \<Rightarrow> circularbuf \<Rightarrow> nat option \<times> circularbuf" where
  "seekoff off way cb =
     seekpos (cb_mask cb (word_of_nat (case way of ios_beg \<Rightarrow> cb_begin cb | ios_cur \<Rightarrow> gptr cb | ios_end \<Rightarrow> pptr cb) + word_of_int off)) cb"

definition showmanyc :: "circularbuf \<Rightarrow> nat" where
  "showmanyc cb = cb_mask cb (word_of_nat (pptr cb) - word_of_nat (gptr cb))"

text \<open>What \<^verbatim>\<open>std::streambuf\<close> makes of the virtual functions: \<^verbatim>\<open>sputc\<close> and \<^verbatim>\<open>sbumpc\<close> use the put and get areas and call
  \<^verbatim>\<open>overflow\<close> and \<^verbatim>\<open>underflow\<close> at their ends; \<^verbatim>\<open>sputn\<close> and \<^verbatim>\<open>sgetn\<close> repeat them until end-of-file.\<close>

definition sputc :: "uint8 \<Rightarrow> circularbuf \<Rightarrow> bool \<times> circularbuf" where
  "sputc c cb =
     (if pptr cb < epptr cb then (True, cb\<lparr>cb_buffer := (cb_buffer cb)[pptr cb := c], pptr := pptr cb + 1\<rparr>)
      else overflow (Some c) cb)"

definition sbumpc :: "circularbuf \<Rightarrow> uint8 option \<times> circularbuf" where
  "sbumpc cb =
     (if gptr cb < egptr cb then (Some (cb_buffer cb ! gptr cb), cb\<lparr>gptr := gptr cb + 1\<rparr>)
      else case underflow cb of (None, cb1) \<Rightarrow> (None, cb1) | (Some c, cb1) \<Rightarrow> (Some c, cb1\<lparr>gptr := gptr cb1 + 1\<rparr>))"

fun sputn :: "bytes \<Rightarrow> circularbuf \<Rightarrow> nat \<times> circularbuf" where
  "sputn [] cb = (0, cb)"
| "sputn (c # cs) cb =
     (case sputc c cb of (False, cb1) \<Rightarrow> (0, cb1) | (True, cb1) \<Rightarrow> (case sputn cs cb1 of (n, cb2) \<Rightarrow> (Suc n, cb2)))"

fun sgetn :: "nat \<Rightarrow> circularbuf \<Rightarrow> bytes \<times> circularbuf" where
  "sgetn 0 cb = ([], cb)"
| "sgetn (Suc n) cb =
     (case sbumpc cb of (None, cb1) \<Rightarrow> ([], cb1) | (Some c, cb1) \<Rightarrow> (case sgetn n cb1 of (cs, cb2) \<Rightarrow> (c # cs, cb2)))"

section \<open>The stream\<close>

record CWalleveCircularStream =
  cs_buf :: circularbuf
  cs_good :: bool

definition CWalleveCircularStream_new :: "uint64 \<Rightarrow> CWalleveCircularStream option" where
  "CWalleveCircularStream_new nMaxSize = do { cb \<leftarrow> circularbuf_new nMaxSize; Some \<lparr>cs_buf = cb, cs_good = True\<rparr> }"

definition cs_Clear :: "CWalleveCircularStream \<Rightarrow> CWalleveCircularStream" where
  "cs_Clear s = \<lparr>cs_buf = consume (cb_size (cs_buf s)) (cs_buf s), cs_good = True\<rparr>"

definition cs_GetSize :: "CWalleveCircularStream \<Rightarrow> nat" where "cs_GetSize s = cb_size (cs_buf s)"

definition GetBufFreeSpace :: "CWalleveCircularStream \<Rightarrow> nat" where "GetBufFreeSpace s = freespace (cs_buf s)"

definition GetWritePos :: "CWalleveCircularStream \<Rightarrow> nat" where "GetWritePos s = putpos (cs_buf s)"

text \<open>\<^verbatim>\<open>Seek\<close> compares the position returned with zero after converting it to a signed offset, so that the failure value is negative.\<close>

definition cs_Seek :: "nat \<Rightarrow> CWalleveCircularStream \<Rightarrow> bool \<times> CWalleveCircularStream" where
  "cs_Seek nPos s = (case seekpos nPos (cs_buf s) of (r, cb) \<Rightarrow> (r \<noteq> None, \<lparr>cs_buf = cb, cs_good = True\<rparr>))"

definition cs_Rewind :: "CWalleveCircularStream \<Rightarrow> CWalleveCircularStream" where
  "cs_Rewind s = \<lparr>cs_buf = snd (seekoff 0 ios_beg (cs_buf s)), cs_good = True\<rparr>"

definition cs_Consume :: "nat \<Rightarrow> CWalleveCircularStream \<Rightarrow> CWalleveCircularStream" where
  "cs_Consume nSize s = s\<lparr>cs_buf := consume nSize (cs_buf s)\<rparr>"

text \<open>Writing the bytes of a value.  A stream that is not good writes nothing, and one that runs out of space stops being good;
  no exception is raised, because no class of the program enables the exceptions of its stream.\<close>

definition cs_Write :: "bytes \<Rightarrow> CWalleveCircularStream \<Rightarrow> CWalleveCircularStream" where
  "cs_Write bs s =
     (if \<not> cs_good s then s
      else case sputn bs (cs_buf s) of (n, cb) \<Rightarrow> \<lparr>cs_buf = cb, cs_good = (n = length bs)\<rparr>)"

text \<open>Reading a value with its loader: it consumes the bytes the loader consumes, or all of them when they do not suffice.\<close>

definition cs_Load :: "'a loader \<Rightarrow> CWalleveCircularStream \<Rightarrow> 'a option \<times> CWalleveCircularStream" where
  "cs_Load ld s =
     (if \<not> cs_good s then (None, s)
      else case sgetn (showmanyc (cs_buf s)) (cs_buf s) of (bs, cb) \<Rightarrow>
        (case ld bs of
           None \<Rightarrow> (None, \<lparr>cs_buf = cb, cs_good = False\<rparr>)
         | Some (x, r) \<Rightarrow> (Some x, \<lparr>cs_buf = snd (sgetn (length bs - length r) (cs_buf s)), cs_good = True\<rparr>)))"

section \<open>Arithmetic under the mask\<close>

text \<open>The number of steps from \<open>y\<close> up to \<open>x\<close> on a ring of \<open>n\<close> places, for pointers that may be one past the end.\<close>

definition ring_dist :: "nat \<Rightarrow> nat \<Rightarrow> nat \<Rightarrow> nat" where
  "ring_dist n x y = (if y \<le> x then (if x - y = n then 0 else x - y) else x + n - y)"

definition ring_slice :: "bytes \<Rightarrow> nat \<Rightarrow> nat \<Rightarrow> nat \<Rightarrow> bytes" where
  "ring_slice buf n start len = map (\<lambda>i. buf ! ((start + i) mod n)) [0..<len]"

definition cb_shape :: "circularbuf \<Rightarrow> bool" where
  "cb_shape cb \<longleftrightarrow> (\<exists>k. k \<le> 63 \<and> 1 \<le> k \<and> cb_buf_size cb = 2 ^ k) \<and> cb_size_mask cb = word_of_nat (cb_buf_size cb) - 1 \<and>
     length (cb_buffer cb) = cb_buf_size cb"

lemma cb_mask_mod:
  assumes "cb_shape cb"
  shows "cb_mask cb x = unat x mod cb_buf_size cb"
proof -
  from assms obtain k where k: "k \<le> 63" "cb_buf_size cb = 2 ^ k" and m: "cb_size_mask cb = word_of_nat (2 ^ k) - 1"
    unfolding cb_shape_def by auto
  have "cb_size_mask cb = mask k" by (simp add: m mask_eq_exp_minus_1)
  then have "bit_and x (cb_size_mask cb) = take_bit k x" by (simp add: take_bit_eq_mask)
  then have "cb_mask cb x = take_bit k (unat x)" by (simp add: cb_mask_def unsigned_take_bit_eq)
  then show ?thesis by (simp add: k take_bit_eq_mod)
qed

lemma cb_size_dvd:
  assumes "cb_shape cb"
  shows "cb_buf_size cb dvd 2 ^ 64"
proof -
  from assms obtain k where "k \<le> 63" "cb_buf_size cb = 2 ^ k" unfolding cb_shape_def by auto
  then show ?thesis using le_imp_power_dvd [of k 64 "2::nat"] by simp
qed

lemma cb_mask_nat:
  assumes "cb_shape cb"
  shows "cb_mask cb (word_of_nat x) = x mod cb_buf_size cb"
proof -
  have "unat (word_of_nat x :: uint64) = x mod 2 ^ 64" by (simp add: unat_of_nat)
  then show ?thesis using mod_mod_cancel [OF cb_size_dvd [OF assms]] by (simp only: cb_mask_mod [OF assms])
qed

lemma cb_mask_add: "cb_shape cb \<Longrightarrow> cb_mask cb (word_of_nat x + word_of_nat y) = (x + y) mod cb_buf_size cb"
  using cb_mask_nat [of cb "x + y"] by simp

lemma ring_dist_mod:
  assumes "x \<le> n" "y \<le> n" "0 < n"
  shows "(x + n - y) mod n = ring_dist n x y"
proof (cases "y \<le> x")
  case True
  then have "(x + n - y) mod n = (x - y) mod n" using mod_add_self2 [of "x - y" n] by simp
  then show ?thesis using True assms by (cases "x - y = n") (simp_all add: ring_dist_def)
qed (use assms in \<open>simp add: ring_dist_def\<close>)

lemma cb_mask_sub:
  assumes sh: "cb_shape cb" and xy: "x \<le> cb_buf_size cb" "y \<le> cb_buf_size cb"
  shows "cb_mask cb (word_of_nat x - word_of_nat y) = ring_dist (cb_buf_size cb) x y"
proof -
  let ?n = "cb_buf_size cb"
  have n: "0 < ?n" using sh unfolding cb_shape_def by auto
  have u: "uint (word_of_int z :: uint64) = z mod 2 ^ 64" for z by (simp add: uint_word_of_int)
  have "int (cb_mask cb (word_of_nat x - word_of_nat y)) = uint (word_of_int (int x - int y) :: uint64) mod int ?n"
    using sh by (simp add: cb_mask_mod of_nat_mod)
  also have "\<dots> = ((int x - int y) mod 2 ^ 64) mod int ?n" by (simp only: u)
  also have "\<dots> = (int x - int y) mod int ?n"
  proof (rule mod_mod_cancel)
    have "int ?n dvd int (2 ^ 64)" using cb_size_dvd [OF sh] by (simp only: of_nat_dvd_iff)
    then show "int ?n dvd 2 ^ 64" by simp
  qed
  also have "\<dots> = (int x - int y + int ?n) mod int ?n" by simp
  also have "\<dots> = (int (x + ?n - y)) mod int ?n" using xy by (simp add: algebra_simps)
  also have "\<dots> = int ((x + ?n - y) mod ?n)" by (simp add: of_nat_mod)
  also have "\<dots> = int (ring_dist ?n x y)" using xy n by (simp add: ring_dist_mod)
  finally show ?thesis by simp
qed

section \<open>The buffer is a queue of bytes\<close>

definition cb_held :: "circularbuf \<Rightarrow> bytes" where
  "cb_held cb = ring_slice (cb_buffer cb) (cb_buf_size cb) (cb_begin cb) (cb_size cb)"

definition cb_pending :: "circularbuf \<Rightarrow> bytes" where
  "cb_pending cb = ring_slice (cb_buffer cb) (cb_buf_size cb) (gptr cb) (showmanyc cb)"

definition cb_wf :: "circularbuf \<Rightarrow> bool" where
  "cb_wf cb \<longleftrightarrow> cb_shape cb \<and> cb_begin cb < cb_buf_size cb \<and>
     pptr cb \<le> epptr cb \<and> epptr cb \<le> cb_buf_size cb \<and> epptr cb - pptr cb \<le> freespace cb \<and>
     gptr cb \<le> egptr cb \<and> egptr cb \<le> cb_buf_size cb \<and> egptr cb - gptr cb \<le> showmanyc cb \<and> showmanyc cb \<le> cb_size cb"

lemma cb_measures:
  assumes sh: "cb_shape cb" and b: "cb_begin cb < cb_buf_size cb" and p: "pptr cb \<le> cb_buf_size cb" and g: "gptr cb \<le> cb_buf_size cb"
  shows "cb_size cb = ring_dist (cb_buf_size cb) (pptr cb) (cb_begin cb)"
    and "showmanyc cb = ring_dist (cb_buf_size cb) (pptr cb) (gptr cb)"
    and "putpos cb = pptr cb mod cb_buf_size cb" and "getpos cb = gptr cb mod cb_buf_size cb"
proof -
  show "cb_size cb = ring_dist (cb_buf_size cb) (pptr cb) (cb_begin cb)"
    unfolding cb_size_def by (rule cb_mask_sub [OF sh p less_imp_le [OF b]])
  show "showmanyc cb = ring_dist (cb_buf_size cb) (pptr cb) (gptr cb)"
    unfolding showmanyc_def by (rule cb_mask_sub [OF sh p g])
  show "putpos cb = pptr cb mod cb_buf_size cb" "getpos cb = gptr cb mod cb_buf_size cb"
    unfolding putpos_def getpos_def by (rule cb_mask_nat [OF sh])+
qed

lemma ring_mod_less:
  assumes "(s + i) mod n = (s + j) mod n" "i < j"
  shows "n \<le> j - (i::nat)"
proof (rule dvd_imp_le)
  have "n dvd (s + j) - (s + i)" using assms by (intro mod_eq_dvd_iff_nat [THEN iffD1]) simp_all
  then show "n dvd j - i" by simp
qed (use assms in simp)

lemma ring_slice_snoc:
  assumes "q = (s + len) mod n" "len < n" "length buf = n"
  shows "ring_slice (buf[q := c]) n s (Suc len) = ring_slice buf n s len @ [c]"
proof -
  have "(s + i) mod n \<noteq> q" if "i < len" for i
    using ring_mod_less [of s i n len] assms(1,2) that by auto
  then have "buf[q := c] ! ((s + i) mod n) = buf ! ((s + i) mod n)" if "i < len" for i
    using that by (metis nth_list_update_neq)
  moreover have "q < length buf" using assms by auto
  ultimately show ?thesis using assms(1) by (simp add: ring_slice_def)
qed

lemma ring_slice_drop: "k \<le> len \<Longrightarrow> drop k (ring_slice buf n s len) = ring_slice buf n (s + k) (len - k)"
  by (rule nth_equalityI) (auto simp: ring_slice_def add.assoc)

lemma ring_slice_mod: "ring_slice buf n (s mod n) len = ring_slice buf n s len"
  by (simp add: ring_slice_def mod_add_left_eq)

lemma length_ring_slice [simp]: "length (ring_slice buf n s len) = len"
  by (simp add: ring_slice_def)

lemma cb_wfD:
  assumes "cb_wf cb"
  shows "cb_shape cb" "cb_begin cb < cb_buf_size cb" "pptr cb \<le> cb_buf_size cb" "gptr cb \<le> cb_buf_size cb"
    "2 \<le> cb_buf_size cb" "pptr cb \<le> epptr cb" "epptr cb \<le> cb_buf_size cb" "gptr cb \<le> egptr cb" "egptr cb \<le> cb_buf_size cb"
    "cb_size cb < cb_buf_size cb" "length (cb_buffer cb) = cb_buf_size cb"
proof -
  show sh: "cb_shape cb" and b: "cb_begin cb < cb_buf_size cb" and p: "pptr cb \<le> cb_buf_size cb" and g: "gptr cb \<le> cb_buf_size cb"
    and "pptr cb \<le> epptr cb" "epptr cb \<le> cb_buf_size cb" "gptr cb \<le> egptr cb" "egptr cb \<le> cb_buf_size cb"
    using assms by (auto simp: cb_wf_def)
  show "cb_size cb < cb_buf_size cb"
    using b p by (auto simp: cb_measures(1) [OF sh b p g] ring_dist_def)
  show "length (cb_buffer cb) = cb_buf_size cb" using sh by (simp add: cb_shape_def)
  show "2 \<le> cb_buf_size cb"
    using sh power_increasing [of 1 _ "2::nat"] unfolding cb_shape_def by auto
qed

lemma cb_wf_measures:
  assumes "cb_wf cb"
  shows "cb_size cb = ring_dist (cb_buf_size cb) (pptr cb) (cb_begin cb)"
    and "showmanyc cb = ring_dist (cb_buf_size cb) (pptr cb) (gptr cb)"
    and "putpos cb = pptr cb mod cb_buf_size cb" and "getpos cb = gptr cb mod cb_buf_size cb"
  by (fact cb_measures [OF cb_wfD(1-4) [OF assms]])+

lemma cb_wfI:
  assumes "cb_shape cb" "cb_begin cb < cb_buf_size cb" "pptr cb \<le> epptr cb" "epptr cb \<le> cb_buf_size cb"
    "gptr cb \<le> egptr cb" "egptr cb \<le> cb_buf_size cb"
    "epptr cb - pptr cb + ring_dist (cb_buf_size cb) (pptr cb) (cb_begin cb) < cb_buf_size cb"
    "egptr cb - gptr cb \<le> ring_dist (cb_buf_size cb) (pptr cb) (gptr cb)"
    "ring_dist (cb_buf_size cb) (pptr cb) (gptr cb) \<le> ring_dist (cb_buf_size cb) (pptr cb) (cb_begin cb)"
  shows "cb_wf cb"
proof -
  have "pptr cb \<le> cb_buf_size cb" "gptr cb \<le> cb_buf_size cb" using assms(3-6) by simp_all
  note m = cb_measures [OF assms(1,2) this]
  show ?thesis unfolding cb_wf_def freespace_def m using assms by simp
qed

lemma cb_wf_ring:
  assumes "cb_wf cb"
  shows "epptr cb - pptr cb + ring_dist (cb_buf_size cb) (pptr cb) (cb_begin cb) < cb_buf_size cb"
    "egptr cb - gptr cb \<le> ring_dist (cb_buf_size cb) (pptr cb) (gptr cb)"
    "ring_dist (cb_buf_size cb) (pptr cb) (gptr cb) \<le> ring_dist (cb_buf_size cb) (pptr cb) (cb_begin cb)"
proof -
  note m = cb_wf_measures [OF assms]
  show "egptr cb - gptr cb \<le> ring_dist (cb_buf_size cb) (pptr cb) (gptr cb)"
    "ring_dist (cb_buf_size cb) (pptr cb) (gptr cb) \<le> ring_dist (cb_buf_size cb) (pptr cb) (cb_begin cb)"
    using assms unfolding cb_wf_def m by simp_all
  have "epptr cb - pptr cb \<le> freespace cb" using assms unfolding cb_wf_def by simp
  then show "epptr cb - pptr cb + ring_dist (cb_buf_size cb) (pptr cb) (cb_begin cb) < cb_buf_size cb"
    using cb_wfD(10) [OF assms] unfolding freespace_def m(1) by linarith
qed

lemma ring_dist_mod_left: "x \<le> n \<Longrightarrow> y \<le> n \<Longrightarrow> 0 < n \<Longrightarrow> ring_dist n (x mod n) y = ring_dist n x y"
  by (cases "x = n") (auto simp: ring_dist_def)

lemma ring_dist_mod_right: "x \<le> n \<Longrightarrow> y \<le> n \<Longrightarrow> 0 < n \<Longrightarrow> ring_dist n x (y mod n) = ring_dist n x y"
  by (cases "y = n") (auto simp: ring_dist_def)

lemma ring_dist_Suc:
  "x < n \<Longrightarrow> y \<le> n \<Longrightarrow> ring_dist n x y < n - 1 \<Longrightarrow> ring_dist n (x + 1) y = ring_dist n x y + 1"
  by (auto simp: ring_dist_def split: if_splits)

lemma ring_dist_place: "x \<le> n \<Longrightarrow> y \<le> n \<Longrightarrow> 0 < n \<Longrightarrow> (y + ring_dist n x y) mod n = x mod n"
  by (cases "y = 0") (auto simp: ring_dist_def)

text \<open>Storing a byte at the put position.\<close>

definition cb_store :: "nat \<Rightarrow> nat \<Rightarrow> uint8 \<Rightarrow> circularbuf \<Rightarrow> circularbuf" where
  "cb_store q e c cb = cb\<lparr>cb_buffer := (cb_buffer cb)[q := c], pptr := q + 1, epptr := e\<rparr>"

lemma cb_store_wf:
  assumes wf: "cb_wf cb" and q: "q < cb_buf_size cb" "q mod cb_buf_size cb = pptr cb mod cb_buf_size cb"
    and e: "q < e" "e \<le> cb_buf_size cb" "e - q + cb_size cb < cb_buf_size cb"
  shows "cb_wf (cb_store q e c cb)" and "cb_size (cb_store q e c cb) = cb_size cb + 1"
    and "showmanyc (cb_store q e c cb) = showmanyc cb + 1"
proof -
  let ?n = "cb_buf_size cb" and ?s = "cb_store q e c cb"
  note D = cb_wfD [OF wf] and R = cb_wf_ring [OF wf] and M = cb_wf_measures [OF wf]
  have dq: "ring_dist ?n q y = ring_dist ?n (pptr cb) y" if "y \<le> ?n" for y
    using ring_dist_mod_left [of "pptr cb" ?n y] D(3,5) q that by simp
  have sz: "ring_dist ?n q (cb_begin cb) = cb_size cb" and av: "ring_dist ?n q (gptr cb) = showmanyc cb"
    using dq D(2,4) M by simp_all
  have room: "cb_size cb < ?n - 1" using e by simp
  then have room': "showmanyc cb < ?n - 1" using R(3) M by simp
  have sz1: "ring_dist ?n (q + 1) (cb_begin cb) = cb_size cb + 1"
    using ring_dist_Suc [of q ?n "cb_begin cb"] q D(2) sz room by simp
  have av1: "ring_dist ?n (q + 1) (gptr cb) = showmanyc cb + 1"
    using ring_dist_Suc [of q ?n "gptr cb"] q D(4) av room' by simp
  have sh: "cb_shape ?s" using D(1) by (simp add: cb_shape_def cb_store_def)
  show "cb_wf ?s"
    using sh D q e R(2,3) M sz1 av1 by (intro cb_wfI) (simp_all add: cb_store_def)
  then show "cb_size ?s = cb_size cb + 1" "showmanyc ?s = showmanyc cb + 1"
    using cb_wf_measures(1,2) [of ?s] sz1 av1 by (simp_all add: cb_store_def)
qed

lemma cb_store_bytes:
  assumes wf: "cb_wf cb" and q: "q < cb_buf_size cb" "q mod cb_buf_size cb = pptr cb mod cb_buf_size cb"
    and e: "q < e" "e \<le> cb_buf_size cb" "e - q + cb_size cb < cb_buf_size cb"
  shows "cb_held (cb_store q e c cb) = cb_held cb @ [c]" and "cb_pending (cb_store q e c cb) = cb_pending cb @ [c]"
proof -
  let ?n = "cb_buf_size cb"
  note D = cb_wfD [OF wf] and R = cb_wf_ring [OF wf] and M = cb_wf_measures [OF wf] and S = cb_store_wf [OF assms]
  have pl: "(cb_begin cb + cb_size cb) mod ?n = q" "(gptr cb + showmanyc cb) mod ?n = q"
    using ring_dist_place [of "pptr cb" ?n "cb_begin cb"] ring_dist_place [of "pptr cb" ?n "gptr cb"] D q M by simp_all
  have le: "showmanyc cb < ?n" using R(3) M D(10) by simp
  show "cb_held (cb_store q e c cb) = cb_held cb @ [c]"
    using ring_slice_snoc [OF pl(1) [symmetric] D(10,11)] S(2) by (simp add: cb_held_def cb_store_def)
  show "cb_pending (cb_store q e c cb) = cb_pending cb @ [c]"
    using ring_slice_snoc [OF pl(2) [symmetric] le D(11)] S(3) by (simp add: cb_pending_def cb_store_def)
qed

lemma cb_mask_pred:
  assumes "cb_wf cb"
  shows "cb_mask cb (word_of_nat (cb_begin cb) - 1) = ring_dist (cb_buf_size cb) (cb_begin cb) 1"
  using cb_mask_sub [of cb "cb_begin cb" 1] cb_wfD [OF assms] by simp

lemma ring_pred: "b < n \<Longrightarrow> 2 \<le> n \<Longrightarrow> ring_dist n b 1 = (if b = 0 then n - 1 else b - 1)"
  by (auto simp: ring_dist_def)

lemma ring_full: "p < n \<Longrightarrow> b < n \<Longrightarrow> p = (if b = 0 then n - 1 else b - 1) \<longleftrightarrow> ring_dist n p b = n - 1"
  by (cases "b \<le> p") (simp_all add: ring_dist_def, arith+)

lemma ring_room:
  assumes "p < n" "b < n" "p \<noteq> (if b = 0 then n - 1 else b - 1)"
  shows "(if p > (if b = 0 then n - 1 else b - 1) then n else (if b = 0 then n - 1 else b - 1)) - p + ring_dist n p b < n"
  using assms by (cases "b \<le> p"; cases "b = 0") (simp_all add: ring_dist_def)

lemma cb_size_putpos:
  assumes wf: "cb_wf cb"
  shows "cb_size cb = ring_dist (cb_buf_size cb) (putpos cb) (cb_begin cb)" and "putpos cb < cb_buf_size cb"
  using ring_dist_mod_left [of "pptr cb" "cb_buf_size cb" "cb_begin cb"] cb_wfD(2,3,5) [OF wf] cb_wf_measures(1,3) [OF wf] by simp_all

lemma putpos_pred:
  assumes wf: "cb_wf cb"
  shows "putpos cb = ring_dist (cb_buf_size cb) (cb_begin cb) 1 \<longleftrightarrow> cb_size cb = cb_buf_size cb - 1"
  unfolding ring_pred [OF cb_wfD(2,5) [OF wf]] cb_size_putpos(1) [OF wf]
  by (rule ring_full [OF cb_size_putpos(2) [OF wf] cb_wfD(2) [OF wf]])

lemma sputc_full:
  assumes wf: "cb_wf cb" and full: "cb_size cb = cb_buf_size cb - 1"
  shows "sputc c cb = (False, cb)"
proof -
  have "\<not> pptr cb < epptr cb"
    using cb_wf_ring(1) [OF wf] full cb_wf_measures(1) [OF wf] cb_wfD(5) [OF wf] by simp
  then show ?thesis
    using iffD2 [OF putpos_pred [OF wf] full] by (simp add: sputc_def overflow_def cb_mask_pred [OF wf] Let_def)
qed

lemma sputc_store:
  assumes wf: "cb_wf cb" and room: "cb_size cb < cb_buf_size cb - 1"
  obtains q e where "sputc c cb = (True, cb_store q e c cb)"
    and "q < cb_buf_size cb" "q mod cb_buf_size cb = pptr cb mod cb_buf_size cb" "q < e" "e \<le> cb_buf_size cb"
    and "e - q + cb_size cb < cb_buf_size cb"
proof (cases "pptr cb < epptr cb")
  case True
  show thesis
  proof (rule that [of "pptr cb" "epptr cb"])
    show "sputc c cb = (True, cb_store (pptr cb) (epptr cb) c cb)" using True by (simp add: sputc_def cb_store_def)
  qed (use True cb_wfD [OF wf] cb_wf_ring(1) [OF wf] cb_wf_measures(1) [OF wf] in simp_all)
next
  case False
  let ?n = "cb_buf_size cb" and ?pend = "ring_dist (cb_buf_size cb) (cb_begin cb) 1"
  let ?e = "if putpos cb > ?pend then ?n else ?pend"
  have ne: "putpos cb \<noteq> ?pend" using putpos_pred [OF wf] room by simp
  show thesis
  proof (rule that [of "putpos cb" ?e])
    show "sputc c cb = (True, cb_store (putpos cb) ?e c cb)"
      using False ne by (simp add: sputc_def overflow_def cb_mask_pred [OF wf] Let_def setp_def cb_store_def)
    show p: "putpos cb < ?n" "putpos cb mod ?n = pptr cb mod ?n"
      using cb_wfD(5) [OF wf] cb_wf_measures(3) [OF wf] by simp_all
    have pend: "?pend < ?n" using cb_wfD(2,5) [OF wf] by (auto simp: ring_dist_def)
    show "putpos cb < ?e" "?e \<le> ?n" using ne p(1) pend by simp_all
    show "?e - putpos cb + cb_size cb < ?n"
      using ring_room [OF cb_size_putpos(2) [OF wf] cb_wfD(2) [OF wf]] ne
      unfolding ring_pred [OF cb_wfD(2,5) [OF wf]] cb_size_putpos(1) [OF wf, symmetric] by blast
  qed
qed

text \<open>What the operations change: the bytes held, the bytes still to be read, and nothing of the layout.\<close>

definition cb_same :: "circularbuf \<Rightarrow> circularbuf \<Rightarrow> bool" where
  "cb_same cb cb' \<longleftrightarrow> cb_wf cb' \<and> cb_buf_size cb' = cb_buf_size cb"

lemma length_held [simp]: "length (cb_held cb) = cb_size cb"
  by (simp add: cb_held_def)

lemma length_pending [simp]: "length (cb_pending cb) = showmanyc cb"
  by (simp add: cb_pending_def)

lemma sputc_room:
  assumes wf: "cb_wf cb" and room: "length (cb_held cb) < cb_buf_size cb - 1"
  obtains cb' where "sputc c cb = (True, cb')" "cb_same cb cb'" "cb_begin cb' = cb_begin cb"
    "cb_held cb' = cb_held cb @ [c]" "cb_pending cb' = cb_pending cb @ [c]"
proof -
  obtain q e where s: "sputc c cb = (True, cb_store q e c cb)"
    and qe: "q < cb_buf_size cb" "q mod cb_buf_size cb = pptr cb mod cb_buf_size cb" "q < e" "e \<le> cb_buf_size cb"
      "e - q + cb_size cb < cb_buf_size cb"
    using sputc_store [OF wf] room by (metis length_held)
  show thesis
    using that [OF s _ _ cb_store_bytes [OF wf qe]] cb_store_wf(1) [OF wf qe]
    by (simp add: cb_same_def cb_store_def)
qed

lemma ring_dist_pred: "y < n \<Longrightarrow> x \<le> n \<Longrightarrow> 0 < ring_dist n x y \<Longrightarrow> ring_dist n x (y + 1) = ring_dist n x y - 1"
  by (cases "y < x") (auto simp: ring_dist_def split: if_splits)

lemma ring_slice_Cons: "ring_slice buf n s (Suc len) = buf ! (s mod n) # ring_slice buf n (s + 1) len"
  by (simp add: ring_slice_def upt_conv_Cons map_Suc_upt [symmetric] del: upt_Suc)

lemma cb_take_bytes:
  assumes wf: "cb_wf cb" and q: "q < cb_buf_size cb" "q mod cb_buf_size cb = gptr cb mod cb_buf_size cb"
    and e: "q < e" "e \<le> cb_buf_size cb" "e - q \<le> showmanyc cb"
  defines "cb' \<equiv> cb\<lparr>gptr := q + 1, egptr := e\<rparr>"
  shows "cb_same cb cb'" and "cb_held cb' = cb_held cb" and "cb_pending cb = cb_buffer cb ! q # cb_pending cb'"
proof -
  let ?n = "cb_buf_size cb"
  note D = cb_wfD [OF wf] and R = cb_wf_ring [OF wf] and M = cb_wf_measures [OF wf]
  have av: "ring_dist ?n (pptr cb) q = showmanyc cb"
    using ring_dist_mod_right [of "pptr cb" ?n "gptr cb"] D(3,4,5) q M(2) by simp
  have av1: "ring_dist ?n (pptr cb) (q + 1) = showmanyc cb - 1"
    using ring_dist_pred [of q ?n "pptr cb"] q D(3) av e by simp
  have sh: "cb_shape cb'" using D(1) by (simp add: cb_shape_def cb'_def)
  have wf': "cb_wf cb'"
    using sh D q e R M(1,2) av1 by (intro cb_wfI) (simp_all add: cb'_def)
  then show "cb_same cb cb'" by (simp add: cb_same_def cb'_def)
  have same: "cb_size cb' = cb_size cb" by (simp add: cb'_def cb_size_def cb_mask_def)
  then show "cb_held cb' = cb_held cb" by (simp add: cb_held_def cb'_def)
  have "showmanyc cb' = showmanyc cb - 1" using cb_wf_measures(2) [OF wf'] av1 by (simp add: cb'_def)
  then have "showmanyc cb = Suc (showmanyc cb')" using e by simp
  then show "cb_pending cb = cb_buffer cb ! q # cb_pending cb'"
    using ring_slice_Cons [of "cb_buffer cb" ?n q "showmanyc cb'"] q
      ring_slice_mod [of "cb_buffer cb" ?n "gptr cb"] ring_slice_mod [of "cb_buffer cb" ?n q]
    by (simp add: cb_pending_def cb'_def)
qed

lemma ring_dist_0: "x \<le> n \<Longrightarrow> y \<le> n \<Longrightarrow> 0 < n \<Longrightarrow> ring_dist n x y = 0 \<longleftrightarrow> x mod n = y mod n"
  using ring_dist_place [of x n y] by (cases "x = n"; cases "y = n") (auto simp: ring_dist_def split: if_splits)

lemma showmanyc_getpos:
  assumes wf: "cb_wf cb"
  shows "showmanyc cb = ring_dist (cb_buf_size cb) (putpos cb) (getpos cb)" and "getpos cb < cb_buf_size cb"
  using ring_dist_mod_left [of "pptr cb" "cb_buf_size cb" "gptr cb mod cb_buf_size cb"]
    ring_dist_mod_right [of "pptr cb" "cb_buf_size cb" "gptr cb"] cb_wfD(3,4,5) [OF wf] cb_wf_measures(2,3,4) [OF wf]
  by (simp_all add: less_imp_le)

lemma sbumpc_empty:
  assumes wf: "cb_wf cb" and em: "cb_pending cb = []"
  shows "sbumpc cb = (None, cb)"
proof -
  have z: "showmanyc cb = 0" using em by (metis length_pending list.size(3))
  have "\<not> gptr cb < egptr cb" using cb_wf_ring(2) [OF wf] cb_wf_measures(2) [OF wf] z by simp
  moreover have "putpos cb = getpos cb"
    using z ring_dist_0 [of "pptr cb" "cb_buf_size cb" "gptr cb"] cb_wfD(3,4,5) [OF wf] cb_wf_measures(2-4) [OF wf] by simp
  ultimately show ?thesis by (simp add: sbumpc_def underflow_def Let_def)
qed

lemma sbumpc_some:
  assumes wf: "cb_wf cb" and ne: "cb_pending cb = c # cs"
  obtains cb' where "sbumpc cb = (Some c, cb')" "cb_same cb cb'" "cb_begin cb' = cb_begin cb" "cb_held cb' = cb_held cb" "cb_pending cb' = cs"
proof (cases "gptr cb < egptr cb")
  case True
  let ?cb' = "cb\<lparr>gptr := gptr cb + 1, egptr := egptr cb\<rparr>"
  have q: "gptr cb < cb_buf_size cb" "egptr cb \<le> cb_buf_size cb" "egptr cb - gptr cb \<le> showmanyc cb"
    using True cb_wfD(9) [OF wf] cb_wf_ring(2) [OF wf] cb_wf_measures(2) [OF wf] by simp_all
  note T = cb_take_bytes [OF wf q(1) refl True q(2,3)]
  show thesis by (rule that [of ?cb']) (use True T ne in \<open>simp_all add: sbumpc_def\<close>)
next
  case False
  let ?n = "cb_buf_size cb" and ?q = "getpos cb" and ?e = "if getpos cb < putpos cb then putpos cb else cb_buf_size cb"
  let ?cb' = "cb\<lparr>gptr := ?q + 1, egptr := ?e\<rparr>"
  note G = showmanyc_getpos [OF wf] and P = cb_size_putpos(2) [OF wf]
  have "showmanyc cb \<noteq> 0" using ne by (metis length_pending list.discI length_0_conv)
  then have nq: "?q \<noteq> putpos cb" using G(1) by (auto simp: ring_dist_def split: if_splits)
  have q: "?q mod ?n = gptr cb mod ?n" using cb_wf_measures(4) [OF wf] by simp
  have e: "?q < ?e" "?e \<le> ?n" "?e - ?q \<le> showmanyc cb" using nq G P by (auto simp: ring_dist_def)
  note T = cb_take_bytes [OF wf G(2) q e]
  have "sbumpc cb = (Some (cb_buffer cb ! ?q), ?cb')"
    using False nq by (auto simp: sbumpc_def underflow_def Let_def setg_def)
  then show thesis by (intro that [of ?cb']) (use T ne in simp_all)
qed

lemma ring_window:
  assumes "p < n" "g < n" "b < n"
  shows "p \<ge> b \<and> g \<ge> b \<and> g \<le> p \<or> p < b \<and> (g \<ge> b \<or> g \<le> p) \<longleftrightarrow> ring_dist n p g \<le> ring_dist n p b"
  using assms by (cases "b \<le> p"; cases "g \<le> p") (simp_all add: ring_dist_def, arith+)

lemma ring_dist_advance:
  assumes "x < n" "y < n" "k \<le> ring_dist n x y"
  shows "ring_dist n x ((y + k) mod n) = ring_dist n x y - k"
  using assms by (cases "y + k < n") (auto simp: ring_dist_def le_mod_geq split: if_splits)

lemma ring_dist_inj: "p < n \<Longrightarrow> x < n \<Longrightarrow> y < n \<Longrightarrow> ring_dist n p x = ring_dist n p y \<Longrightarrow> x = y"
  by (cases "x \<le> p"; cases "y \<le> p") (simp_all add: ring_dist_def split: if_splits)

lemma cb_seek_bytes:
  assumes wf: "cb_wf cb" and g: "g < cb_buf_size cb" "ring_dist (cb_buf_size cb) (putpos cb) g \<le> cb_size cb"
  defines "cb' \<equiv> setg g (if g \<le> putpos cb then putpos cb else cb_buf_size cb) cb"
  shows "cb_same cb cb'" and "cb_held cb' = cb_held cb"
    and "cb_pending cb' = drop (cb_size cb - ring_dist (cb_buf_size cb) (putpos cb) g) (cb_held cb)"
proof -
  let ?n = "cb_buf_size cb" and ?k = "cb_size cb - ring_dist (cb_buf_size cb) (putpos cb) g"
  note D = cb_wfD [OF wf] and P = cb_size_putpos [OF wf]
  have av: "ring_dist ?n (pptr cb) g = ring_dist ?n (putpos cb) g"
    using ring_dist_mod_left [of "pptr cb" ?n g] D(3,5) g(1) cb_wf_measures(3) [OF wf] by simp
  have sh: "cb_shape cb'" using D(1) by (simp add: cb_shape_def cb'_def setg_def)
  have e: "(if g \<le> putpos cb then putpos cb else ?n) - g \<le> ring_dist ?n (putpos cb) g"
    using g(1) P(2) by (simp add: ring_dist_def) arith
  have wf': "cb_wf cb'"
    using sh D(2,6,7) cb_wf_ring(1) [OF wf] g P(2) av e cb_wf_measures(1) [OF wf]
    by (intro cb_wfI) (simp_all add: cb'_def setg_def)
  then show "cb_same cb cb'" by (simp add: cb_same_def cb'_def setg_def)
  have same: "cb_size cb' = cb_size cb" by (simp add: cb'_def setg_def cb_size_def cb_mask_def)
  then show "cb_held cb' = cb_held cb" by (simp add: cb_held_def cb'_def setg_def)
  have many: "showmanyc cb' = cb_size cb - ?k"
    using cb_wf_measures(2) [OF wf'] av g(2) by (simp add: cb'_def setg_def)
  have "(cb_begin cb + ?k) mod ?n = g"
  proof -
    have "ring_dist ?n (putpos cb) ((cb_begin cb + ?k) mod ?n) = ring_dist ?n (putpos cb) g"
      using ring_dist_advance [of "putpos cb" ?n "cb_begin cb" ?k] P D(2) g(2) by simp
    then show ?thesis using ring_dist_inj [OF P(2) _ g(1)] g(1) by simp
  qed
  then show "cb_pending cb' = drop ?k (cb_held cb)"
    using ring_slice_drop [of ?k "cb_size cb" "cb_buffer cb" ?n "cb_begin cb"] many
      ring_slice_mod [of "cb_buffer cb" ?n "cb_begin cb + ?k"]
    by (simp add: cb_pending_def cb_held_def cb'_def setg_def)
qed

lemma seekpos_held:
  assumes wf: "cb_wf cb" and k: "k \<le> length (cb_held cb)"
  obtains r cb' where "seekpos ((cb_begin cb + k) mod cb_buf_size cb) cb = (Some r, cb')"
    "cb_same cb cb'" "cb_begin cb' = cb_begin cb" "cb_held cb' = cb_held cb" "cb_pending cb' = drop k (cb_held cb)"
proof -
  let ?n = "cb_buf_size cb" and ?g = "(cb_begin cb + k) mod cb_buf_size cb"
  note D = cb_wfD [OF wf] and P = cb_size_putpos [OF wf]
  have g: "?g < ?n" using D(5) by simp
  have d: "ring_dist ?n (putpos cb) ?g = cb_size cb - k"
    using ring_dist_advance [of "putpos cb" ?n "cb_begin cb" k] P D(2) k by simp
  have m: "cb_mask cb (word_of_nat ?g) = ?g" using cb_mask_nat [OF D(1)] by simp
  have in_window: "ring_dist ?n (putpos cb) ?g \<le> cb_size cb" using d by simp
  have "seekpos ?g cb = (Some ?g, setg ?g (if ?g \<le> putpos cb then putpos cb else ?n) cb)"
    using iffD2 [OF ring_window [OF P(2) g D(2)]] in_window P(1) by (simp add: seekpos_def Let_def m)
  then show thesis
    using that cb_seek_bytes [OF wf g in_window] d k by (simp add: setg_def)
qed

lemma cb_drop_bytes:
  assumes wf: "cb_wf cb" and k: "k \<le> cb_size cb" "showmanyc cb \<le> cb_size cb - k"
  defines "cb' \<equiv> cb\<lparr>cb_begin := (cb_begin cb + k) mod cb_buf_size cb\<rparr>"
  shows "cb_same cb cb'" and "cb_held cb' = drop k (cb_held cb)" and "cb_pending cb' = cb_pending cb"
proof -
  let ?n = "cb_buf_size cb" and ?b = "(cb_begin cb + k) mod cb_buf_size cb"
  note D = cb_wfD [OF wf] and M = cb_wf_measures [OF wf] and P = cb_size_putpos [OF wf]
  have b: "?b < ?n" using D(5) by simp
  have d: "ring_dist ?n (pptr cb) ?b = cb_size cb - k"
    using ring_dist_advance [of "putpos cb" ?n "cb_begin cb" k] ring_dist_mod_left [of "pptr cb" ?n ?b] b P D(2,3,5) k(1) M(3) by simp
  have sh: "cb_shape cb'" using D(1) by (simp add: cb_shape_def cb'_def)
  have wf': "cb_wf cb'"
    using sh D(5-9) b d k cb_wf_ring [OF wf] M(1,2) by (intro cb_wfI) (simp_all add: cb'_def)
  then show "cb_same cb cb'" by (simp add: cb_same_def cb'_def)
  have sz: "cb_size cb' = cb_size cb - k" using cb_wf_measures(1) [OF wf'] d by (simp add: cb'_def)
  show "cb_held cb' = drop k (cb_held cb)"
    using ring_slice_drop [OF k(1), of "cb_buffer cb" ?n "cb_begin cb"] ring_slice_mod [of "cb_buffer cb" ?n "cb_begin cb + k"] sz
    by (simp add: cb_held_def cb'_def)
  have "showmanyc cb' = showmanyc cb" by (simp add: cb'_def showmanyc_def cb_mask_def)
  then show "cb_pending cb' = cb_pending cb" by (simp add: cb_pending_def cb'_def)
qed

text \<open>The front moves by the number of bytes removed, which is at most the number held.\<close>

lemma consume_front:
  assumes wf: "cb_wf cb"
  shows "(if n \<ge> cb_size cb then putpos cb else cb_mask cb (word_of_nat (cb_begin cb) + word_of_nat n))
    = (cb_begin cb + min n (cb_size cb)) mod cb_buf_size cb"
proof (cases "n \<ge> cb_size cb")
  case True
  then show ?thesis
    using ring_dist_place [of "pptr cb" "cb_buf_size cb" "cb_begin cb"] cb_wfD(2,3) [OF wf] cb_wf_measures(1,3) [OF wf] by simp
qed (simp add: cb_mask_add [OF cb_wfD(1) [OF wf]])

lemma ring_outside:
  assumes "p < n" "g < n" "b < n"
  shows "(p \<ge> b \<and> (g < b \<or> g > p) \<or> p < b \<and> g < b \<and> g > p) = (\<not> ring_dist n p g \<le> ring_dist n p b)"
  using ring_window [OF assms] by (simp add: not_le) arith

lemma consume_cases:
  fixes n :: nat
  assumes wf: "cb_wf cb"
  defines "b \<equiv> (cb_begin cb + min n (cb_size cb)) mod cb_buf_size cb"
  shows "consume n cb =
    (if showmanyc cb \<le> cb_size cb - min n (cb_size cb) then cb\<lparr>cb_begin := b\<rparr>
     else (setg (b) (if b \<le> putpos cb then putpos cb else cb_buf_size cb) cb)\<lparr>cb_begin := b\<rparr>)"
proof -
  note D = cb_wfD [OF wf] and P = cb_size_putpos [OF wf] and G = showmanyc_getpos [OF wf]
  have b: "b < cb_buf_size cb" using D(5) by (simp add: b_def)
  have d: "ring_dist (cb_buf_size cb) (putpos cb) (b) = cb_size cb - min n (cb_size cb)"
    using ring_dist_advance [of "putpos cb" "cb_buf_size cb" "cb_begin cb"] P D(2) by (simp add: b_def)
  show ?thesis
    unfolding consume_def consume_front [OF wf] Let_def b_def [symmetric] ring_outside [OF P(2) G(2) b] d G(1) [symmetric]
    by (simp add: setg_def)
qed

lemma consume_bytes:
  fixes n :: nat
  assumes wf: "cb_wf cb"
  shows "cb_same cb (consume n cb)" and "cb_held (consume n cb) = drop n (cb_held cb)"
    and "cb_begin (consume n cb) = (cb_begin cb + min n (length (cb_held cb))) mod cb_buf_size cb"
proof -
  define k where "k = min n (cb_size cb)"
  define b where "b = (cb_begin cb + k) mod cb_buf_size cb"
  define s where "s = setg b (if b \<le> putpos cb then putpos cb else cb_buf_size cb) cb"
  note D = cb_wfD [OF wf] and P = cb_size_putpos [OF wf] and C = consume_cases [OF wf, of n, folded k_def, folded b_def]
  have k: "k \<le> cb_size cb" by (simp add: k_def)
  have drop: "drop k (cb_held cb) = drop n (cb_held cb)" by (simp add: k_def min_def)
  have "cb_same cb (consume n cb) \<and> cb_held (consume n cb) = drop n (cb_held cb) \<and> cb_begin (consume n cb) = b"
  proof (cases "showmanyc cb \<le> cb_size cb - k")
    case True
    then show ?thesis using C cb_drop_bytes [OF wf k True, folded b_def] drop by simp
  next
    case False
    have bn: "b < cb_buf_size cb" using D(5) by (simp add: b_def)
    have d: "ring_dist (cb_buf_size cb) (putpos cb) b = cb_size cb - k"
      using ring_dist_advance [OF P(2) D(2), of k] P(1) k by (simp add: b_def)
    note S = cb_seek_bytes [OF wf bn, folded s_def, unfolded d, OF diff_le_self]
    have wfs: "cb_wf s" and szs: "cb_size s = cb_size cb" using S(1) arg_cong [OF S(2), of length] by (simp_all add: cb_same_def)
    have mns: "showmanyc s \<le> cb_size s - k" using arg_cong [OF S(3), of length] szs k by simp
    have bs: "(cb_begin s + k) mod cb_buf_size s = b" by (simp add: s_def setg_def b_def)
    note T = cb_drop_bytes [OF wfs _ mns, unfolded bs szs, OF k]
    have "consume n cb = s\<lparr>cb_begin := b\<rparr>" using C False by (simp add: s_def)
    then show ?thesis using T S drop by (simp add: cb_same_def)
  qed
  then show "cb_same cb (consume n cb)" "cb_held (consume n cb) = drop n (cb_held cb)"
    "cb_begin (consume n cb) = (cb_begin cb + min n (length (cb_held cb))) mod cb_buf_size cb"
    by (simp_all add: b_def k_def)
qed

lemma sputn_room:
  assumes "cb_wf cb" "length (cb_held cb) + length bs < cb_buf_size cb"
  shows "\<exists>cb'. sputn bs cb = (length bs, cb') \<and> cb_same cb cb' \<and> cb_begin cb' = cb_begin cb \<and>
    cb_held cb' = cb_held cb @ bs \<and> cb_pending cb' = cb_pending cb @ bs"
  using assms
proof (induction bs arbitrary: cb)
  case (Cons c bs)
  from Cons.prems have room: "length (cb_held cb) < cb_buf_size cb - 1" by simp
  obtain cb1 where 1: "sputc c cb = (True, cb1)" "cb_same cb cb1" "cb_begin cb1 = cb_begin cb"
    "cb_held cb1 = cb_held cb @ [c]" "cb_pending cb1 = cb_pending cb @ [c]"
    by (rule sputc_room [OF Cons.prems(1) room])
  then obtain cb2 where "sputn bs cb1 = (length bs, cb2) \<and> cb_same cb1 cb2 \<and> cb_begin cb2 = cb_begin cb1 \<and>
    cb_held cb2 = cb_held cb1 @ bs \<and> cb_pending cb2 = cb_pending cb1 @ bs"
    using Cons.IH [of cb1] Cons.prems by (auto simp: cb_same_def simp flip: length_held)
  then show ?case using 1 by (simp add: cb_same_def)
qed (simp add: cb_same_def)

lemma sgetn_pending:
  assumes "cb_wf cb" "n \<le> length (cb_pending cb)"
  shows "\<exists>cb'. sgetn n cb = (take n (cb_pending cb), cb') \<and> cb_same cb cb' \<and> cb_begin cb' = cb_begin cb \<and>
    cb_held cb' = cb_held cb \<and> cb_pending cb' = drop n (cb_pending cb)"
  using assms
proof (induction n arbitrary: cb)
  case (Suc n)
  then obtain c cs where p: "cb_pending cb = c # cs" by (cases "cb_pending cb") auto
  obtain cb1 where 1: "sbumpc cb = (Some c, cb1)" "cb_same cb cb1" "cb_begin cb1 = cb_begin cb" "cb_held cb1 = cb_held cb" "cb_pending cb1 = cs"
    by (rule sbumpc_some [OF Suc.prems(1) p])
  then obtain cb2 where "sgetn n cb1 = (take n cs, cb2) \<and> cb_same cb1 cb2 \<and> cb_begin cb2 = cb_begin cb1 \<and>
    cb_held cb2 = cb_held cb1 \<and> cb_pending cb2 = drop n cs"
    using Suc.IH [of cb1] Suc.prems p by (auto simp: cb_same_def simp flip: length_pending)
  then show ?case using 1 p by (simp add: cb_same_def)
qed (simp add: cb_same_def)

section \<open>The contract of the stream\<close>

locale byte_ring =
  fixes ok :: "'s \<Rightarrow> bool"
    and places :: "'s \<Rightarrow> nat" and base :: "'s \<Rightarrow> nat" and held :: "'s \<Rightarrow> bytes" and pend :: "'s \<Rightarrow> bytes"
    and room :: "'s \<Rightarrow> nat" and wpos :: "'s \<Rightarrow> nat"
    and put :: "bytes \<Rightarrow> 's \<Rightarrow> 's" and seek :: "nat \<Rightarrow> 's \<Rightarrow> bool \<times> 's" and rewind :: "'s \<Rightarrow> 's" and discard :: "nat \<Rightarrow> 's \<Rightarrow> 's"
  assumes room_held: "ok s \<Longrightarrow> room s + length (held s) + 1 = places s"
    and wpos_held: "ok s \<Longrightarrow> wpos s = (base s + length (held s)) mod places s"
    and base_places: "ok s \<Longrightarrow> base s < places s"
    and put_ok: "ok s \<Longrightarrow> length bs \<le> room s \<Longrightarrow>
      ok (put bs s) \<and> held (put bs s) = held s @ bs \<and> base (put bs s) = base s \<and> places (put bs s) = places s"
    and seek_ok: "ok s \<Longrightarrow> k \<le> length (held s) \<Longrightarrow> seek ((base s + k) mod places s) s = (True, s') \<Longrightarrow>
      ok s' \<and> held s' = held s \<and> base s' = base s \<and> places s' = places s \<and> pend s' = drop k (held s)"
    and seek_finds: "ok s \<Longrightarrow> k \<le> length (held s) \<Longrightarrow> fst (seek ((base s + k) mod places s) s)"
    and rewind_ok: "ok s \<Longrightarrow> ok (rewind s) \<and> held (rewind s) = held s \<and> base (rewind s) = base s \<and>
      places (rewind s) = places s \<and> pend (rewind s) = held s"
    and discard_ok: "ok s \<Longrightarrow> ok (discard k s) \<and> held (discard k s) = drop k (held s) \<and> places (discard k s) = places s"
    and discard_base: "ok s \<Longrightarrow> k \<le> length (held s) \<Longrightarrow> base (discard k s) = (base s + k) mod places s"
begin

text \<open>A piece of what is held is found again at its position.\<close>

lemma find_piece:
  assumes "ok s" "held s = pre @ d @ post"
  obtains s' where "seek ((base s + length pre) mod places s) s = (True, s')" "ok s'" "held s' = held s" "base s' = base s"
    "places s' = places s" "pend s' = d @ post"
proof -
  let ?p = "(base s + length pre) mod places s"
  have k: "length pre \<le> length (held s)" using assms(2) by simp
  obtain s' where s': "seek ?p s = (True, s')" using seek_finds [OF assms(1) k] by (cases "seek ?p s") auto
  show thesis using that [OF s'] seek_ok [OF assms(1) k s'] assms(2) by simp
qed

text \<open>A piece keeps its position while the bytes before it are discarded.\<close>

lemma piece_stays:
  assumes "ok s" "held s = d @ post" "j \<le> length post"
  shows "(base (discard (length d) s) + j) mod places (discard (length d) s) = (base s + length d + j) mod places s"
  using discard_base [OF assms(1), of "length d"] discard_ok [OF assms(1), of "length d"] assms(2) by (simp add: mod_add_left_eq)

lemma put_position:
  assumes "ok s" "length bs \<le> room s"
  shows "wpos (put bs s) = (base s + length (held s) + length bs) mod places s"
  using wpos_held put_ok [OF assms] by (simp add: add.assoc)

lemma room_after_discard: "ok s \<Longrightarrow> room (discard k s) = room s + min k (length (held s))"
  using room_held [of s] room_held [of "discard k s"] discard_ok [of s k] by (cases "k \<le> length (held s)") simp_all

end

definition cs_ok :: "CWalleveCircularStream \<Rightarrow> bool" where
  "cs_ok s \<longleftrightarrow> cb_wf (cs_buf s) \<and> cs_good s"

definition cs_places :: "CWalleveCircularStream \<Rightarrow> nat" where "cs_places s = cb_buf_size (cs_buf s)"
definition cs_base :: "CWalleveCircularStream \<Rightarrow> nat" where "cs_base s = cb_begin (cs_buf s)"
definition cs_held :: "CWalleveCircularStream \<Rightarrow> bytes" where "cs_held s = cb_held (cs_buf s)"
definition cs_pending :: "CWalleveCircularStream \<Rightarrow> bytes" where "cs_pending s = cb_pending (cs_buf s)"

lemmas cs_defs = cs_ok_def cs_places_def cs_base_def cs_held_def cs_pending_def

lemma seekoff_begin:
  assumes wf: "cb_wf cb"
  shows "seekoff 0 ios_beg cb = seekpos ((cb_begin cb + 0) mod cb_buf_size cb) cb"
  using cb_mask_nat [OF cb_wfD(1) [OF wf], of "cb_begin cb"] by (simp add: seekoff_def)

interpretation cs: byte_ring cs_ok cs_places cs_base cs_held cs_pending GetBufFreeSpace GetWritePos cs_Write cs_Seek cs_Rewind cs_Consume
proof
  fix s s' :: CWalleveCircularStream and k :: nat and bs :: bytes
  assume ok: "cs_ok s"
  then have wf: "cb_wf (cs_buf s)" and good: "cs_good s" by (simp_all add: cs_ok_def)
  show "GetBufFreeSpace s + length (cs_held s) + 1 = cs_places s"
    using cb_wfD(10) [OF wf] by (simp add: GetBufFreeSpace_def freespace_def cs_defs)
  show "GetWritePos s = (cs_base s + length (cs_held s)) mod cs_places s"
    using ring_dist_place [of "pptr (cs_buf s)" "cb_buf_size (cs_buf s)" "cb_begin (cs_buf s)"] cb_wfD(2,3,5) [OF wf]
      cb_wf_measures(1,3) [OF wf] by (simp add: GetWritePos_def cs_defs)
  show "cs_base s < cs_places s" using cb_wfD(2) [OF wf] by (simp add: cs_defs)
  show "cs_ok (cs_Consume k s) \<and> cs_held (cs_Consume k s) = drop k (cs_held s) \<and> cs_places (cs_Consume k s) = cs_places s"
    using consume_bytes [OF wf, of k] good by (simp add: cs_Consume_def cs_defs cb_same_def)
  show "cs_base (cs_Consume k s) = (cs_base s + k) mod cs_places s" if "k \<le> length (cs_held s)"
    using consume_bytes(3) [OF wf, of k] that by (simp add: cs_Consume_def cs_defs min_def)
  show "cs_ok (cs_Rewind s) \<and> cs_held (cs_Rewind s) = cs_held s \<and> cs_base (cs_Rewind s) = cs_base s \<and>
      cs_places (cs_Rewind s) = cs_places s \<and> cs_pending (cs_Rewind s) = cs_held s"
    by (rule seekpos_held [OF wf, of 0]) (simp_all add: cs_Rewind_def seekoff_begin [OF wf] cs_defs cb_same_def)
  show "fst (cs_Seek ((cs_base s + k) mod cs_places s) s)" if "k \<le> length (cs_held s)"
    by (rule seekpos_held [OF wf, of k]) (use that in \<open>simp_all add: cs_Seek_def cs_defs\<close>)
  show "cs_ok s' \<and> cs_held s' = cs_held s \<and> cs_base s' = cs_base s \<and> cs_places s' = cs_places s \<and> cs_pending s' = drop k (cs_held s)"
    if "k \<le> length (cs_held s)" "cs_Seek ((cs_base s + k) mod cs_places s) s = (True, s')"
    by (rule seekpos_held [OF wf, of k]) (use that in \<open>auto simp: cs_Seek_def cs_defs cb_same_def\<close>)
  show "cs_ok (cs_Write bs s) \<and> cs_held (cs_Write bs s) = cs_held s @ bs \<and> cs_base (cs_Write bs s) = cs_base s \<and>
      cs_places (cs_Write bs s) = cs_places s" if "length bs \<le> GetBufFreeSpace s"
  proof -
    have "length (cb_held (cs_buf s)) + length bs < cb_buf_size (cs_buf s)"
      using that cb_wfD(10) [OF wf] by (simp add: GetBufFreeSpace_def freespace_def)
    from sputn_room [OF wf this] good show ?thesis by (auto simp: cs_Write_def cs_defs cb_same_def)
  qed
qed

lemma cs_Load_ok:
  assumes ok: "cs_ok s" and ld: "ld (cs_pending s) = Some (x, r)" and pre: "length r \<le> length (cs_pending s)"
  obtains s' where "cs_Load ld s = (Some x, s')" "cs_ok s'" "cs_held s' = cs_held s" "cs_base s' = cs_base s" "cs_places s' = cs_places s"
    "cs_pending s' = drop (length (cs_pending s) - length r) (cs_pending s)"
proof -
  let ?p = "cb_pending (cs_buf s)"
  have wf: "cb_wf (cs_buf s)" and good: "cs_good s" using ok by (simp_all add: cs_ok_def)
  obtain cb1 where 1: "sgetn (length ?p) (cs_buf s) = (?p, cb1)" using sgetn_pending [OF wf, of "length ?p"] by auto
  obtain cb2 where 2: "sgetn (length ?p - length r) (cs_buf s) = (take (length ?p - length r) ?p, cb2)" "cb_same (cs_buf s) cb2"
    "cb_begin cb2 = cb_begin (cs_buf s)" "cb_held cb2 = cb_held (cs_buf s)" "cb_pending cb2 = drop (length ?p - length r) ?p"
    using sgetn_pending [OF wf, of "length ?p - length r"] by auto
  have "cs_Load ld s = (Some x, \<lparr>cs_buf = cb2, cs_good = True\<rparr>)"
    using good 1 2(1) ld by (simp add: cs_Load_def cs_pending_def)
  then show thesis using that 2 by (simp add: cs_defs cb_same_def)
qed

section \<open>Construction\<close>

lemma unat_pow64:
  assumes "j \<le> 63"
  shows "unat (2 ^ j :: uint64) = 2 ^ j"
proof -
  have "(2::nat) ^ j \<le> 2 ^ 63" by (rule power_increasing [OF assms]) simp
  then have "(2::nat) ^ j < 2 ^ 64" by simp
  then have "unat (word_of_nat (2 ^ j) :: uint64) = 2 ^ j" by (simp only: unat_of_nat) simp
  then show ?thesis by simp
qed

lemma cb_grow_power:
  assumes "unat maximum_size \<le> 2 ^ 63" "j \<le> 63"
  shows "\<exists>k. j \<le> k \<and> k \<le> 63 \<and> cb_grow maximum_size (2 ^ j) = Some (2 ^ k) \<and> unat maximum_size \<le> 2 ^ k"
  using assms(2)
proof (induction "63 - j" arbitrary: j)
  case (Suc d)
  have u: "unat (2 ^ j :: uint64) = 2 ^ j" using Suc.prems by (rule unat_pow64)
  show ?case
  proof (cases "(2 ^ j :: uint64) < maximum_size")
    case True
    have "push_bit 1 (2 ^ j :: uint64) = 2 ^ Suc j" by (simp add: push_bit_eq_mult)
    then have step: "cb_grow maximum_size (2 ^ j) = cb_grow maximum_size (2 ^ Suc j)" by (subst cb_grow.simps) (simp only: True if_True)
    have "d = 63 - Suc j" "Suc j \<le> 63" using Suc.hyps(2) by simp_all
    from Suc.hyps(1) [OF this] step show ?thesis by (auto intro: Suc_leD)
  next
    case False
    then have "cb_grow maximum_size (2 ^ j) = Some (2 ^ j)" "unat maximum_size \<le> 2 ^ j"
      using u by (simp_all add: cb_grow.simps word_less_nat_alt)
    then show ?thesis using Suc.prems by blast
  qed
next
  case 0
  then have j: "j = 63" by simp
  have "unat (2 ^ 63 :: uint64) = 2 ^ 63" by simp
  then have "\<not> (2 ^ 63 :: uint64) < maximum_size" using assms(1) by (simp only: word_less_nat_alt not_less)
  then have "cb_grow maximum_size (2 ^ 63) = Some (2 ^ 63)" by (subst cb_grow.simps) (simp only: if_False)
  then show ?case using assms(1) j by blast
qed

lemma CWalleveCircularStream_new_ok:
  assumes "unat nMaxSize \<le> 2 ^ 63"
  obtains s k where "CWalleveCircularStream_new nMaxSize = Some s" "cs_ok s" "cs_held s = []" "cs_places s = 2 ^ k" "3 \<le> k"
    "unat nMaxSize \<le> cs_places s"
proof -
  obtain k where k: "3 \<le> k" "k \<le> 63" "cb_grow nMaxSize (2 ^ 3) = Some (2 ^ k)" "unat nMaxSize \<le> 2 ^ k"
    using cb_grow_power [OF assms, of 3] by auto
  have u: "unat (2 ^ k :: uint64) = 2 ^ k" using k(2) by (rule unat_pow64)
  let ?cb = "\<lparr>cb_buf_size = 2 ^ k, cb_size_mask = 2 ^ k - 1, cb_begin = 0, cb_buffer = replicate (2 ^ k) 0,
       gptr = 0, egptr = 0, pptr = 0, epptr = 2 ^ k - 1\<rparr> :: circularbuf"
  have new: "CWalleveCircularStream_new nMaxSize = Some \<lparr>cs_buf = ?cb, cs_good = True\<rparr>"
    using k(3) u by (simp add: CWalleveCircularStream_new_def circularbuf_new_def cb_MIN_SIZE_def)
  have sh: "cb_shape ?cb" using k(1,2) by (auto simp: cb_shape_def intro: exI [of _ k])
  then have wf: "cb_wf ?cb" by (intro cb_wfI) (simp_all add: ring_dist_def)
  have "cb_size ?cb = 0" using cb_wf_measures(1) [OF wf] by (simp add: ring_dist_def)
  then show thesis
    using that [OF new] wf k by (simp add: cs_defs cb_held_def ring_slice_def)
qed

end
