(* ===== verification/TimeSeries.thy ===== *)
theory TimeSeries
  imports Circular Block
begin

text \<open>
  The files of blocks: \<^verbatim>\<open>CDiskPos\<close>, \<^verbatim>\<open>CTimeSeriesBase\<close>, \<^verbatim>\<open>CTimeSeriesCached\<close> and \<^verbatim>\<open>CTimeSeriesChunk\<close> of
  \<^verbatim>\<open>storage/timeseries.h\<close> and \<^verbatim>\<open>timeseries.cpp\<close>.  The directory is a map from file numbers to contents; the class template's
  type argument is a record of its serialisation functions; what the operating system decides (whether a file can be
  created, how many bytes of a write reach the file) is the environment \<open>ts_env\<close>.

  No stream of the program has its exceptions enabled, so a stream that fails raises nothing: a short write is not noticed, and a
  read past the end leaves the value partly filled.  \<open>T_part\<close> is what such a read leaves, or nothing when the allocation it asks
  for throws.  An operation returns \<^const>\<open>None\<close> when one of its loops does not end.

  The lemmas show that a value written is read back from its position whatever is written, read and evicted from the cache
  in between, that the cache never changes what a read returns, and when the loops end.
\<close>

section \<open>Positions and files\<close>

datatype CDiskPos = CDiskPos (pos_nFile: uint32) (pos_nOffset: uint32)

instantiation CDiskPos :: linorder
begin

definition less_CDiskPos :: "CDiskPos \<Rightarrow> CDiskPos \<Rightarrow> bool" where
  "less_CDiskPos a b \<longleftrightarrow> pos_nFile a < pos_nFile b \<or> pos_nFile a = pos_nFile b \<and> pos_nOffset a < pos_nOffset b"

definition less_eq_CDiskPos :: "CDiskPos \<Rightarrow> CDiskPos \<Rightarrow> bool" where
  "less_eq_CDiskPos a b \<longleftrightarrow> a < b \<or> a = (b :: CDiskPos)"

instance
  by standard (auto simp: less_CDiskPos_def less_eq_CDiskPos_def intro: CDiskPos.expand)

end

definition pos_IsNull :: "CDiskPos \<Rightarrow> bool" where "pos_IsNull p \<longleftrightarrow> pos_nFile p = 0"

definition Save_pos :: "CDiskPos \<Rightarrow> bytes" where
  "Save_pos p = Save_uint (pos_nFile p) @ Save_uint (pos_nOffset p)"

definition Load_pos :: "CDiskPos loader" where
  "Load_pos s = do {
     (f, s1) \<leftarrow> Load_uint s;
     (n, s2) \<leftarrow> Load_uint s1;
     Some (CDiskPos f n, s2) }"

type_synonym ts_files = "(uint32, bytes) omap"

record 'a ts_type =
  T_save :: "'a \<Rightarrow> bytes"
  T_load :: "'a loader"
  T_size :: "'a \<Rightarrow> nat"
  T_part :: "bytes \<Rightarrow> 'a option"

record ts_env =
  env_fopen :: "ts_files \<Rightarrow> uint32 \<Rightarrow> bool"
  env_accept :: "ts_files \<Rightarrow> bytes \<Rightarrow> nat"

record CTimeSeriesBase =
  ts_files :: ts_files
  ts_nLastFile :: uint32

definition MAX_FILE_SIZE :: nat where "MAX_FILE_SIZE = 0x7F000000"
definition MAX_CHUNK_SIZE :: nat where "MAX_CHUNK_SIZE = 0x200000"
definition nMagicNum :: uint32 where "nMagicNum = 0x5E33A1EF"

text \<open>The number of a file in its name, padded to six digits.\<close>

fun decimal :: "nat \<Rightarrow> string" where
  "decimal n = (if n < 10 then [char_of (48 + n)] else decimal (n div 10) @ [char_of (48 + n mod 10)])"

definition FileName :: "string \<Rightarrow> uint32 \<Rightarrow> string" where
  "FileName strPrefix nFile =
     strPrefix @ ''_'' @ (let d = decimal (unat nFile) in replicate (6 - length d) (CHR ''0'') @ d) @ ''.dat''"

definition GetFilePath :: "uint32 \<Rightarrow> ts_files \<Rightarrow> bool" where
  "GetFilePath nFile fs = om_has fs nFile"

definition file_bytes :: "ts_files \<Rightarrow> uint32 \<Rightarrow> bytes" where
  "file_bytes fs nFile = (case om_get fs nFile of Some b \<Rightarrow> b | None \<Rightarrow> [])"

partial_function (option) GetLastFilePath :: "ts_env \<Rightarrow> uint32 \<Rightarrow> ts_files \<Rightarrow> (uint32 option \<times> uint32 \<times> ts_files) option" where
  "GetLastFilePath env nLastFile fs =
     (if \<not> om_has fs nLastFile \<and> \<not> env_fopen env fs nLastFile then Some (None, nLastFile, fs)
      else let fs1 = (if om_has fs nLastFile then fs else om_set nLastFile [] fs)
        in if length (file_bytes fs1 nLastFile) < MAX_FILE_SIZE - MAX_CHUNK_SIZE - 8
           then Some (Some nLastFile, nLastFile, fs1)
           else GetLastFilePath env (nLastFile + 1) fs1)"

text \<open>Appending a record to a file: the magic number, the size and the value.  The position is computed from the length of the
  file before the bytes are flushed, so it does not depend on how many reach it.\<close>

definition ts_record :: "'a ts_type \<Rightarrow> 'a \<Rightarrow> bytes" where
  "ts_record T t = Save_uint nMagicNum @ Save_uint (word_of_nat (T_size T t) :: uint32) @ T_save T t"

definition ts_append :: "'a ts_type \<Rightarrow> ts_env \<Rightarrow> 'a \<Rightarrow> uint32 \<Rightarrow> ts_files \<Rightarrow> uint32 \<times> ts_files" where
  "ts_append T env t nFile fs =
     (let b = file_bytes fs nFile; r = ts_record T t
      in (word_of_nat (length b + 8), om_set nFile (b @ take (env_accept env fs r) r) fs))"

text \<open>Reading a value of the stream's remaining bytes.\<close>

definition T_read :: "'a ts_type \<Rightarrow> bytes \<Rightarrow> 'a option" where
  "T_read T bs = (case T_load T bs of Some (t, _) \<Rightarrow> Some t | None \<Rightarrow> T_part T bs)"

definition ReadDirect :: "'a ts_type \<Rightarrow> uint32 \<Rightarrow> uint32 \<Rightarrow> ts_files \<Rightarrow> 'a option" where
  "ReadDirect T nFile nOffset fs =
     (if \<not> GetFilePath nFile fs then None else T_read T (drop (unat nOffset) (file_bytes fs nFile)))"

section \<open>The cache\<close>

record CTimeSeriesCached = CTimeSeriesBase +
  ts_cacheStream :: CWalleveCircularStream
  ts_mapCachePos :: "(CDiskPos, nat) omap"

definition FILE_CACHE_SIZE :: uint64 where "FILE_CACHE_SIZE = 0x2000000"
definition nHdrSize :: nat where "nHdrSize = 12"

definition ResetCache :: "CTimeSeriesCached \<Rightarrow> CTimeSeriesCached" where
  "ResetCache ts = ts\<lparr>ts_cacheStream := cs_Clear (ts_cacheStream ts), ts_mapCachePos := []\<rparr>"

text \<open>Reading a fixed number of bytes into variables that hold zeros: a short read fills the low part only.\<close>

definition cs_Read :: "nat \<Rightarrow> CWalleveCircularStream \<Rightarrow> bytes \<times> CWalleveCircularStream" where
  "cs_Read n s =
     (if \<not> cs_good s then (replicate n 0, s)
      else case sgetn n (cs_buf s) of (bs, cb) \<Rightarrow>
        (bs @ replicate (n - length bs) 0, \<lparr>cs_buf = cb, cs_good = (length bs = n)\<rparr>))"

definition cache_header :: "bytes \<Rightarrow> CDiskPos \<times> uint32" where
  "cache_header h = (CDiskPos (word_of_nat (le_val (take 4 h))) (word_of_nat (le_val (take 4 (drop 4 h)))), word_of_nat (le_val (take 4 (drop 8 h))))"

partial_function (option) VacateCache :: "uint32 \<Rightarrow> CTimeSeriesCached \<Rightarrow> CTimeSeriesCached option" where
  "VacateCache nNeeded ts =
     (if GetBufFreeSpace (ts_cacheStream ts) < unat nNeeded + nHdrSize
      then let (h, s) = cs_Read nHdrSize (cs_Rewind (ts_cacheStream ts)); (diskpos, nSize) = cache_header h
        in VacateCache nNeeded (ts\<lparr>ts_mapCachePos := om_del diskpos (ts_mapCachePos ts),
             ts_cacheStream := cs_Consume (unat nSize + nHdrSize) s\<rparr>)
      else Some ts)"

definition WriteToCache :: "'a ts_type \<Rightarrow> 'a \<Rightarrow> CDiskPos \<Rightarrow> CTimeSeriesCached \<Rightarrow> (bool \<times> CTimeSeriesCached) option" where
  "WriteToCache T t diskpos ts =
     (if om_has (ts_mapCachePos ts) diskpos then Some (True, ts)
      else let nSize = word_of_nat (T_size T t) :: uint32 in do {
        ts1 \<leftarrow> VacateCache nSize ts;
        let s1 = cs_Write (Save_pos diskpos @ Save_uint nSize) (ts_cacheStream ts1);
        let nPos = GetWritePos s1;
        Some (True, ts1\<lparr>ts_cacheStream := cs_Write (T_save T t) s1, ts_mapCachePos := om_ins diskpos nPos (ts_mapCachePos ts1)\<rparr>) })"

definition ReadFromCache :: "'a ts_type \<Rightarrow> CDiskPos \<Rightarrow> CTimeSeriesCached \<Rightarrow> 'a option \<times> CTimeSeriesCached" where
  "ReadFromCache T diskpos ts =
     (case om_get (ts_mapCachePos ts) diskpos of
        None \<Rightarrow> (None, ts)
      | Some nPos \<Rightarrow>
          (case cs_Seek nPos (ts_cacheStream ts) of
             (False, s) \<Rightarrow> (None, ResetCache (ts\<lparr>ts_cacheStream := s\<rparr>))
           | (True, s) \<Rightarrow>
               (case cs_Load (T_load T) s of
                  (Some t, s1) \<Rightarrow> (Some t, ts\<lparr>ts_cacheStream := s1\<rparr>)
                | (None, s1) \<Rightarrow>
                    (case T_part T (fst (sgetn (showmanyc (cs_buf s)) (cs_buf s))) of
                       Some t \<Rightarrow> (Some t, ts\<lparr>ts_cacheStream := s1\<rparr>)
                     | None \<Rightarrow> (None, ResetCache (ts\<lparr>ts_cacheStream := s1\<rparr>))))))"

definition CacheOrReset :: "'a ts_type \<Rightarrow> 'a \<Rightarrow> CDiskPos \<Rightarrow> CTimeSeriesCached \<Rightarrow> CTimeSeriesCached option" where
  "CacheOrReset T t diskpos ts = do { (b, ts1) \<leftarrow> WriteToCache T t diskpos ts; Some (if b then ts1 else ResetCache ts1) }"

section \<open>CTimeSeriesCached\<close>

definition ts_new :: "CTimeSeriesCached option" where
  "ts_new = do {
     cs \<leftarrow> CWalleveCircularStream_new FILE_CACHE_SIZE;
     Some \<lparr>ts_files = [], ts_nLastFile = 0, ts_cacheStream = cs, ts_mapCachePos = []\<rparr> }"

text \<open>\<open>space\<close> is the free space of the file system of the directory.\<close>

definition CheckDiskSpace :: "nat \<Rightarrow> bool" where "CheckDiskSpace space \<longleftrightarrow> space > 15000000"

definition ts_Initialize :: "bool \<Rightarrow> nat \<Rightarrow> ts_files \<Rightarrow> CTimeSeriesCached \<Rightarrow> bool \<times> CTimeSeriesCached" where
  "ts_Initialize is_directory space fs ts =
     (if \<not> is_directory then (False, ts)
      else let ts1 = ts\<lparr>ts_files := fs, ts_nLastFile := 1\<rparr>
        in if \<not> CheckDiskSpace space then (False, ts1) else (True, ResetCache ts1))"

definition ts_Deinitialize :: "CTimeSeriesCached \<Rightarrow> CTimeSeriesCached" where
  "ts_Deinitialize ts = ResetCache ts"

definition ts_Write :: "'a ts_type \<Rightarrow> ts_env \<Rightarrow> 'a \<Rightarrow> bool \<Rightarrow> CTimeSeriesCached \<Rightarrow> (CDiskPos option \<times> CTimeSeriesCached) option" where
  "ts_Write T env t fWriteCache ts = do {
     (r, nLast, fs) \<leftarrow> GetLastFilePath env (ts_nLastFile ts) (ts_files ts);
     let ts1 = ts\<lparr>ts_files := fs, ts_nLastFile := nLast\<rparr>;
     case r of
       None \<Rightarrow> Some (None, ts1)
     | Some nFile \<Rightarrow> (case ts_append T env t nFile fs of (nOffset, fs') \<Rightarrow> do {
         let pos = CDiskPos nFile nOffset;
         let ts2 = ts\<lparr>ts_files := fs', ts_nLastFile := nLast\<rparr>;
         ts3 \<leftarrow> (if fWriteCache then CacheOrReset T t pos ts2 else Some ts2);
         Some (Some pos, ts3) }) }"

definition ts_Read :: "'a ts_type \<Rightarrow> CDiskPos \<Rightarrow> bool \<Rightarrow> CTimeSeriesCached \<Rightarrow> ('a option \<times> CTimeSeriesCached) option" where
  "ts_Read T pos fWriteCache ts =
     (case ReadFromCache T pos ts of
        (Some t, ts1) \<Rightarrow> Some (Some t, ts1)
      | (None, ts1) \<Rightarrow>
          (case ReadDirect T (pos_nFile pos) (pos_nOffset pos) (ts_files ts1) of
             None \<Rightarrow> Some (None, ts1)
           | Some t \<Rightarrow> do { ts2 \<leftarrow> (if fWriteCache then CacheOrReset T t pos ts1 else Some ts1); Some (Some t, ts2) }))"

text \<open>Walking the records of a file.  The stream reports the end of the file only after a read has met it.  One turn of the loop
  leaves it with the value of \<^verbatim>\<open>fRet\<close> and the offset, or goes on from the next record.\<close>

type_synonym ('a, 'w) ts_walker = "'a \<Rightarrow> uint32 \<Rightarrow> uint32 \<Rightarrow> 'w \<Rightarrow> bool \<times> 'w"

definition walk_load :: "'a ts_type \<Rightarrow> nat \<Rightarrow> bytes \<Rightarrow> ('a \<times> nat \<times> bool) option" where
  "walk_load T len s =
     (case T_load T s of
        Some (t, r) \<Rightarrow> Some (t, len - length r, False)
      | None \<Rightarrow> map_option (\<lambda>t. (t, len, True)) (T_part T s))"

definition walk_record ::
  "'a ts_type \<Rightarrow> ('a, 'w) ts_walker \<Rightarrow> uint32 \<Rightarrow> bytes \<Rightarrow> uint32 \<Rightarrow> nat \<Rightarrow> 'w \<Rightarrow> (bool \<times> uint32 \<times> 'w) + (uint32 \<times> nat \<times> 'w)" where
  "walk_record T walk nFile b nOffset at w =
     (let s = drop at b; nMagic = word_of_nat (le_val (take 4 s)) :: uint32; nSize = word_of_nat (le_val (take 4 (drop 4 s))) :: uint32
      in if length s < 8 then Inl (False, nOffset, w)
         else case walk_load T (length b) (drop 8 s) of
           None \<Rightarrow> Inl (False, nOffset, w)
         | Some (t, at', eof) \<Rightarrow>
             if nMagic \<noteq> nMagicNum \<or> (word_of_nat at' :: uint64) - ucast nOffset - 8 \<noteq> ucast nSize then Inl (False, nOffset, w)
             else (case walk t nFile (nOffset + 8) w of
                (False, w') \<Rightarrow> Inl (False, nOffset, w')
              | (True, w') \<Rightarrow> if eof then Inl (True, word_of_nat at', w') else Inr (word_of_nat at', at', w')))"

partial_function (option) walk_file :: "'a ts_type \<Rightarrow> ('a, 'w) ts_walker \<Rightarrow> uint32 \<Rightarrow> bytes \<Rightarrow> uint32 \<Rightarrow> nat \<Rightarrow> 'w \<Rightarrow> (bool \<times> uint32 \<times> 'w) option" where
  "walk_file T walk nFile b nOffset at w =
     (case walk_record T walk nFile b nOffset at w of
        Inl r \<Rightarrow> Some r
      | Inr x \<Rightarrow> walk_file T walk nFile b (fst x) (fst (snd x)) (snd (snd x)))"

partial_function (option) walk_files :: "'a ts_type \<Rightarrow> ('a, 'w) ts_walker \<Rightarrow> ts_files \<Rightarrow> uint32 \<Rightarrow> uint32 \<Rightarrow> uint32 \<Rightarrow> 'w \<Rightarrow> (bool \<times> uint32 \<times> uint32 \<times> 'w) option" where
  "walk_files T walk fs nFile nLastFileRet nOffset w =
     (if \<not> GetFilePath nFile fs then Some (True, nLastFileRet, nOffset, w)
      else Option.bind (walk_file T walk nFile (file_bytes fs nFile) 0 0 w) (\<lambda>(fRet, nOffset', w').
        if fRet then walk_files T walk fs (nFile + 1) nFile nOffset' w' else Some (False, nFile, nOffset', w')))"

definition ts_WalkThrough :: "'a ts_type \<Rightarrow> ('a, 'w) ts_walker \<Rightarrow> ts_files \<Rightarrow> 'w \<Rightarrow> (bool \<times> uint32 \<times> uint32 \<times> 'w) option" where
  "ts_WalkThrough T walk fs w = walk_files T walk fs 1 0 0 w"

section \<open>CTimeSeriesChunk\<close>

definition chunk_Write :: "'a ts_type \<Rightarrow> ts_env \<Rightarrow> 'a \<Rightarrow> CTimeSeriesBase \<Rightarrow> (CDiskPos option \<times> CTimeSeriesBase) option" where
  "chunk_Write T env t ts = do {
     (r, nLast, fs) \<leftarrow> GetLastFilePath env (ts_nLastFile ts) (ts_files ts);
     Some (case r of
       None \<Rightarrow> (None, ts\<lparr>ts_files := fs, ts_nLastFile := nLast\<rparr>)
     | Some nFile \<Rightarrow> (case ts_append T env t nFile fs of (nOffset, fs') \<Rightarrow>
         (Some (CDiskPos nFile nOffset), ts\<lparr>ts_files := fs', ts_nLastFile := nLast\<rparr>))) }"

text \<open>The inner loop of \<^verbatim>\<open>WriteBatch\<close>: at least one record, then as many as fit into the file.\<close>

fun batch_fill :: "'a ts_type \<Rightarrow> ts_env \<Rightarrow> uint32 \<Rightarrow> 'a list \<Rightarrow> ts_files \<Rightarrow> CDiskPos list \<Rightarrow> 'a list \<times> ts_files \<times> CDiskPos list" where
  "batch_fill T env nFile [] fs vPos = ([], fs, vPos)"
| "batch_fill T env nFile (t # ts) fs vPos =
     (case ts_append T env t nFile fs of (nOffset, fs') \<Rightarrow>
        (let vPos' = vPos @ [CDiskPos nFile nOffset]
         in if ts \<noteq> [] \<and> unat nOffset < MAX_FILE_SIZE - MAX_CHUNK_SIZE - 8 then batch_fill T env nFile ts fs' vPos' else (ts, fs', vPos')))"

partial_function (option) WriteBatch ::
  "'a ts_type \<Rightarrow> ts_env \<Rightarrow> 'a list \<Rightarrow> CDiskPos list \<Rightarrow> CTimeSeriesBase \<Rightarrow> (bool \<times> CDiskPos list \<times> CTimeSeriesBase) option" where
  "WriteBatch T env vBatch vPos ts =
     (if vBatch = [] then Some (True, vPos, ts)
      else Option.bind (GetLastFilePath env (ts_nLastFile ts) (ts_files ts)) (\<lambda>(r, nLast, fs).
        (case r of
           None \<Rightarrow> Some (False, vPos, ts\<lparr>ts_files := fs, ts_nLastFile := nLast\<rparr>)
         | Some nFile \<Rightarrow>
             (case batch_fill T env nFile vBatch fs vPos of (rest, fs', vPos') \<Rightarrow>
                WriteBatch T env rest vPos' (ts\<lparr>ts_files := fs', ts_nLastFile := nLast\<rparr>)))))"

definition chunk_Read :: "'a ts_type \<Rightarrow> CDiskPos \<Rightarrow> CTimeSeriesBase \<Rightarrow> 'a option" where
  "chunk_Read T pos ts = ReadDirect T (pos_nFile pos) (pos_nOffset pos) (ts_files ts)"

section \<open>File names\<close>

text \<open>Different numbers give different names, so that the directory is a map from numbers to contents.\<close>

definition digits_val :: "string \<Rightarrow> nat" where
  "digits_val d = foldl (\<lambda>a c. 10 * a + (of_char c - 48)) 0 d"

lemma digits_val_decimal: "digits_val (decimal n) = n"
proof (induction n rule: decimal.induct)
  case (1 n)
  have digit: "(of_char (char_of (48 + k) :: char) :: nat) - 48 = k" if "k < 10" for k :: nat
    using that by simp
  show ?case
  proof (cases "n < 10")
    case False
    then show ?thesis
      using 1 digit [of "n mod 10"] by (subst decimal.simps) (simp add: digits_val_def del: decimal.simps)
  qed (use digit [of n] in \<open>simp add: digits_val_def\<close>)
qed

lemma digits_val_zeros: "digits_val (replicate k (CHR ''0'') @ d) = digits_val d"
  unfolding digits_val_def by (induction k) simp_all

lemma FileName_inj: "FileName strPrefix a = FileName strPrefix b \<Longrightarrow> a = b"
proof -
  assume "FileName strPrefix a = FileName strPrefix b"
  then have "replicate (6 - length (decimal (unat a))) (CHR ''0'') @ decimal (unat a)
    = replicate (6 - length (decimal (unat b))) (CHR ''0'') @ decimal (unat b)"
    by (simp add: FileName_def Let_def del: decimal.simps)
  then have "unat a = unat b" by (metis digits_val_decimal digits_val_zeros)
  then show ?thesis by (rule word_unat_eq_iff [THEN iffD2])
qed

section \<open>Files only grow\<close>

interpretation pos: codec Save_pos Load_pos "\<lambda>_. 8" "\<lambda>_. True"
  by unfold_locales (simp_all add: Save_pos_def Load_pos_def u32.load_save length_Save_uint)

definition files_grow :: "ts_files \<Rightarrow> ts_files \<Rightarrow> bool" where
  "files_grow fs fs' \<longleftrightarrow> (\<forall>f b. om_get fs f = Some b \<longrightarrow> (\<exists>x. om_get fs' f = Some (b @ x)))"

lemma files_grow_refl [simp]: "files_grow fs fs"
  by (auto simp: files_grow_def)

lemma files_grow_trans: "files_grow a b \<Longrightarrow> files_grow b c \<Longrightarrow> files_grow a c"
  unfolding files_grow_def by (metis append.assoc)

lemma files_grow_append: "files_grow fs (om_set f (file_bytes fs f @ x) fs)"
  by (auto simp: files_grow_def omap_simps file_bytes_def split: option.splits)

lemma length_om_set: "length (om_set k v m) \<le> Suc (length m)"
  by (induction m) auto

definition last_file_found :: "ts_files \<Rightarrow> uint32 option \<times> uint32 \<times> ts_files \<Rightarrow> bool" where
  "last_file_found fs y \<longleftrightarrow> (case y of (r, n', fs') \<Rightarrow> files_grow fs fs' \<and> length fs' \<le> Suc (length fs) \<and>
     (\<forall>f. r = Some f \<longrightarrow> f = n' \<and> om_has fs' f \<and> length (file_bytes fs' f) < MAX_FILE_SIZE - MAX_CHUNK_SIZE - 8))"

lemma GetLastFilePath_result:
  assumes "GetLastFilePath env n fs = Some y"
  shows "last_file_found fs y"
proof (rule GetLastFilePath.raw_induct [where P = "\<lambda>env n fs y. last_file_found fs y", OF _ assms])
  fix rec and env :: ts_env and n :: uint32 and fs :: ts_files and y :: "uint32 option \<times> uint32 \<times> ts_files"
  assume ih: "\<And>env n fs y. rec env n fs = Some y \<Longrightarrow> last_file_found fs y"
    and eq: "(if \<not> om_has fs n \<and> \<not> env_fopen env fs n then Some (None, n, fs)
      else let fs1 = (if om_has fs n then fs else om_set n [] fs)
        in if length (file_bytes fs1 n) < MAX_FILE_SIZE - MAX_CHUNK_SIZE - 8 then Some (Some n, n, fs1) else rec env (n + 1) fs1) = Some y"
  let ?fs1 = "if om_has fs n then fs else om_set n [] fs"
  have g: "files_grow fs ?fs1" by (auto simp: files_grow_def omap_simps om_has_def)
  have h: "om_has ?fs1 n" by (simp add: om_has_def omap_simps)
  have l: "length ?fs1 \<le> Suc (length fs)" by (simp add: length_om_set)
  note eq' = eq [unfolded Let_def]
  show "last_file_found fs y"
  proof (cases "\<not> om_has fs n \<and> \<not> env_fopen env fs n")
    case True
    then have "y = (None, n, fs)" using eq' by simp
    then show ?thesis by (simp add: last_file_found_def)
  next
    case False
    note eq2 = eq' [unfolded if_not_P [OF False]]
    show ?thesis
    proof (cases "length (file_bytes ?fs1 n) < MAX_FILE_SIZE - MAX_CHUNK_SIZE - 8")
      case True
      then have "y = (Some n, n, ?fs1)" using eq2 by (simp only: if_True option.inject)
      then show ?thesis unfolding last_file_found_def using True g h l by simp
    next
      case False
      then have y: "last_file_found ?fs1 y" using eq2 by (intro ih) (simp only: if_False)
      have "length (file_bytes (om_set n [] fs) n) = 0" by (simp add: file_bytes_def omap_simps)
      then have "?fs1 = fs" using False by (auto simp: MAX_FILE_SIZE_def MAX_CHUNK_SIZE_def)
      then show ?thesis using y by simp
    qed
  qed
qed

text \<open>A file that is missing or not full is reached from the last one used.\<close>

lemma GetLastFilePath_ends:
  assumes "length (file_bytes fs (n + word_of_nat k)) < MAX_FILE_SIZE - MAX_CHUNK_SIZE - 8"
  shows "GetLastFilePath env n fs \<noteq> None"
  using assms
proof (induction k arbitrary: n fs)
  case 0
  then show ?case by (subst GetLastFilePath.simps) (auto simp: Let_def file_bytes_def omap_simps MAX_FILE_SIZE_def MAX_CHUNK_SIZE_def)
next
  case (Suc k)
  let ?fs1 = "if om_has fs n then fs else om_set n [] fs"
  have "file_bytes ?fs1 x = file_bytes fs x" for x by (auto simp: file_bytes_def omap_simps om_has_def)
  moreover have "n + 1 + word_of_nat k = n + word_of_nat (Suc k)" by (simp add: add.assoc)
  ultimately have "GetLastFilePath env (n + 1) ?fs1 \<noteq> None" using Suc.prems by (intro Suc.IH) (simp only:)
  then show ?case by (subst GetLastFilePath.simps) (cases "om_has fs n", simp_all add: Let_def)
qed

lemma GetLastFilePath_opens:
  assumes "GetLastFilePath env n fs = Some y" "\<forall>fs f. env_fopen env fs f"
  shows "fst y \<noteq> None"
proof -
  have "(\<forall>fs f. env_fopen env fs f) \<longrightarrow> fst y \<noteq> None"
    by (rule GetLastFilePath.raw_induct [where P = "\<lambda>env n fs y. (\<forall>fs f. env_fopen env fs f) \<longrightarrow> fst y \<noteq> None", OF _ assms(1)])
      (auto simp: Let_def split: if_splits)
  then show ?thesis using assms(2) by blast
qed

lemma some_file_missing:
  assumes "length (fs :: ts_files) < 2 ^ 32"
  obtains f where "om_get fs f = None"
proof -
  have "card (dom (om_get fs)) \<le> length fs"
    using card_length [of "map fst fs"] by (simp add: dom_om_get)
  moreover have "card (UNIV :: uint32 set) = 2 ^ 32" by (simp add: card_word)
  ultimately have "dom (om_get fs) \<noteq> UNIV" using assms by auto
  then show thesis using that by (auto simp: dom_def)
qed

lemma GetLastFilePath_total:
  assumes "length fs < 2 ^ 32"
  shows "GetLastFilePath env n fs \<noteq> None"
proof -
  obtain f where f: "om_get fs f = None" by (rule some_file_missing [OF assms])
  have "n + word_of_nat (unat (f - n)) = f" by simp
  then have "length (file_bytes fs (n + word_of_nat (unat (f - n)))) < MAX_FILE_SIZE - MAX_CHUNK_SIZE - 8"
    using f by (simp add: file_bytes_def MAX_FILE_SIZE_def MAX_CHUNK_SIZE_def)
  then show ?thesis by (rule GetLastFilePath_ends)
qed

section \<open>Records in files\<close>

text \<open>The value \<open>t\<close> is stored at a position when its bytes are in the file from there on.\<close>

definition ts_written :: "'a ts_type \<Rightarrow> ts_files \<Rightarrow> CDiskPos \<Rightarrow> 'a \<Rightarrow> bool" where
  "ts_written T fs pos t \<longleftrightarrow> (\<exists>pre post. om_get fs (pos_nFile pos) = Some (pre @ T_save T t @ post) \<and> length pre = unat (pos_nOffset pos))"

definition env_ok :: "ts_env \<Rightarrow> bool" where
  "env_ok env \<longleftrightarrow> (\<forall>fs f. env_fopen env fs f) \<and> (\<forall>fs r. length r \<le> env_accept env fs r)"

lemma ts_written_grow: "ts_written T fs pos t \<Longrightarrow> files_grow fs fs' \<Longrightarrow> ts_written T fs' pos t"
  unfolding ts_written_def files_grow_def by (metis append.assoc)

lemma ts_append_grow: "ts_append T env t f fs = (n, fs') \<Longrightarrow> files_grow fs fs'"
  using files_grow_append by (auto simp: ts_append_def Let_def)

lemma ts_append_written:
  assumes "ts_append T env t f fs = (n, fs')" and "env_ok env" and "length (file_bytes fs f) + 8 < 2 ^ 32"
  shows "ts_written T fs' (CDiskPos f n) t"
proof -
  let ?b = "file_bytes fs f" and ?h = "Save_uint nMagicNum @ Save_uint (word_of_nat (T_size T t) :: uint32)"
  have "unat (word_of_nat (length ?b + 8) :: uint32) = length ?b + 8" using assms(3) by (simp only: unat_of_nat) simp
  then have n: "unat n = length (?b @ ?h)"
    using assms(1) by (auto simp: ts_append_def Let_def length_Save_uint)
  have "take (env_accept env fs r) r = r" for r using assms(2) by (simp add: env_ok_def)
  then have "om_get fs' f = Some (?b @ ts_record T t)" using assms(1) by (auto simp: ts_append_def Let_def omap_simps)
  then have "om_get fs' f = Some ((?b @ ?h) @ T_save T t @ [])" by (simp add: ts_record_def)
  then show ?thesis unfolding ts_written_def using n by (intro exI [of _ "?b @ ?h"] exI [of _ "[]"]) simp
qed

text \<open>The cache holds a sequence of entries, oldest first, each with its position, its size and its bytes; the map gives for each
  entry the place of its bytes in the ring.\<close>

definition cache_entry :: "'a ts_type \<Rightarrow> CDiskPos \<times> 'a \<Rightarrow> bytes" where
  "cache_entry T e = Save_pos (fst e) @ Save_uint (word_of_nat (T_size T (snd e)) :: uint32) @ T_save T (snd e)"

fun cache_places :: "'a ts_type \<Rightarrow> nat \<Rightarrow> nat \<Rightarrow> (CDiskPos \<times> 'a) list \<Rightarrow> (CDiskPos \<times> nat) list" where
  "cache_places T n b [] = []"
| "cache_places T n b (e # es) = (fst e, (b + nHdrSize) mod n) # cache_places T n (b + length (cache_entry T e)) es"

definition cache_rel :: "'a ts_type \<Rightarrow> ('a \<Rightarrow> bool) \<Rightarrow> (CDiskPos \<Rightarrow> 'a \<Rightarrow> bool) \<Rightarrow> (CDiskPos \<times> 'a) list \<Rightarrow> CTimeSeriesCached \<Rightarrow> bool" where
  "cache_rel T ok W es ts \<longleftrightarrow> cs_ok (ts_cacheStream ts) \<and> cs_held (ts_cacheStream ts) = concat (map (cache_entry T) es) \<and>
     om_get (ts_mapCachePos ts) = map_of (cache_places T (cs_places (ts_cacheStream ts)) (cs_base (ts_cacheStream ts)) es) \<and>
     distinct (map fst es) \<and> (\<forall>e \<in> set es. ok (snd e) \<and> W (fst e) (snd e))"

text \<open>The invariant of a \<^verbatim>\<open>CTimeSeriesCached\<close>: the cache is a sequence of entries, each of a value that
  \<open>W\<close> allows at its position.\<close>

definition ts_inv :: "'a ts_type \<Rightarrow> ('a \<Rightarrow> bool) \<Rightarrow> (CDiskPos \<Rightarrow> 'a \<Rightarrow> bool) \<Rightarrow> nat \<Rightarrow> CTimeSeriesCached \<Rightarrow> bool" where
  "ts_inv T ok W n ts \<longleftrightarrow> (\<exists>es. cache_rel T ok W es ts) \<and> cs_places (ts_cacheStream ts) = n"

lemma cache_places_dom: "map fst (cache_places T n b es) = map fst es"
  by (induction es arbitrary: b) auto

lemma cache_places_mod: "cache_places T n (b mod n) es = cache_places T n b es"
proof (induction es arbitrary: b)
  case (Cons e es)
  have "cache_places T n (b mod n + k) es = cache_places T n (b + k) es" for k
    by (metis Cons.IH mod_add_left_eq)
  then show ?case by (simp add: mod_add_left_eq)
qed simp

lemma cache_places_append:
  "cache_places T n b (es @ fs) = cache_places T n b es @ cache_places T n (b + length (concat (map (cache_entry T) es))) fs"
  by (induction es arbitrary: b) (auto simp: add.assoc)

lemma cache_places_find:
  assumes "map_of (cache_places T n b es) p = Some k"
  obtains es1 t es2 where "es = es1 @ (p, t) # es2" "k = (b + length (concat (map (cache_entry T) es1)) + nHdrSize) mod n"
proof -
  have "p \<in> set (map fst (cache_places T n b es))" using assms by (metis map_of_eq_None_iff list.set_map option.distinct(1))
  then have "p \<in> set (map fst es)" by (simp only: cache_places_dom)
  then obtain es1 t es2 where es: "es = es1 @ (p, t) # es2" and new: "p \<notin> set (map fst es1)"
    using split_list_first [of p "map fst es"] by (fastforce simp: map_eq_append_conv map_eq_Cons_conv)
  have "map_of (cache_places T n b es1) p = None"
    using new by (metis cache_places_dom list.set_map map_of_eq_None_iff)
  then have "k = (b + length (concat (map (cache_entry T) es1)) + nHdrSize) mod n"
    using assms unfolding es cache_places_append by (simp add: map_add_def)
  then show thesis using that es by blast
qed

lemma unat_uint32_mod: "unat (x :: uint32) mod 4294967296 = unat x"
proof -
  have "unat x < 2 ^ 32" using unsigned_less [of x] by simp
  then show ?thesis by simp
qed

locale record_type = codec "T_save T" "T_load T" "T_size T" ok for T :: "'a ts_type" and ok :: "'a \<Rightarrow> bool" +
  assumes size32: "ok t \<Longrightarrow> T_size T t < 2 ^ 32"
begin

lemma ReadDirect_written:
  assumes "ok t" "ts_written T fs pos t"
  shows "ReadDirect T (pos_nFile pos) (pos_nOffset pos) fs = Some t"
  using assms load_save by (auto simp: ReadDirect_def GetFilePath_def ts_written_def om_has_def file_bytes_def T_read_def)

lemma written_unique: "ok t \<Longrightarrow> ok u \<Longrightarrow> ts_written T fs pos t \<Longrightarrow> ts_written T fs pos u \<Longrightarrow> t = u"
  using ReadDirect_written [of t fs pos] ReadDirect_written [of u fs pos] by simp

lemma length_entry: "ok (snd e) \<Longrightarrow> length (cache_entry T e) = nHdrSize + T_size T (snd e)"
  by (simp add: cache_entry_def pos.save_size length_Save_uint save_size nHdrSize_def)

lemma header_entry: "ok (snd e) \<Longrightarrow> cache_header (take nHdrSize (cache_entry T e @ r)) = (fst e, word_of_nat (T_size T (snd e)))"
  using size32 [of "snd e"] unat_uint32_mod
  by (cases "fst e") (simp add: cache_header_def cache_entry_def nHdrSize_def Save_pos_def Save_uint_def sizeof_uint_def unat_of_nat)

lemma cache_rel_Cons:
  assumes rel: "cache_rel T ok W (e # es) ts" and s: "cs_ok s" "cs_held s = cs_held (ts_cacheStream ts)"
    "cs_base s = cs_base (ts_cacheStream ts)" "cs_places s = cs_places (ts_cacheStream ts)"
  shows "cache_rel T ok W es (ts\<lparr>ts_mapCachePos := om_del (fst e) (ts_mapCachePos ts),
    ts_cacheStream := cs_Consume (T_size T (snd e) + nHdrSize) s\<rparr>)"
proof -
  let ?n = "cs_places s" and ?l = "length (cache_entry T e)" and ?s = "cs_Consume (T_size T (snd e) + nHdrSize) s"
  have e: "ok (snd e)" using rel by (simp add: cache_rel_def)
  have held: "cs_held s = cache_entry T e @ concat (map (cache_entry T) es)" using rel s(2) by (simp add: cache_rel_def)
  have l: "T_size T (snd e) + nHdrSize = ?l" using length_entry [OF e] by simp
  have ok: "cs_ok ?s \<and> cs_held ?s = drop ?l (cs_held s) \<and> cs_places ?s = ?n" using cs.discard_ok [OF s(1)] l by simp
  have base: "cs_base ?s = (cs_base s + ?l) mod ?n" using cs.discard_base [OF s(1), of ?l] held l by simp
  have get: "om_get (ts_mapCachePos ts) = (map_of (cache_places T ?n (cs_base s + ?l) es))(fst e \<mapsto> (cs_base s + nHdrSize) mod ?n)"
    using rel s(3,4) by (simp add: cache_rel_def fun_eq_iff)
  have "fst e \<notin> set (map fst (cache_places T ?n (cs_base s + ?l) es))"
    unfolding cache_places_dom using rel by (simp add: cache_rel_def)
  then have new: "map_of (cache_places T ?n (cs_base s + ?l) es) (fst e) = None" by (simp add: map_of_eq_None_iff)
  have places: "cache_places T (cs_places ?s) (cs_base ?s) es = cache_places T ?n (cs_base s + ?l) es"
    using ok base by (simp only: cache_places_mod)
  have map: "om_get (om_del (fst e) (ts_mapCachePos ts)) = map_of (cache_places T (cs_places ?s) (cs_base ?s) es)"
    unfolding om_get_del get places fun_upd_upd using new by (rule fun_upd_idem)
  have rest: "cs_held ?s = concat (map (cache_entry T) es)" using ok held by simp
  show ?thesis unfolding cache_rel_def using rel [unfolded cache_rel_def] ok map rest by simp
qed

lemma cs_Read_entry:
  assumes rel: "cache_rel T ok W (e # es) ts"
  obtains h s where "cs_Read nHdrSize (cs_Rewind (ts_cacheStream ts)) = (h, s)" "cache_header h = (fst e, word_of_nat (T_size T (snd e)))"
    "cs_ok s" "cs_held s = cs_held (ts_cacheStream ts)" "cs_base s = cs_base (ts_cacheStream ts)" "cs_places s = cs_places (ts_cacheStream ts)"
proof -
  let ?r = "cs_Rewind (ts_cacheStream ts)"
  have e: "ok (snd e)" using rel by (simp add: cache_rel_def)
  have rw: "cs_ok ?r \<and> cs_held ?r = cs_held (ts_cacheStream ts) \<and> cs_base ?r = cs_base (ts_cacheStream ts) \<and>
      cs_places ?r = cs_places (ts_cacheStream ts) \<and> cs_pending ?r = cs_held (ts_cacheStream ts)"
    using rel by (intro cs.rewind_ok) (simp add: cache_rel_def)
  have pend: "cb_pending (cs_buf ?r) = cache_entry T e @ concat (map (cache_entry T) es)"
    using rw rel by (simp add: cache_rel_def cs_pending_def)
  have "nHdrSize \<le> length (cb_pending (cs_buf ?r))" unfolding pend using length_entry [OF e] by simp
  then obtain cb where cb: "sgetn nHdrSize (cs_buf ?r) = (take nHdrSize (cb_pending (cs_buf ?r)), cb)" "cb_same (cs_buf ?r) cb"
    "cb_begin cb = cb_begin (cs_buf ?r)" "cb_held cb = cb_held (cs_buf ?r)"
    using sgetn_pending [of "cs_buf ?r" nHdrSize] rw by (auto simp: cs_ok_def)
  let ?h = "take nHdrSize (cache_entry T e @ concat (map (cache_entry T) es))" and ?s = "\<lparr>cs_buf = cb, cs_good = True\<rparr>"
  have len: "length ?h = nHdrSize" using length_entry [OF e] by simp
  have "cs_Read nHdrSize ?r = (?h, ?s)"
    using cb(1) rw len unfolding pend by (simp add: cs_Read_def cs_ok_def)
  then show thesis using that [of ?h ?s] header_entry [OF e] cb(2-4) rw by (simp add: cs_defs cb_same_def)
qed

lemma VacateCache_room:
  assumes "cache_rel T ok W es ts" and "unat nNeeded + nHdrSize < cs_places (ts_cacheStream ts)"
  shows "\<exists>k ts'. VacateCache nNeeded ts = Some ts' \<and> cache_rel T ok W (drop k es) ts' \<and> ts_files ts' = ts_files ts \<and>
    ts_nLastFile ts' = ts_nLastFile ts \<and> cs_places (ts_cacheStream ts') = cs_places (ts_cacheStream ts) \<and>
    unat nNeeded + nHdrSize \<le> GetBufFreeSpace (ts_cacheStream ts')"
  using assms
proof (induction es arbitrary: ts)
  case Nil
  then have "GetBufFreeSpace (ts_cacheStream ts) + 1 = cs_places (ts_cacheStream ts)"
    using cs.room_held [of "ts_cacheStream ts"] by (simp add: cache_rel_def)
  then have "VacateCache nNeeded ts = Some ts" using Nil.prems(2) by (subst VacateCache.simps) simp
  then show ?case using Nil.prems \<open>GetBufFreeSpace (ts_cacheStream ts) + 1 = _\<close> by (intro exI [of _ 0]) simp
next
  case (Cons e es)
  show ?case
  proof (cases "GetBufFreeSpace (ts_cacheStream ts) < unat nNeeded + nHdrSize")
    case False
    then have "VacateCache nNeeded ts = Some ts" by (subst VacateCache.simps) simp
    then show ?thesis using Cons.prems False by (intro exI [of _ 0]) simp
  next
    case True
    obtain h s where h: "cs_Read nHdrSize (cs_Rewind (ts_cacheStream ts)) = (h, s)" "cache_header h = (fst e, word_of_nat (T_size T (snd e)))"
      and s: "cs_ok s" "cs_held s = cs_held (ts_cacheStream ts)" "cs_base s = cs_base (ts_cacheStream ts)" "cs_places s = cs_places (ts_cacheStream ts)"
      by (rule cs_Read_entry [OF Cons.prems(1)])
    let ?ts = "ts\<lparr>ts_mapCachePos := om_del (fst e) (ts_mapCachePos ts), ts_cacheStream := cs_Consume (T_size T (snd e) + nHdrSize) s\<rparr>"
    have u: "unat (word_of_nat (T_size T (snd e)) :: uint32) = T_size T (snd e)"
      using size32 [of "snd e"] Cons.prems(1) by (simp add: cache_rel_def unat_of_nat)
    have step: "VacateCache nNeeded ts = VacateCache nNeeded ?ts"
      using True h u by (subst VacateCache.simps) simp
    have rel: "cache_rel T ok W es ?ts" by (rule cache_rel_Cons [OF Cons.prems(1) s])
    have pl: "cs_places (ts_cacheStream ?ts) = cs_places (ts_cacheStream ts)" using cs.discard_ok [OF s(1)] s(4) by simp
    from Cons.IH [OF rel] Cons.prems(2) pl obtain k ts' where "VacateCache nNeeded ?ts = Some ts' \<and> cache_rel T ok W (drop k es) ts' \<and>
      ts_files ts' = ts_files ts \<and> ts_nLastFile ts' = ts_nLastFile ts \<and> cs_places (ts_cacheStream ts') = cs_places (ts_cacheStream ts) \<and>
      unat nNeeded + nHdrSize \<le> GetBufFreeSpace (ts_cacheStream ts')" by auto
    then show ?thesis unfolding step by (intro exI [of _ "Suc k"] exI [of _ ts']) simp
  qed
qed

lemma cache_rel_snoc:
  assumes rel: "cache_rel T ok W es ts" and new: "p \<notin> set (map fst es)" and t: "ok t" "W p t"
    and room: "T_size T t + nHdrSize \<le> GetBufFreeSpace (ts_cacheStream ts)"
  defines "s1 \<equiv> cs_Write (Save_pos p @ Save_uint (word_of_nat (T_size T t) :: uint32)) (ts_cacheStream ts)"
  defines "ts' \<equiv> ts\<lparr>ts_cacheStream := cs_Write (T_save T t) s1, ts_mapCachePos := om_ins p (GetWritePos s1) (ts_mapCachePos ts)\<rparr>"
  shows "cache_rel T ok W (es @ [(p, t)]) ts'" and "cs_places (ts_cacheStream ts') = cs_places (ts_cacheStream ts)"
proof -
  let ?s = "ts_cacheStream ts" and ?h = "Save_pos p @ Save_uint (word_of_nat (T_size T t) :: uint32)" and ?s2 = "cs_Write (T_save T t) s1"
  let ?n = "cs_places ?s" and ?b = "cs_base ?s"
  have ok: "cs_ok ?s" and held: "cs_held ?s = concat (map (cache_entry T) es)" using rel by (simp_all add: cache_rel_def)
  have h: "length ?h = nHdrSize" by (simp add: pos.save_size length_Save_uint nHdrSize_def)
  have 1: "cs_ok s1 \<and> cs_held s1 = cs_held ?s @ ?h \<and> cs_base s1 = ?b \<and> cs_places s1 = ?n"
    unfolding s1_def using room h by (intro cs.put_ok [OF ok]) simp
  have "length (T_save T t) \<le> GetBufFreeSpace s1"
    using cs.room_held [of s1] cs.room_held [OF ok] 1 room h save_size [OF t(1)] by simp
  then have 2: "cs_ok ?s2 \<and> cs_held ?s2 = cs_held s1 @ T_save T t \<and> cs_base ?s2 = ?b \<and> cs_places ?s2 = ?n"
    using 1 cs.put_ok [of s1 "T_save T t"] by simp
  have wpos: "GetWritePos s1 = (?b + length (cs_held ?s) + nHdrSize) mod ?n"
    using cs.wpos_held [of s1] 1 h by (simp add: add.assoc)
  have get: "om_get (ts_mapCachePos ts) = map_of (cache_places T ?n ?b es)" using rel by (simp add: cache_rel_def)
  have "p \<notin> set (map fst (cache_places T ?n ?b es))" using new by (simp only: cache_places_dom not_False_eq_True)
  then have none: "om_get (ts_mapCachePos ts) p = None" unfolding get by (simp add: map_of_eq_None_iff)
  have "om_get (om_ins p (GetWritePos s1) (ts_mapCachePos ts)) = (map_of (cache_places T ?n ?b es))(p \<mapsto> GetWritePos s1)"
    using none get by (simp add: om_get_ins om_has_def fun_eq_iff)
  also have "\<dots> = map_of (cache_places T ?n ?b (es @ [(p, t)]))"
    using none get wpos held by (auto simp: cache_places_append map_add_def fun_eq_iff split: option.splits)
  finally have map: "om_get (om_ins p (GetWritePos s1) (ts_mapCachePos ts)) = map_of (cache_places T ?n ?b (es @ [(p, t)]))" .
  have held2: "cs_held ?s2 = concat (map (cache_entry T) (es @ [(p, t)]))" using 1 2 held by (simp add: cache_entry_def)
  show "cache_rel T ok W (es @ [(p, t)]) ts'"
    unfolding cache_rel_def using rel [unfolded cache_rel_def] 2 map held2 t new by (simp add: ts'_def)
  show "cs_places (ts_cacheStream ts') = ?n" using 2 by (simp add: ts'_def)
qed

lemma cache_rel_known:
  assumes "cache_rel T ok W es ts"
  shows "om_has (ts_mapCachePos ts) p \<longleftrightarrow> p \<in> set (map fst es)"
proof -
  have "om_has (ts_mapCachePos ts) p \<longleftrightarrow> p \<in> set (map fst (cache_places T (cs_places (ts_cacheStream ts)) (cs_base (ts_cacheStream ts)) es))"
    using assms by (simp add: cache_rel_def om_has_iff dom_om_get)
  then show ?thesis unfolding cache_places_dom .
qed

lemma WriteToCache_ok:
  assumes "ts_inv T ok W n ts" and t: "ok t" "W p t" and sz: "T_size T t + nHdrSize < n"
  shows "\<exists>ts'. WriteToCache T t p ts = Some (True, ts') \<and> ts_inv T ok W n ts' \<and> ts_files ts' = ts_files ts \<and> ts_nLastFile ts' = ts_nLastFile ts"
proof -
  from assms(1) obtain es where rel: "cache_rel T ok W es ts" and n: "cs_places (ts_cacheStream ts) = n" by (auto simp: ts_inv_def)
  let ?z = "word_of_nat (T_size T t) :: uint32"
  have u: "unat ?z = T_size T t" using size32 [OF t(1)] by (simp add: unat_of_nat)
  show ?thesis
  proof (cases "om_has (ts_mapCachePos ts) p")
    case True
    then show ?thesis using assms(1) by (simp add: WriteToCache_def)
  next
    case False
    then have new: "p \<notin> set (map fst es)" using cache_rel_known [OF rel] by simp
    obtain k ts1 where v: "VacateCache ?z ts = Some ts1" "cache_rel T ok W (drop k es) ts1" "ts_files ts1 = ts_files ts"
      "ts_nLastFile ts1 = ts_nLastFile ts" "cs_places (ts_cacheStream ts1) = n" "T_size T t + nHdrSize \<le> GetBufFreeSpace (ts_cacheStream ts1)"
      using VacateCache_room [OF rel, of ?z] u n sz by auto
    have new1: "p \<notin> set (map fst (drop k es))" using new by (auto dest: in_set_dropD)
    note S = cache_rel_snoc [OF v(2) new1 t v(6)]
    show ?thesis
      using False v(1,3,4,5) S by (auto simp: WriteToCache_def ts_inv_def Let_def)
  qed
qed

lemma ReadFromCache_ok:
  assumes inv: "ts_inv T ok W n ts"
  shows "(om_get (ts_mapCachePos ts) p = None \<and> ReadFromCache T p ts = (None, ts)) \<or>
    (\<exists>t ts'. ReadFromCache T p ts = (Some t, ts') \<and> ok t \<and> W p t \<and> ts_inv T ok W n ts' \<and>
      ts_files ts' = ts_files ts \<and> ts_nLastFile ts' = ts_nLastFile ts)"
proof (cases "om_get (ts_mapCachePos ts) p")
  case None
  then show ?thesis by (simp add: ReadFromCache_def)
next
  case (Some k)
  from inv obtain es where rel: "cache_rel T ok W es ts" and n: "cs_places (ts_cacheStream ts) = n" by (auto simp: ts_inv_def)
  let ?s = "ts_cacheStream ts"
  have ok: "cs_ok ?s" and held: "cs_held ?s = concat (map (cache_entry T) es)"
    and get: "map_of (cache_places T (cs_places ?s) (cs_base ?s) es) p = Some k"
    using rel Some by (simp_all add: cache_rel_def)
  obtain es1 t es2 where es: "es = es1 @ (p, t) # es2" and k: "k = (cs_base ?s + length (concat (map (cache_entry T) es1)) + nHdrSize) mod cs_places ?s"
    by (rule cache_places_find [OF get])
  have t: "ok t" "W p t" using rel es by (auto simp: cache_rel_def)
  let ?h = "Save_pos p @ Save_uint (word_of_nat (T_size T t) :: uint32)" and ?post = "concat (map (cache_entry T) es2)"
  let ?pre = "concat (map (cache_entry T) es1) @ ?h"
  have split: "cs_held ?s = ?pre @ T_save T t @ ?post" using held es by (simp add: cache_entry_def)
  have "length ?h = nHdrSize" by (simp add: pos.save_size length_Save_uint nHdrSize_def)
  then have k': "k = (cs_base ?s + length ?pre) mod cs_places ?s" using k by (simp add: add.assoc)
  obtain s1 where s1: "cs_Seek k ?s = (True, s1)" "cs_ok s1" "cs_held s1 = cs_held ?s" "cs_base s1 = cs_base ?s"
    "cs_places s1 = cs_places ?s" "cs_pending s1 = T_save T t @ ?post"
    using cs.find_piece [OF ok split] unfolding k' .
  have ld: "T_load T (cs_pending s1) = Some (t, ?post)" unfolding s1(6) by (rule load_save [OF t(1)])
  obtain s2 where s2: "cs_Load (T_load T) s1 = (Some t, s2)" "cs_ok s2" "cs_held s2 = cs_held s1" "cs_base s2 = cs_base s1" "cs_places s2 = cs_places s1"
    using cs_Load_ok [where ld = "T_load T" and s = s1 and x = t and r = ?post] s1(2,6) ld by auto
  have "cache_rel T ok W es (ts\<lparr>ts_cacheStream := s2\<rparr>)" using rel s1 s2 by (simp add: cache_rel_def)
  moreover have "ReadFromCache T p ts = (Some t, ts\<lparr>ts_cacheStream := s2\<rparr>)" using Some s1(1) s2(1) by (simp add: ReadFromCache_def)
  ultimately show ?thesis using t n s1(5) s2(5) by (auto simp: ts_inv_def)
qed

lemma ResetCache_inv: "ts_inv T ok W n ts \<Longrightarrow> ts_inv T ok W n (ResetCache ts)"
proof -
  assume "ts_inv T ok W n ts"
  then have wf: "cb_wf (cs_buf (ts_cacheStream ts))" and n: "cs_places (ts_cacheStream ts) = n"
    by (auto simp: ts_inv_def cache_rel_def cs_ok_def)
  let ?c = "consume (cb_size (cs_buf (ts_cacheStream ts))) (cs_buf (ts_cacheStream ts))"
  have "cb_wf ?c \<and> cb_held ?c = [] \<and> cb_buf_size ?c = cb_buf_size (cs_buf (ts_cacheStream ts))"
    using consume_bytes [OF wf, of "cb_size (cs_buf (ts_cacheStream ts))"] by (simp add: cb_same_def flip: length_held)
  then have "cache_rel T ok W [] (ResetCache ts)" by (simp add: cache_rel_def ResetCache_def cs_Clear_def cs_defs)
  then show ?thesis
    using n \<open>cb_wf ?c \<and> _\<close> unfolding ts_inv_def by (auto simp: ResetCache_def cs_Clear_def cs_places_def)
qed

lemma CacheOrReset_ok:
  assumes "ts_inv T ok W n ts" "ok t" "W p t" "T_size T t + nHdrSize < n"
  obtains ts' where "CacheOrReset T t p ts = Some ts'" "ts_inv T ok W n ts'" "ts_files ts' = ts_files ts" "ts_nLastFile ts' = ts_nLastFile ts"
  using WriteToCache_ok [OF assms] that by (auto simp: CacheOrReset_def)

lemma ts_Read_written:
  assumes inv: "ts_inv T ok (ts_written T (ts_files ts)) n ts" and t: "ok t" "ts_written T (ts_files ts) p t" and sz: "T_size T t + nHdrSize < n"
  obtains ts' where "ts_Read T p c ts = Some (Some t, ts')" "ts_inv T ok (ts_written T (ts_files ts')) n ts'" "ts_files ts' = ts_files ts" "ts_nLastFile ts' = ts_nLastFile ts"
  using ReadFromCache_ok [OF inv, of p]
proof (elim disjE exE conjE)
  assume none: "ReadFromCache T p ts = (None, ts)"
  obtain ts' where "CacheOrReset T t p ts = Some ts'" "ts_inv T ok (ts_written T (ts_files ts)) n ts'" "ts_files ts' = ts_files ts" "ts_nLastFile ts' = ts_nLastFile ts"
    by (rule CacheOrReset_ok [OF inv t sz])
  then show thesis
    using none ReadDirect_written [OF t] inv by (cases c) (intro that [of ts'] that [of ts]; simp add: ts_Read_def)+
next
  fix u ts'
  assume "ReadFromCache T p ts = (Some u, ts')" "ok u" "ts_written T (ts_files ts) p u" "ts_inv T ok (ts_written T (ts_files ts)) n ts'" "ts_files ts' = ts_files ts"
    "ts_nLastFile ts' = ts_nLastFile ts"
  moreover from this have "u = t" using written_unique [OF _ t(1) _ t(2)] by simp
  ultimately show thesis by (intro that [of ts']) (simp_all add: ts_Read_def)
qed

lemma ts_inv_grow:
  assumes "ts_inv T ok (ts_written T (ts_files ts)) n ts" "files_grow (ts_files ts) fs"
  shows "ts_inv T ok (ts_written T fs) n (ts\<lparr>ts_files := fs, ts_nLastFile := m\<rparr>)"
  using assms ts_written_grow [OF _ assms(2)] unfolding ts_inv_def cache_rel_def by fastforce

lemma ts_Write_written:
  assumes inv: "ts_inv T ok (ts_written T (ts_files ts)) n ts" and t: "ok t" and sz: "T_size T t + nHdrSize < n" and env: "env_ok env"
    and w: "ts_Write T env t c ts = Some (r, ts')"
  shows "ts_inv T ok (ts_written T (ts_files ts')) n ts' \<and> files_grow (ts_files ts) (ts_files ts') \<and> (\<forall>p. r = Some p \<longrightarrow> ts_written T (ts_files ts') p t)"
proof -
  obtain y where y: "GetLastFilePath env (ts_nLastFile ts) (ts_files ts) = Some y"
    using w by (cases "GetLastFilePath env (ts_nLastFile ts) (ts_files ts)") (simp_all add: ts_Write_def)
  obtain q m fs where yq: "y = (q, m, fs)" by (cases y)
  have found: "files_grow (ts_files ts) fs" "\<And>f. q = Some f \<Longrightarrow> length (file_bytes fs f) < MAX_FILE_SIZE - MAX_CHUNK_SIZE - 8"
    using GetLastFilePath_result [OF y] by (simp_all add: yq last_file_found_def)
  show ?thesis
  proof (cases q)
    case None
    then show ?thesis using w y ts_inv_grow [OF inv found(1)] found(1) by (auto simp: ts_Write_def yq)
  next
    case (Some f)
    obtain o' fs' where a: "ts_append T env t f fs = (o', fs')" by (cases "ts_append T env t f fs")
    let ?ts2 = "ts\<lparr>ts_files := fs', ts_nLastFile := m\<rparr>" and ?p = "CDiskPos f o'"
    have g: "files_grow (ts_files ts) fs'" by (rule files_grow_trans [OF found(1) ts_append_grow [OF a]])
    have "length (file_bytes fs f) + 8 < 2 ^ 32" using found(2) [OF Some] by (simp add: MAX_FILE_SIZE_def MAX_CHUNK_SIZE_def)
    then have wr: "ts_written T (ts_files ?ts2) ?p t" using ts_append_written [OF a env] by simp
    have inv2: "ts_inv T ok (ts_written T (ts_files ?ts2)) n ?ts2" using ts_inv_grow [OF inv g] by simp
    obtain ts3 where "CacheOrReset T t ?p ?ts2 = Some ts3" "ts_inv T ok (ts_written T fs') n ts3" "ts_files ts3 = fs'"
      using CacheOrReset_ok [OF inv2 t wr sz] by auto
    then show ?thesis using w y a g wr inv2 by (cases c) (auto simp: ts_Write_def yq Some Let_def)
  qed
qed

lemma ts_inv_any: "ts_inv T ok W n s \<Longrightarrow> ts_inv T ok (\<lambda>_ _. True) n (s\<lparr>ts_files := fs, ts_nLastFile := m\<rparr>)"
  by (auto simp: ts_inv_def cache_rel_def)

lemma ts_Write_total:
  assumes inv: "ts_inv T ok W n ts" and t: "ok t" and sz: "T_size T t + nHdrSize < n" and env: "\<forall>fs f. env_fopen env fs f"
    and few: "length (ts_files ts) < 2 ^ 32"
  obtains p ts' where "ts_Write T env t c ts = Some (Some p, ts')"
proof -
  obtain q m fs where y: "GetLastFilePath env (ts_nLastFile ts) (ts_files ts) = Some (q, m, fs)"
    using GetLastFilePath_total [OF few, of env "ts_nLastFile ts"] by auto
  obtain f where q: "q = Some f" using GetLastFilePath_opens [OF y env] by auto
  obtain o' fs' where a: "ts_append T env t f fs = (o', fs')" by (cases "ts_append T env t f fs")
  obtain ts3 where "CacheOrReset T t (CDiskPos f o') (ts\<lparr>ts_files := fs', ts_nLastFile := m\<rparr>) = Some ts3"
    using CacheOrReset_ok [OF ts_inv_any [OF inv] t TrueI sz] by metis
  then show thesis using that y a by (cases c) (auto simp: ts_Write_def q Let_def)
qed

text \<open>Appending a record to a directory with room leaves everything stored where it was.\<close>

lemma batch_fill_written:
  assumes "env_ok env" "\<forall>t \<in> set xs. ok t \<and> T_size T t < 2 ^ 30" "om_has fs f" "length (file_bytes fs f) < 2 ^ 32 - 8"
    "batch_fill T env f xs fs vPos = (rest, fs', vPos')" "xs \<noteq> []"
  shows "\<exists>ys qs. xs = ys @ rest \<and> ys \<noteq> [] \<and> vPos' = vPos @ qs \<and> list_all2 (ts_written T fs') qs ys \<and> files_grow fs fs' \<and>
    length fs' \<le> length fs + length ys"
  using assms(2-)
proof (induction xs arbitrary: fs vPos)
  case (Cons t xs)
  obtain n fs1 where a: "ts_append T env t f fs = (n, fs1)" by (cases "ts_append T env t f fs")
  let ?p = "CDiskPos f n"
  have wr: "ts_written T fs1 ?p t" using ts_append_written [OF a assms(1)] Cons.prems(3) by simp
  have g: "files_grow fs fs1" by (rule ts_append_grow [OF a])
  have l: "length fs1 \<le> Suc (length fs)" using a length_om_set by (auto simp: ts_append_def Let_def)
  show ?case
  proof (cases "xs \<noteq> [] \<and> unat n < MAX_FILE_SIZE - MAX_CHUNK_SIZE - 8")
    case False
    then have "rest = xs" "fs' = fs1" "vPos' = vPos @ [?p]" using Cons.prems(4) a by (auto simp: Let_def split: if_splits)
    then show ?thesis using wr g l by (intro exI [of _ "[t]"] exI [of _ "[?p]"]) simp
  next
    case True
    then have fill: "batch_fill T env f xs fs1 (vPos @ [?p]) = (rest, fs', vPos')" using Cons.prems(4) a by (simp add: Let_def)
    have "unat n = length (file_bytes fs f) + 8"
      using a Cons.prems(3) by (auto simp: ts_append_def Let_def unat_word_ariths unat_of_nat)
    moreover have "file_bytes fs1 f = file_bytes fs f @ ts_record T t"
      using a assms(1) by (auto simp: ts_append_def Let_def file_bytes_def omap_simps env_ok_def)
    moreover have "length (ts_record T t) < 2 ^ 30 + 8"
      using Cons.prems(1) by (auto simp: ts_record_def length_Save_uint save_size)
    ultimately have len: "length (file_bytes fs1 f) < 2 ^ 32 - 8" using True by (simp add: MAX_FILE_SIZE_def MAX_CHUNK_SIZE_def)
    have has: "om_has fs1 f" using a by (auto simp: ts_append_def Let_def om_has_def omap_simps)
    from Cons.IH [OF _ has len fill] Cons.prems(1) True obtain ys qs where
      ys: "xs = ys @ rest" "ys \<noteq> []" "vPos' = (vPos @ [?p]) @ qs" "list_all2 (ts_written T fs') qs ys" "files_grow fs1 fs'"
        "length fs' \<le> length fs1 + length ys" by auto
    have "ts_written T fs' ?p t" by (rule ts_written_grow [OF wr ys(5)])
    then show ?thesis
      using ys l files_grow_trans [OF g ys(5)] by (intro exI [of _ "t # ys"] exI [of _ "?p # qs"]) simp
  qed
qed simp

lemma WriteBatch_written:
  assumes env: "env_ok env"
  shows "\<forall>t \<in> set xs. ok t \<and> T_size T t < 2 ^ 30 \<Longrightarrow> length (ts_files ts) + 2 * length xs < 2 ^ 32 \<Longrightarrow>
    \<exists>qs ts'. WriteBatch T env xs vPos ts = Some (True, vPos @ qs, ts') \<and> list_all2 (ts_written T (ts_files ts')) qs xs \<and>
      files_grow (ts_files ts) (ts_files ts')"
proof (induction "length xs" arbitrary: xs vPos ts rule: less_induct)
  case less
  show ?case
  proof (cases "xs = []")
    case True
    then show ?thesis by (simp add: WriteBatch.simps)
  next
    case False
    have few: "length (ts_files ts) < 2 ^ 32" using less.prems(2) by simp
    obtain q m fs where y: "GetLastFilePath env (ts_nLastFile ts) (ts_files ts) = Some (q, m, fs)"
      using GetLastFilePath_total [OF few, of env "ts_nLastFile ts"] by auto
    obtain f where q: "q = Some f" using GetLastFilePath_opens [OF y] env by (auto simp: env_ok_def)
    have found: "files_grow (ts_files ts) fs" "length fs \<le> Suc (length (ts_files ts))" "om_has fs f" "length (file_bytes fs f) < 2 ^ 32 - 8"
      using GetLastFilePath_result [OF y] by (auto simp: last_file_found_def q MAX_FILE_SIZE_def MAX_CHUNK_SIZE_def)
    obtain rest fs' vPos' where b: "batch_fill T env f xs fs vPos = (rest, fs', vPos')" by (cases "batch_fill T env f xs fs vPos")
    obtain ys qs where ys: "xs = ys @ rest" "ys \<noteq> []" "vPos' = vPos @ qs" "list_all2 (ts_written T fs') qs ys" "files_grow fs fs'"
      "length fs' \<le> length fs + length ys"
      using batch_fill_written [OF env less.prems(1) found(3,4) b False] by auto
    let ?ts = "ts\<lparr>ts_files := fs', ts_nLastFile := m\<rparr>"
    have step: "WriteBatch T env xs vPos ts = WriteBatch T env rest vPos' ?ts"
      using False y b by (subst WriteBatch.simps) (simp add: q)
    have "length rest < length xs" using ys(1,2) by simp
    moreover have "1 \<le> length ys" using ys(2) by (cases ys) simp_all
    then have "length (ts_files ?ts) + 2 * length rest < 2 ^ 32" using less.prems(2) found(2) ys(1,6) by simp
    ultimately obtain ps ts' where r: "WriteBatch T env rest vPos' ?ts = Some (True, vPos' @ ps, ts')"
      "list_all2 (ts_written T (ts_files ts')) ps rest" "files_grow fs' (ts_files ts')"
      using less.hyps [of rest ?ts vPos'] less.prems(1) ys(1) by auto
    have "list_all2 (ts_written T (ts_files ts')) qs ys"
      using ys(4) by (rule list_all2_mono) (rule ts_written_grow [OF _ r(3)])
    then have "list_all2 (ts_written T (ts_files ts')) (qs @ ps) xs" using r(2) ys(1) by (simp add: list_all2_appendI)
    moreover have "files_grow (ts_files ts) (ts_files ts')" using found(1) ys(5) r(3) by (blast intro: files_grow_trans)
    ultimately show ?thesis using step r(1) ys(3) by (intro exI [of _ "qs @ ps"] exI [of _ ts']) simp
  qed
qed

end

section \<open>Histories\<close>

text \<open>What happens to a \<^verbatim>\<open>CTimeSeriesCached\<close> between a write and a later read: values are written with a working
  disk, values are read from where they are stored, and the cache is dropped when the series is closed or opened again.\<close>

inductive ts_step :: "'a ts_type \<Rightarrow> ('a \<Rightarrow> bool) \<Rightarrow> CTimeSeriesCached \<Rightarrow> CTimeSeriesCached \<Rightarrow> bool" for T ok where
  step_write: "env_ok env \<Longrightarrow> ok t \<Longrightarrow> ts_Write T env t c s = Some (r, s') \<Longrightarrow> ts_step T ok s s'"
| step_read: "ok t \<Longrightarrow> ts_written T (ts_files s) p t \<Longrightarrow> ts_Read T p c s = Some (r, s') \<Longrightarrow> ts_step T ok s s'"
| step_close: "ts_step T ok s (ts_Deinitialize s)"
| step_open: "ts_Initialize d space (ts_files s) s = (r, s') \<Longrightarrow> ts_step T ok s s'"

abbreviation ts_steps :: "'a ts_type \<Rightarrow> ('a \<Rightarrow> bool) \<Rightarrow> CTimeSeriesCached \<Rightarrow> CTimeSeriesCached \<Rightarrow> bool" where
  "ts_steps T ok \<equiv> (ts_step T ok)\<^sup>*\<^sup>*"

inductive_cases ts_stepE: "ts_step T ok s s'"

locale cached_type = record_type T ok for T :: "'a ts_type" and ok :: "'a \<Rightarrow> bool" +
  fixes n :: nat
  assumes fits: "ok t \<Longrightarrow> T_size T t + nHdrSize < n"
begin

lemma step_inv:
  assumes "ts_step T ok s s'" "ts_inv T ok (ts_written T (ts_files s)) n s"
  shows "ts_inv T ok (ts_written T (ts_files s')) n s' \<and> files_grow (ts_files s) (ts_files s')"
  using assms(1)
proof (rule ts_stepE)
  fix env t c r
  assume "env_ok env" "ok t" "ts_Write T env t c s = Some (r, s')"
  then show ?thesis using ts_Write_written [OF assms(2)] fits by blast
next
  fix t p c r
  assume t: "ok t" "ts_written T (ts_files s) p t" and r: "ts_Read T p c s = Some (r, s')"
  obtain s2 where "ts_Read T p c s = Some (Some t, s2)" "ts_inv T ok (ts_written T (ts_files s2)) n s2" "ts_files s2 = ts_files s"
    using ts_Read_written [OF assms(2) t fits [OF t(1)]] by metis
  then show ?thesis using r by simp
next
  assume "s' = ts_Deinitialize s"
  then show ?thesis using ResetCache_inv [OF assms(2)] by (simp add: ts_Deinitialize_def ResetCache_def)
next
  fix d space r
  assume i: "ts_Initialize d space (ts_files s) s = (r, s')"
  have "ts_inv T ok (ts_written T (ts_files s)) n (s\<lparr>ts_files := ts_files s, ts_nLastFile := 1\<rparr>)"
    by (rule ts_inv_grow [OF assms(2)]) simp
  then show ?thesis
    using i assms(2) ResetCache_inv [of "ts_written T (ts_files s)" n "s\<lparr>ts_nLastFile := 1\<rparr>"]
    by (auto simp: ts_Initialize_def ResetCache_def Let_def split: if_splits)
qed

lemma steps_inv:
  assumes "ts_steps T ok s s'" "ts_inv T ok (ts_written T (ts_files s)) n s"
  shows "ts_inv T ok (ts_written T (ts_files s')) n s' \<and> files_grow (ts_files s) (ts_files s')"
  using assms
proof (induction rule: rtranclp_induct)
  case (step y z)
  then show ?case using step_inv [of y z] files_grow_trans by blast
qed simp

lemma write_then_read:
  assumes inv: "ts_inv T ok (ts_written T (ts_files s)) n s" and t: "ok t" and env: "env_ok env"
    and w: "ts_Write T env t c s = Some (Some p, s1)" and st: "ts_steps T ok s1 s2"
  obtains s3 where "ts_Read T p c' s2 = Some (Some t, s3)" "ReadDirect T (pos_nFile p) (pos_nOffset p) (ts_files s2) = Some t"
proof -
  have 1: "ts_inv T ok (ts_written T (ts_files s1)) n s1" "ts_written T (ts_files s1) p t"
    using ts_Write_written [OF inv t fits [OF t] env w] by auto
  then have 2: "ts_inv T ok (ts_written T (ts_files s2)) n s2" "ts_written T (ts_files s2) p t"
    using steps_inv [OF st 1(1)] ts_written_grow by auto
  show thesis
    using ts_Read_written [OF 2(1) t 2(2) fits [OF t], of c'] ReadDirect_written [OF t 2(2)] that by metis
qed

end

section \<open>Loops that do not end\<close>

lemma buf_size_setg [simp]: "cb_buf_size (setg g e cb) = cb_buf_size cb"
  by (simp add: setg_def)

lemma buf_size_consume [simp]: "cb_buf_size (consume n cb) = cb_buf_size cb"
  by (simp add: consume_def Let_def)

lemma buf_size_sbumpc: "sbumpc cb = (r, cb') \<Longrightarrow> cb_buf_size cb' = cb_buf_size cb"
  by (auto simp: sbumpc_def underflow_def Let_def split: if_splits)

lemma buf_size_sgetn: "sgetn n cb = (bs, cb') \<Longrightarrow> cb_buf_size cb' = cb_buf_size cb"
proof (induction n arbitrary: cb bs)
  case (Suc n)
  then show ?case by (auto split: prod.splits option.splits dest: buf_size_sbumpc)
qed simp

lemma buf_size_cs_Read: "cs_Read k s = (h, s') \<Longrightarrow> cb_buf_size (cs_buf s') = cb_buf_size (cs_buf s)"
  by (auto simp: cs_Read_def split: if_splits prod.splits dest: buf_size_sgetn)

lemma buf_size_Rewind: "cb_buf_size (cs_buf (cs_Rewind s)) = cb_buf_size (cs_buf s)"
  by (simp add: cs_Rewind_def seekoff_def seekpos_def Let_def)

lemma VacateCache_makes_room:
  assumes "VacateCache nNeeded ts = Some ts'"
  shows "unat nNeeded + nHdrSize \<le> freespace (cs_buf (ts_cacheStream ts')) \<and>
    cb_buf_size (cs_buf (ts_cacheStream ts')) = cb_buf_size (cs_buf (ts_cacheStream ts))"
proof (rule VacateCache.raw_induct [where P = "\<lambda>nNeeded ts ts'. unat nNeeded + nHdrSize \<le> freespace (cs_buf (ts_cacheStream ts')) \<and>
    cb_buf_size (cs_buf (ts_cacheStream ts')) = cb_buf_size (cs_buf (ts_cacheStream ts))", OF _ assms], goal_cases)
  case (1 rec nNeeded ts ts')
  obtain h s where h: "cs_Read nHdrSize (cs_Rewind (ts_cacheStream ts)) = (h, s)" by (cases "cs_Read nHdrSize (cs_Rewind (ts_cacheStream ts))")
  obtain p z where p: "cache_header h = (p, z)" by (cases "cache_header h")
  have b: "cb_buf_size (cs_buf s) = cb_buf_size (cs_buf (ts_cacheStream ts))" using buf_size_cs_Read [OF h] buf_size_Rewind by simp
  show ?case
  proof (cases "GetBufFreeSpace (ts_cacheStream ts) < unat nNeeded + nHdrSize")
    case True
    from 1(1) [OF 1(2) [unfolded h p if_P [OF True] Let_def prod.case]] show ?thesis using b by (simp add: cs_Consume_def)
  next
    case False
    then show ?thesis using 1(2) by (simp add: GetBufFreeSpace_def)
  qed
qed

section \<open>A write that does not reach the disk\<close>

definition env_full :: "ts_env \<Rightarrow> bool" where
  "env_full env \<longleftrightarrow> (\<forall>fs f. env_fopen env fs f) \<and> (\<forall>fs r. env_accept env fs r = 0)"

lemma GetLastFilePath_again:
  assumes "om_has fs f" "length (file_bytes fs f) < MAX_FILE_SIZE - MAX_CHUNK_SIZE - 8"
  shows "GetLastFilePath env f fs = Some (Some f, f, fs)"
  using assms by (subst GetLastFilePath.simps) (simp add: Let_def)

lemma ts_Write_file:
  assumes "ts_Write T env t True s = Some (Some p, s')"
  obtains f o' fs fs' where "p = CDiskPos f o'" "om_has fs f" "length (file_bytes fs f) < MAX_FILE_SIZE - MAX_CHUNK_SIZE - 8"
    "ts_append T env t f fs = (o', fs')" "CacheOrReset T t p (s\<lparr>ts_files := fs', ts_nLastFile := f\<rparr>) = Some s'"
proof -
  obtain q m fs where y: "GetLastFilePath env (ts_nLastFile s) (ts_files s) = Some (q, m, fs)"
    using assms by (cases "GetLastFilePath env (ts_nLastFile s) (ts_files s)") (auto simp: ts_Write_def)
  then obtain f where q: "q = Some f" using assms by (cases q) (auto simp: ts_Write_def)
  obtain o' fs' where a: "ts_append T env t f fs = (o', fs')" by (cases "ts_append T env t f fs")
  have found: "f = m" "om_has fs f" "length (file_bytes fs f) < MAX_FILE_SIZE - MAX_CHUNK_SIZE - 8"
    using GetLastFilePath_result [OF y] by (auto simp: last_file_found_def q)
  have "CacheOrReset T t (CDiskPos f o') (s\<lparr>ts_files := fs', ts_nLastFile := f\<rparr>) = Some s'" "p = CDiskPos f o'"
    using assms y a found(1) by (auto simp: ts_Write_def q Let_def split: Option.bind_splits)
  then show thesis using that found a by blast
qed

context cached_type
begin

lemma ts_inv_files: "ts_inv T ok W n s \<Longrightarrow> ts_inv T ok W n (s\<lparr>ts_files := fs, ts_nLastFile := m\<rparr>)"
  by (auto simp: ts_inv_def cache_rel_def)

lemma ts_inv_only:
  assumes "ts_inv T ok W n s" "\<not> om_has (ts_mapCachePos s) p"
  shows "ts_inv T ok (\<lambda>q u. q = p \<longrightarrow> u = t) n s"
proof -
  from assms(1) obtain es where es: "cache_rel T ok W es s" "cs_places (ts_cacheStream s) = n" by (auto simp: ts_inv_def)
  then have "p \<notin> fst ` set es" using cache_rel_known [OF es(1), of p] assms(2) by simp
  then have "cache_rel T ok (\<lambda>q u. q = p \<longrightarrow> u = t) es s" using es(1) by (auto simp: cache_rel_def)
  then show ?thesis using es(2) by (auto simp: ts_inv_def)
qed

lemma append_not_cached:
  assumes inv: "ts_inv T ok (ts_written T (ts_files s)) n s" and w: "ts_Write T env t c s = Some (Some p, s')"
  shows "\<not> om_has (ts_mapCachePos s) p"
proof
  assume "om_has (ts_mapCachePos s) p"
  moreover from inv obtain es where es: "cache_rel T ok (ts_written T (ts_files s)) es s" by (auto simp: ts_inv_def)
  ultimately obtain u where u: "ts_written T (ts_files s) p u"
    using cache_rel_known [OF es, of p] es by (auto simp: cache_rel_def)
  obtain q m fs where y: "GetLastFilePath env (ts_nLastFile s) (ts_files s) = Some (q, m, fs)"
    using w by (cases "GetLastFilePath env (ts_nLastFile s) (ts_files s)") (auto simp: ts_Write_def)
  then obtain f where q: "q = Some f" using w by (cases q) (auto simp: ts_Write_def)
  have g: "files_grow (ts_files s) fs" "length (file_bytes fs f) < MAX_FILE_SIZE - MAX_CHUNK_SIZE - 8"
    using GetLastFilePath_result [OF y] by (auto simp: last_file_found_def q)
  have p: "p = CDiskPos f (word_of_nat (length (file_bytes fs f) + 8))"
    using w y by (auto simp: ts_Write_def q Let_def ts_append_def split: Option.bind_splits)
  have "length (file_bytes fs f) + 8 < 2 ^ 32" using g(2) by (simp add: MAX_FILE_SIZE_def MAX_CHUNK_SIZE_def)
  then have o': "unat (word_of_nat (length (file_bytes fs f) + 8) :: uint32) = length (file_bytes fs f) + 8" by (simp only: unat_of_nat) simp
  have "ts_written T fs p u" by (rule ts_written_grow [OF u g(1)])
  then obtain pre post where "om_get fs f = Some (pre @ T_save T u @ post)" "length pre = length (file_bytes fs f) + 8"
    unfolding ts_written_def p CDiskPos.sel o' by blast
  then show False by (simp add: file_bytes_def)
qed

lemma lost_write:
  assumes inv: "ts_inv T ok W n s" and new: "\<not> om_has (ts_mapCachePos s) p" and t: "ok t" "ok u" and e: "env_full e0" "env_ok e1"
    and w: "ts_Write T e0 t True s = Some (Some p, s1)"
  shows "\<exists>s2 s3. ts_Write T e1 u True s1 = Some (Some p, s2) \<and> ts_Read T p c s2 = Some (Some t, s3) \<and>
    ReadDirect T (pos_nFile p) (pos_nOffset p) (ts_files s2) = Some u"
proof -
  let ?W = "\<lambda>q v. q = p \<longrightarrow> v = t"
  obtain f o' fs fs' where f: "p = CDiskPos f o'" "om_has fs f" "length (file_bytes fs f) < MAX_FILE_SIZE - MAX_CHUNK_SIZE - 8"
    "ts_append T e0 t f fs = (o', fs')" "CacheOrReset T t p (s\<lparr>ts_files := fs', ts_nLastFile := f\<rparr>) = Some s1"
    by (rule ts_Write_file [OF w])
  have fb: "file_bytes fs' f = file_bytes fs f" and has: "om_has fs' f" and o': "o' = word_of_nat (length (file_bytes fs f) + 8)"
    using f(4) e(1) by (auto simp: ts_append_def Let_def env_full_def file_bytes_def omap_simps om_has_def)
  have inv': "ts_inv T ok ?W n (s\<lparr>ts_files := fs', ts_nLastFile := f\<rparr>)" by (rule ts_inv_files [OF ts_inv_only [OF inv new]])
  have s1: "ts_inv T ok ?W n s1" "ts_files s1 = fs'" "ts_nLastFile s1 = f"
    using CacheOrReset_ok [OF inv' t(1), of p] fits [OF t(1)] f(5) by auto
  have has1: "om_has (ts_mapCachePos s1) p" using f(5) by (auto simp: CacheOrReset_def WriteToCache_def Let_def om_has_def omap_simps split: if_splits Option.bind_splits)
  obtain o2 fs2 where a: "ts_append T e1 u f fs' = (o2, fs2)" by (cases "ts_append T e1 u f fs'")
  have "o2 = o'" using a fb o' by (auto simp: ts_append_def Let_def)
  let ?s2 = "s1\<lparr>ts_files := fs2, ts_nLastFile := f\<rparr>"
  have len: "length (file_bytes fs' f) < MAX_FILE_SIZE - MAX_CHUNK_SIZE - 8" using f(3) fb by simp
  have w2: "ts_Write T e1 u True s1 = Some (Some p, ?s2)"
    using GetLastFilePath_again [OF has len] a has1 \<open>o2 = o'\<close> f(1) s1(2,3) by (simp add: ts_Write_def CacheOrReset_def WriteToCache_def Let_def)
  have inv2: "ts_inv T ok ?W n ?s2" by (rule ts_inv_files [OF s1(1)])
  have rd: "\<exists>s3. ts_Read T p c ?s2 = Some (Some t, s3)"
    using ReadFromCache_ok [OF inv2, of p] has1 by (auto simp: ts_Read_def om_has_def)
  have "length (file_bytes fs' f) + 8 < 2 ^ 32" using len by (simp add: MAX_FILE_SIZE_def MAX_CHUNK_SIZE_def)
  then have "ts_written T fs2 p u" using ts_append_written [OF a e(2)] \<open>o2 = o'\<close> f(1) by simp
  then show ?thesis using w2 rd ReadDirect_written [OF t(2), of fs2 p] by auto
qed

end

section \<open>Walking through the files\<close>

fun walk_all :: "'a ts_type \<Rightarrow> ('a, 'w) ts_walker \<Rightarrow> uint32 \<Rightarrow> nat \<Rightarrow> 'a list \<Rightarrow> 'w \<Rightarrow> 'w" where
  "walk_all T walk nFile k [] w = w"
| "walk_all T walk nFile k (t # xs) w = walk_all T walk nFile (k + length (ts_record T t)) xs (snd (walk t nFile (word_of_nat (k + 8)) w))"

lemma ucast_uint32: "x < 2 ^ 32 \<Longrightarrow> ucast (word_of_nat x :: uint32) = (word_of_nat x :: uint64)"
  by (rule word_unat_eq_iff [THEN iffD2]) (simp add: unat_of_nat unsigned_ucast_eq take_bit_eq_mod)

context record_type
begin

lemma length_record: "ok t \<Longrightarrow> length (ts_record T t) = 8 + T_size T t"
  by (simp add: ts_record_def length_Save_uint save_size)

lemma walk_record_next:
  assumes t: "ok t" and b: "length (pre @ ts_record T t @ post) < 2 ^ 32" and ok: "fst (walk t nFile (word_of_nat (length pre + 8)) w)"
  shows "walk_record T walk nFile (pre @ ts_record T t @ post) (word_of_nat (length pre)) (length pre) w =
    Inr (word_of_nat (length (pre @ ts_record T t)), length (pre @ ts_record T t), snd (walk t nFile (word_of_nat (length pre + 8)) w))"
proof -
  let ?b = "pre @ ts_record T t @ post" and ?z = "word_of_nat (T_size T t) :: uint32"
  have r: "ts_record T t @ post = Save_uint nMagicNum @ Save_uint ?z @ T_save T t @ post" by (simp add: ts_record_def)
  have len4: "length (Save_uint (x :: uint32)) = 4" for x by (simp add: length_Save_uint)
  have val: "word_of_nat (le_val (Save_uint (x :: uint32))) = x" for x
    using unat_uint32_mod [of x] by (simp add: Save_uint_def sizeof_uint_def)
  have s: "drop (length pre) ?b = ts_record T t @ post" by simp
  have hdr: "take 4 (ts_record T t @ post) = Save_uint nMagicNum" "take 4 (drop 4 (ts_record T t @ post)) = Save_uint ?z"
    "drop 8 (ts_record T t @ post) = T_save T t @ post"
    unfolding r by (simp_all add: len4)
  have ld: "walk_load T (length ?b) (T_save T t @ post) = Some (t, length (pre @ ts_record T t), False)"
    using load_save [OF t] by (simp add: walk_load_def)
  have l: "length (pre @ ts_record T t) = length pre + 8 + T_size T t" using length_record [OF t] by simp
  have "ucast ?z = (word_of_nat (T_size T t) :: uint64)" by (rule ucast_uint32) (rule size32 [OF t])
  moreover have "ucast (word_of_nat (length pre) :: uint32) = (word_of_nat (length pre) :: uint64)"
    using b by (intro ucast_uint32) simp
  ultimately have chk: "(word_of_nat (length (pre @ ts_record T t)) :: uint64) - ucast (word_of_nat (length pre) :: uint32) - 8 = ucast ?z"
    unfolding l by simp
  have off: "word_of_nat (length pre) + 8 = (word_of_nat (length pre + 8) :: uint32)" by simp
  have enough: "\<not> length (ts_record T t @ post) < 8" using length_record [OF t] by simp
  obtain w' where w': "walk t nFile (word_of_nat (length pre + 8)) w = (True, w')" using ok by (cases "walk t nFile (word_of_nat (length pre + 8)) w") simp
  show ?thesis
    unfolding walk_record_def s Let_def hdr val ld off using enough chk w' by simp
qed

lemma walk_file_all:
  assumes "\<forall>t \<in> set xs. ok t" "length (pre @ concat (map (ts_record T) xs)) < 2 ^ 32" "\<forall>t f k w. fst (walk t f k w)"
  shows "walk_file T walk nFile (pre @ concat (map (ts_record T) xs)) (word_of_nat (length pre)) (length pre) w =
    Some (False, word_of_nat (length (pre @ concat (map (ts_record T) xs))), walk_all T walk nFile (length pre) xs w)"
  using assms
proof (induction xs arbitrary: pre w)
  case Nil
  then show ?case by (subst walk_file.simps) (simp add: walk_record_def)
next
  case (Cons t xs)
  let ?post = "concat (map (ts_record T) xs)"
  have "walk_record T walk nFile (pre @ ts_record T t @ ?post) (word_of_nat (length pre)) (length pre) w =
    Inr (word_of_nat (length (pre @ ts_record T t)), length (pre @ ts_record T t), snd (walk t nFile (word_of_nat (length pre + 8)) w))"
    using Cons.prems by (intro walk_record_next) simp_all
  then show ?case
    using Cons.IH [of "pre @ ts_record T t" "snd (walk t nFile (word_of_nat (length pre + 8)) w)"] Cons.prems
    by (subst walk_file.simps) simp
qed

lemma WalkThrough_stops:
  assumes "om_get fs 1 = Some (concat (map (ts_record T) xs))" "\<forall>t \<in> set xs. ok t" "length (concat (map (ts_record T) xs)) < 2 ^ 32"
    "\<forall>t f k w. fst (walk t f k w)"
  shows "ts_WalkThrough T walk fs w = Some (False, 1, word_of_nat (length (concat (map (ts_record T) xs))), walk_all T walk 1 0 xs w)"
  using walk_file_all [of xs "[]" walk 1 w] assms
  by (simp add: ts_WalkThrough_def walk_files.simps GetFilePath_def om_has_def file_bytes_def)

end

section \<open>The files of blocks\<close>

definition Size_blockex :: "CBlockEx \<Rightarrow> nat" where
  "Size_blockex b = Size_block (bex_block b) + Size_vector (\<lambda>c. 33 + Size_vector (\<lambda>_. 16) (ctx_vin c)) (bex_vTxContxt b)"

definition block_type :: "(bytes \<Rightarrow> CBlockEx option) \<Rightarrow> CBlockEx ts_type" where
  "block_type part = \<lparr>T_save = Save_blockex, T_load = Load_blockex, T_size = Size_blockex, T_part = part\<rparr>"

definition blockex_fits :: "CBlockEx \<Rightarrow> bool" where
  "blockex_fits b \<longleftrightarrow> blk_ok (bex_block b) \<and> vec_ok ctx_ok (bex_vTxContxt b) \<and> Size_blockex b + nHdrSize < 2 ^ 25"

interpretation blocks: cached_type "block_type part" blockex_fits "2 ^ 25" for part
  by unfold_locales
    (simp_all add: block_type_def blockex_fits_def blockex.load_save blockex.save_size Size_blockex_def)

lemma cb_grow_file_cache: "cb_grow FILE_CACHE_SIZE 8 = Some 0x2000000"
  by (simp add: cb_grow.simps FILE_CACHE_SIZE_def)

lemma ts_new_inv:
  assumes "ts_new = Some s"
  shows "ts_inv T ok W (2 ^ 25) s" and "ts_mapCachePos s = []"
proof -
  have m: "unat FILE_CACHE_SIZE \<le> 2 ^ 63" by (simp add: FILE_CACHE_SIZE_def)
  obtain cs where cs: "CWalleveCircularStream_new FILE_CACHE_SIZE = Some cs" "cs_ok cs" "cs_held cs = []"
    using CWalleveCircularStream_new_ok [OF m] by metis
  have "cs_places cs = 2 ^ 25"
    using cs(1) cb_grow_file_cache by (auto simp: CWalleveCircularStream_new_def circularbuf_new_def cb_MIN_SIZE_def cs_places_def)
  then show "ts_inv T ok W (2 ^ 25) s" "ts_mapCachePos s = []"
    using assms cs by (auto simp: ts_new_def ts_inv_def cache_rel_def intro!: exI [of _ "[]"])
qed

text \<open>A series that was opened on some files and then used.\<close>

definition ts_reachable :: "'a ts_type \<Rightarrow> ('a \<Rightarrow> bool) \<Rightarrow> CTimeSeriesCached \<Rightarrow> bool" where
  "ts_reachable T ok s \<longleftrightarrow>
     (\<exists>s0 space fs s1. ts_new = Some s0 \<and> ts_Initialize True space fs s0 = (True, s1) \<and> ts_steps T ok s1 s)"

lemma ts_reachable_inv:
  assumes "ts_reachable (block_type part) blockex_fits s"
  shows "ts_inv (block_type part) blockex_fits (ts_written (block_type part) (ts_files s)) (2 ^ 25) s"
proof -
  from assms obtain s0 space fs s1 where i: "ts_new = Some s0" "ts_Initialize True space fs s0 = (True, s1)"
    and st: "ts_steps (block_type part) blockex_fits s1 s" by (auto simp: ts_reachable_def)
  have "s1 = ResetCache (s0\<lparr>ts_files := fs, ts_nLastFile := 1\<rparr>)" using i(2) by (auto simp: ts_Initialize_def Let_def split: if_splits)
  then have "ts_inv (block_type part) blockex_fits (ts_written (block_type part) (ts_files s1)) (2 ^ 25) s1"
    using blocks.ResetCache_inv [OF blocks.ts_inv_files [OF ts_new_inv(1) [OF i(1)]]] by (simp add: ResetCache_def)
  then show ?thesis using blocks.steps_inv [OF st] by blast
qed

text \<open>An empty series, a disk that takes everything and one that takes nothing.\<close>

definition ex_series :: CTimeSeriesCached where
  "ex_series = snd (ts_Initialize True 20000000 [] (the ts_new))"

definition ex_disk :: ts_env where
  "ex_disk = \<lparr>env_fopen = \<lambda>_ _. True, env_accept = \<lambda>_ r. length r\<rparr>"

definition ex_full_disk :: ts_env where
  "ex_full_disk = \<lparr>env_fopen = \<lambda>_ _. True, env_accept = \<lambda>_ _. 0\<rparr>"

definition example_blockex :: "uint32 \<Rightarrow> CBlockEx" where
  "example_blockex n = \<lparr>bex_block = blk_null\<lparr>blk_nTimeStamp := n\<rparr>, bex_vTxContxt = []\<rparr>"

lemma ex_disks: "env_ok ex_disk" "env_full ex_full_disk"
  by (simp_all add: env_ok_def env_full_def ex_disk_def ex_full_disk_def)

lemma example_blockex_fits: "blockex_fits (example_blockex n)"
  by (simp add: blockex_fits_def example_blockex_def blk_null_def blk_ok_def tx_ok_def tx_null_def int64_range_def
      Size_blockex_def Size_block_def Size_vch_def Size_tx_def Size_vector_def CVarInt_Size_def nHdrSize_def)

lemma ex_series_reachable: "ts_reachable T ok ex_series" and ex_series_files: "ts_files ex_series = []"
proof -
  have m: "unat FILE_CACHE_SIZE \<le> 2 ^ 63" by (simp add: FILE_CACHE_SIZE_def)
  obtain cs where "CWalleveCircularStream_new FILE_CACHE_SIZE = Some cs" using CWalleveCircularStream_new_ok [OF m] by metis
  then have new: "ts_new = Some (the ts_new)" by (simp add: ts_new_def)
  have init: "ts_Initialize True 20000000 [] (the ts_new) = (True, ex_series)"
    by (simp add: ex_series_def ts_Initialize_def CheckDiskSpace_def Let_def)
  show "ts_reachable T ok ex_series" unfolding ts_reachable_def using new init by blast
  show "ts_files ex_series = []" by (simp add: ex_series_def ts_Initialize_def CheckDiskSpace_def Let_def ResetCache_def)
qed

lemma ex_series_write:
  assumes "\<forall>fs f. env_fopen env fs f"
  obtains p s where "ts_Write (block_type part) env (example_blockex n) c ex_series = Some (Some p, s)"
  by (rule blocks.ts_Write_total [OF ts_reachable_inv [OF ex_series_reachable] example_blockex_fits blocks.fits [OF example_blockex_fits] assms])
    (simp_all add: ex_series_files)

text \<open>Property C10: a block that was written is read back, with the cache and without it, from the position the write returned,
  whatever blocks are written and read in between and however often the files are closed and opened again.\<close>

theorem block_read_after_write:
  assumes "ts_reachable (block_type part) blockex_fits s" and "blockex_fits b" and "env_ok env"
    and "ts_Write (block_type part) env b c s = Some (Some p, s1)" and "ts_steps (block_type part) blockex_fits s1 s2"
  shows "(\<exists>s3. ts_Read (block_type part) p c' s2 = Some (Some b, s3)) \<and>
    ReadDirect (block_type part) (pos_nFile p) (pos_nOffset p) (ts_files s2) = Some b"
  by (rule blocks.write_then_read [OF ts_reachable_inv [OF assms(1)] assms(2-5), of c']) blast

theorem block_read_after_write_witness:
  "\<exists>p s s'. ts_Write (block_type Map.empty) ex_disk (example_blockex 7) True ex_series = Some (Some p, s) \<and>
    ts_Read (block_type Map.empty) p True s = Some (Some (example_blockex 7), s')"
proof -
  obtain p s where w: "ts_Write (block_type Map.empty) ex_disk (example_blockex 7) True ex_series = Some (Some p, s)"
    by (rule ex_series_write [of ex_disk]) (simp_all add: ex_disk_def)
  show ?thesis
    using w block_read_after_write [OF ex_series_reachable example_blockex_fits ex_disks(1) w rtranclp.rtrancl_refl, of True] by blast
qed

text \<open>Property C14: the write of a block returns a position whenever the disk works and the directory holds fewer than \<open>2 ^ 32\<close>
  files; making room in the cache ends exactly for values that fit into an empty cache.\<close>

theorem block_write_ends:
  assumes "ts_reachable (block_type part) blockex_fits s"
  shows "(blockex_fits b \<longrightarrow> env_ok env \<longrightarrow> length (ts_files s) < 2 ^ 32 \<longrightarrow>
      (\<exists>p s'. ts_Write (block_type part) env b c s = Some (Some p, s'))) \<and>
    (VacateCache nNeeded s \<noteq> None \<longleftrightarrow> unat nNeeded + nHdrSize < 2 ^ 25)"
proof (intro conjI impI iffI)
  note inv = ts_reachable_inv [OF assms]
  show "\<exists>p s'. ts_Write (block_type part) env b c s = Some (Some p, s')"
    if b: "blockex_fits b" "env_ok env" "length (ts_files s) < 2 ^ 32"
  proof -
    have open': "\<forall>fs f. env_fopen env fs f" using b(2) by (simp add: env_ok_def)
    show ?thesis by (rule blocks.ts_Write_total [OF inv b(1) blocks.fits [OF b(1)] open' b(3)]) blast
  qed
  from inv obtain es where es: "cache_rel (block_type part) blockex_fits (ts_written (block_type part) (ts_files s)) es s"
    and n: "cs_places (ts_cacheStream s) = 2 ^ 25" by (auto simp: ts_inv_def)
  show "VacateCache nNeeded s \<noteq> None" if "unat nNeeded + nHdrSize < 2 ^ 25"
    using blocks.VacateCache_room [OF es] that n by fastforce
  show "unat nNeeded + nHdrSize < 2 ^ 25" if "VacateCache nNeeded s \<noteq> None"
    using that VacateCache_makes_room [of nNeeded s] n by (auto simp: freespace_def cs_places_def)
qed

theorem block_write_ends_witness:
  "(\<exists>p s. ts_Write (block_type Map.empty) ex_disk (example_blockex 7) True ex_series = Some (Some p, s)) \<and>
   VacateCache 1000 ex_series \<noteq> None \<and> VacateCache 0x2000000 ex_series = None"
  using block_write_ends [OF ex_series_reachable, where part = "Map.empty" and b = "example_blockex 7" and env = ex_disk and c = True and nNeeded = 1000]
    block_write_ends [OF ex_series_reachable, where part = "Map.empty" and b = "example_blockex 7" and env = ex_disk and c = True and nNeeded = "0x2000000"]
    example_blockex_fits [of 7] ex_disks(1)
  by (simp add: ex_series_files nHdrSize_def)

text \<open>Property C37: a block whose write does not reach the disk is reported as written and stays in the cache; the next block is
  stored at the same position, and reading that position returns the lost block instead of the stored one.\<close>

theorem lost_block_shadows_next:
  assumes "ts_reachable (block_type part) blockex_fits s" and "blockex_fits b" "blockex_fits b'" and "env_full e0" "env_ok e1"
    and "ts_Write (block_type part) e0 b True s = Some (Some p, s1)"
  shows "\<exists>s2 s3. ts_Write (block_type part) e1 b' True s1 = Some (Some p, s2) \<and>
    ts_Read (block_type part) p c s2 = Some (Some b, s3) \<and> ReadDirect (block_type part) (pos_nFile p) (pos_nOffset p) (ts_files s2) = Some b'"
  using blocks.lost_write [OF ts_reachable_inv [OF assms(1)] blocks.append_not_cached [OF ts_reachable_inv [OF assms(1)] assms(6)] assms(2-6)] .

theorem lost_block_shadows_next_witness:
  "\<exists>p s1 s2 s3. ts_Write (block_type Map.empty) ex_full_disk (example_blockex 7) True ex_series = Some (Some p, s1) \<and>
    ts_Write (block_type Map.empty) ex_disk (example_blockex 8) True s1 = Some (Some p, s2) \<and>
    ts_Read (block_type Map.empty) p True s2 = Some (Some (example_blockex 7), s3) \<and>
    ReadDirect (block_type Map.empty) (pos_nFile p) (pos_nOffset p) (ts_files s2) = Some (example_blockex 8)"
proof -
  obtain p s1 where w: "ts_Write (block_type Map.empty) ex_full_disk (example_blockex 7) True ex_series = Some (Some p, s1)"
    by (rule ex_series_write [of ex_full_disk]) (simp_all add: ex_full_disk_def)
  show ?thesis
    using w lost_block_shadows_next [OF ex_series_reachable example_blockex_fits example_blockex_fits ex_disks(2,1) w, of 8 True] by blast
qed

text \<open>Property C38: \<^verbatim>\<open>WalkThrough\<close> visits the blocks of the first file in order, meets the end of the file with a read that fails,
  reports failure and never opens the second file.\<close>

theorem walk_fails_after_first_file:
  assumes "om_get fs 1 = Some (concat (map (ts_record (block_type part)) xs))" and "\<forall>b \<in> set xs. blockex_fits b"
    and "length (concat (map (ts_record (block_type part)) xs)) < 2 ^ 32" and "\<forall>b f k w. fst (walk b f k w)"
  shows "ts_WalkThrough (block_type part) walk fs w =
    Some (False, 1, word_of_nat (length (concat (map (ts_record (block_type part)) xs))), walk_all (block_type part) walk 1 0 xs w)"
  by (rule blocks.WalkThrough_stops [OF assms])

theorem walk_fails_after_first_file_witness:
  "ts_WalkThrough (block_type Map.empty) (\<lambda>b f k w. (True, w @ [blk_nTimeStamp (bex_block b)]))
     [(1, concat (map (ts_record (block_type Map.empty)) [example_blockex 7, example_blockex 8])), (2, ts_record (block_type Map.empty) (example_blockex 9))] []
   = Some (False, 1, word_of_nat (length (concat (map (ts_record (block_type Map.empty)) [example_blockex 7, example_blockex 8]))), [7, 8])"
proof -
  have len: "length (ts_record (block_type Map.empty) (example_blockex n)) < 2 ^ 26" for n
    using blocks.length_record [OF example_blockex_fits, of "Map.empty" n] blocks.fits [OF example_blockex_fits, of "Map.empty" n] by simp
  show ?thesis
    using walk_fails_after_first_file [of _ "Map.empty" "[example_blockex 7, example_blockex 8]"
        "\<lambda>b f k w. (True, w @ [blk_nTimeStamp (bex_block b)])" "[]"] example_blockex_fits len [of 7] len [of 8]
    by (simp add: example_blockex_def)
qed

end
