(* ===== verification/Spec2Isabelle.thy ===== *)
theory Spec2Isabelle
  imports Prelude Serialize Uint256 Base32 Destination Crypto Template Transaction Block Profile Core TxPool PoolInvariant PoolSync BlockView
    RWLock KVDB UnspentDB BlockTree MainChain
    Circular TimeSeries
begin

text \<open>
  A verification development of the FnFn (Multiverse) wallet node, a C++ program that keeps a
  block chain with forks, delegated proof of stake and proof of work.  The theories follow the
  layers of the program; each one models the files named below and proves what its clients rely on.

  \<^item> \<^bold>\<open>Prelude\<close>: byte lists, machine integers, the error monad, and \<^verbatim>\<open>std::map\<close> as an ordered association
    list with the contract of the locale \<^verbatim>\<open>ordered_map\<close>.

  \<^item> \<^bold>\<open>Serialize\<close>: \<^verbatim>\<open>walleve/stream/stream.h\<close>, \<^verbatim>\<open>stream.cpp\<close> and \<^verbatim>\<open>datastream.h\<close>.  A reader is a function on the
    remaining bytes.  The locales \<^verbatim>\<open>codec\<close> and \<^verbatim>\<open>ds_codec\<close> state that reading after writing returns the
    value and the rest of the stream; every class with a stream form interprets them.  Reads that the
    C++ code makes beyond its buffer are an error value of their own.

  \<^item> \<^bold>\<open>Uint256\<close>: \<^verbatim>\<open>crypto/uint256.h\<close> on its eight limbs, with the refinement to 256-bit words that lets the
    other theories use words; hexadecimal text.

  \<^item> \<^bold>\<open>Base32\<close>: \<^verbatim>\<open>crypto/base32.cpp\<close> and \<^verbatim>\<open>crypto/crc24q.cpp\<close>: the table-driven checksum equals polynomial
    division, addresses round-trip, and one wrong character is detected.

  \<^item> \<^bold>\<open>Destination\<close>: \<^verbatim>\<open>common/destination.cpp\<close>, \<^verbatim>\<open>templateid.cpp\<close> and \<^verbatim>\<open>src/address.cpp\<close>.

  \<^item> \<^bold>\<open>Crypto\<close>: \<^verbatim>\<open>crypto/crypto.cpp\<close>.  The digest, the signature scheme and the point arithmetic are fields of
    the record \<^verbatim>\<open>crypto_env\<close>, which every operation that needs them takes as an argument; the index bytes
    and key sets of multi-signatures are modelled in full.

  \<^item> \<^bold>\<open>Template\<close>: \<^verbatim>\<open>common/template/*.cpp\<close>: the five templates, their data, and the mutually recursive
    verification of a signature through nested templates, which ends because every template consumes
    part of the signature.  It accepts a signature exactly when the relation \<^verbatim>\<open>authorised\<close> holds, which says
    who may spend from an address.

  \<^item> \<^bold>\<open>Transaction\<close>, \<^bold>\<open>Block\<close>, \<^bold>\<open>Profile\<close>: \<^verbatim>\<open>common/transaction.h\<close>, \<^verbatim>\<open>block.h\<close>, \<^verbatim>\<open>proof.h\<close>, \<^verbatim>\<open>profile.cpp\<close> and
    \<^verbatim>\<open>walleve/compacttv.h\<close>: the data of the chain with stream forms, hashes and the Merkle tree.

  \<^item> \<^bold>\<open>Core\<close>: \<^verbatim>\<open>src/core.cpp\<close>: validation and verification of transactions and blocks, the retargeting of proof
    of work, and the draw of the block producers, with the weights of the delegates that \<^verbatim>\<open>src/worldline.cpp\<close> and
    \<^verbatim>\<open>storage/blockbase.cpp\<close> derive from their votes.  It is shown exactly which blocks are valid, that the Merkle root commits to
    the transactions, and that the weights stay within the range in which the draw is computed without wrapping around.

  \<^item> \<^bold>\<open>TxPool\<close>, \<^bold>\<open>PoolInvariant\<close>, \<^bold>\<open>PoolSync\<close>: \<^verbatim>\<open>src/txpool.h\<close> and \<^verbatim>\<open>txpool.cpp\<close>: the pool of unconfirmed
    transactions with its views of the forks.  An invariant ties the outputs of a view to its transactions.  It is
    kept while transactions that are new, not on the chain and have a non-zero identifier are pushed, others are popped,
    and the chain grows; a rollback of the chain breaks it, which is a theorem too.  A block that the pool arranges has
    parents before children.  The world line, which
    the pool asks for outputs, is a record of functions.

  \<^item> \<^bold>\<open>BlockView\<close>: \<^verbatim>\<open>CBlockView\<close> in \<^verbatim>\<open>storage/blockbase.h\<close> and \<^verbatim>\<open>blockbase.cpp\<close>: the changes that blocks make to the unspent
    outputs, which refine a map of unspent outputs.

  \<^item> \<^bold>\<open>RWLock\<close>: \<^verbatim>\<open>walleve/rwlock.h\<close>: the lock as a step relation over any number of threads, with mutual exclusion and
    the absence of lost wake-ups.  Unlocking and the notification that follows it outside the mutex are two steps.

  \<^item> \<^bold>\<open>KVDB\<close>, \<^bold>\<open>UnspentDB\<close>: \<^verbatim>\<open>walleve/db/kvdb.h\<close>, \<^verbatim>\<open>storage/leveldbeng.cpp\<close>, \<^verbatim>\<open>unspentdb.h\<close> and \<^verbatim>\<open>unspentdb.cpp\<close>: tables of byte strings
    with transactions, and the unspent outputs of a fork in two maps over such a table.  LevelDB is an ordered map
    whose calls may fail.  The locale \<^verbatim>\<open>kv_table\<close> gives every table with stream forms its contents as a map, and
    \<^verbatim>\<open>unspent_store\<close> states what a view relies on when it is written.  Reads beside updates and flushes are
    linearizable, except in the window between the exchange of the maps and the unlocking of the lower one, where they
    miss changes; both are theorems.

  \<^item> \<^bold>\<open>BlockTree\<close>, \<^bold>\<open>MainChain\<close>: the index of the blocks and the forks in \<^verbatim>\<open>storage/blockbase.cpp\<close>, with the queries of
    \<^verbatim>\<open>src/worldline.cpp\<close>.  Pointers between entries are block hashes.  The chain of a block is computed with as much
    fuel as the index has entries, which is enough because a chain has no block twice.  The loops that set the
    forward pointers are partial functions; they are shown to return.

  \<^item> \<^bold>\<open>Circular\<close>, \<^bold>\<open>TimeSeries\<close>: \<^verbatim>\<open>walleve/stream/circular.cpp\<close>, the circular stream in \<^verbatim>\<open>stream.h\<close>, \<^verbatim>\<open>storage/timeseries.h\<close> and
    \<^verbatim>\<open>timeseries.cpp\<close>: a ring buffer with masked pointers that is a queue of bytes (locale \<^verbatim>\<open>byte_ring\<close>), and the files
    of blocks with a cache in such a buffer.  The locales \<^verbatim>\<open>record_type\<close> and \<^verbatim>\<open>cached_type\<close> are what the class templates
    ask of their type argument; \<^verbatim>\<open>CBlockEx\<close> is the instance the program uses.  A block is read back from where it was
    written, with and without the cache.  Loops that may not end are partial functions, and the theorems say when
    they end.

  Machine integers are words where they wrap around in the code; amounts, heights and times are integers, with
  their ranges as hypotheses where a theorem needs them.  In particular the sums of input values in \<^verbatim>\<open>VerifyTransaction\<close> and
  \<^verbatim>\<open>VerifyBlockTx\<close> do not wrap in the model, which agrees with the code as long as the inputs sum to less than \<open>2\<^sup>6\<^sup>3\<close>; the
  mortgage \<^verbatim>\<open>LockedCoin\<close> agrees with the code while it is below \<open>2\<^sup>6\<^sup>3\<close>, so at every height that is not negative; and
  \<^verbatim>\<open>GetDelegatedBallot\<close> divides by zero only for weights above \<^verbatim>\<open>DELEGATE_THRESH\<close>, which do not occur while the votes are within the money supply.  Reads outside a buffer and null pointers are error
  values or \<^const>\<open>None\<close>.

  \<^bold>\<open>Not modelled\<close>: the network, the RPC and DBP servers, the wallet, the block makers and the start-up code, which
  are event handlers, threads and text formats around the modelled rules; the curve arithmetic and the secret
  sharing, which enter as parameters; the tables of the transaction index, the forks, the block index and the delegates, and
  the operations of \<^verbatim>\<open>CBlockBase\<close> and \<^verbatim>\<open>CWorldLine\<close> that write to all stores together when a block is added; LevelDB, snappy and the JSON library, which are third-party code.
\<close>

end
